(* ===== verification/Prelude.thy ===== *)
theory Prelude
  imports Main "HOL-Library.Word" "HOL-Library.Sublist"
begin

text \<open>
  Shared vocabulary of the development: the machine types, the operations of C++'s
  standard string class the daemon uses (\<open>find\<close>, \<open>substr\<close>, \<open>find_first_not_of\<close>,
  \<open>getline\<close>), the interpretation of wait(2) status words, the loop that resolves a name
  against an enumeration, and the record \<open>host\<close>, the view of the operating system that
  the probing code reads. The host is a parameter of every definition that uses it:
  nothing is assumed of it here.
\<close>

named_theorems str_simps \<open>characterisations of the C++ string operations\<close>
named_theorems frame_simps \<open>what an operation leaves unchanged\<close>

type_synonym byte = "8 word"
type_synonym u32 = "32 word"
type_synonym u64 = "64 word"

section \<open>C++ strings\<close>

text \<open>A \<open>std::string\<close> is a list of bytes; \<open>char\<close> is Isabelle's 8-bit character.\<close>

definition str_of_bytes :: "byte list \<Rightarrow> string" where
  "str_of_bytes bs = map (\<lambda>b. char_of (unat b)) bs"

definition bytes_of_str :: "string \<Rightarrow> byte list" where
  "bytes_of_str s = map (\<lambda>c. word_of_nat (of_char c)) s"

lemma str_bytes_roundtrip [simp]: "str_of_bytes (bytes_of_str s) = s"
proof -
  have "char_of (unat (word_of_nat (of_char c) :: byte)) = c" for c
  proof -
    have "(of_char c :: nat) < 2 ^ 8" by simp
    then show ?thesis by (simp add: unat_of_nat)
  qed
  then show ?thesis by (induction s) (simp_all add: str_of_bytes_def bytes_of_str_def)
qed

definition nl :: char where
  "nl = CHR 0x0A"

definition is_blank :: "char \<Rightarrow> bool" where
  "is_blank c \<longleftrightarrow> c = CHR 0x20 \<or> c = CHR 0x09 \<or> c = CHR 0x0D \<or> c = CHR 0x0A"

fun find_char :: "char \<Rightarrow> string \<Rightarrow> nat option" where
  "find_char c [] = None"
| "find_char c (x # xs) = (if x = c then Some 0 else map_option Suc (find_char c xs))"

fun find_sub :: "string \<Rightarrow> string \<Rightarrow> nat option" where
  "find_sub n [] = (if n = [] then Some 0 else None)"
| "find_sub n (x # xs) = (if prefix n (x # xs) then Some 0 else map_option Suc (find_sub n xs))"

definition str_contains :: "string \<Rightarrow> string \<Rightarrow> bool" where
  "str_contains s n \<longleftrightarrow> find_sub n s \<noteq> None"

definition substr :: "string \<Rightarrow> nat \<Rightarrow> nat \<Rightarrow> string" where
  "substr s i n = take n (drop i s)"

text \<open>\<open>c_str()\<close> handed to a C interface stops at the first NUL byte.\<close>

definition c_str :: "string \<Rightarrow> string" where
  "c_str s = takeWhile (\<lambda>c. c \<noteq> CHR 0x00) s"

text \<open>\<open>trim\<close>: from \<open>find_first_not_of\<close> to \<open>find_last_not_of\<close> of blanks.\<close>

definition trim :: "string \<Rightarrow> string" where
  "trim s = rev (dropWhile is_blank (rev (dropWhile is_blank s)))"

text \<open>
  The loop \<open>while (std::getline(f, line))\<close>: lines without their terminator; an
  unterminated last line counts when it is not empty.
\<close>

fun getlines_aux :: "string \<Rightarrow> string \<Rightarrow> string list" where
  "getlines_aux acc [] = (if acc = [] then [] else [rev acc])"
| "getlines_aux acc (c # cs) =
     (if c = nl then rev acc # getlines_aux [] cs else getlines_aux (c # acc) cs)"

definition getlines :: "string \<Rightarrow> string list" where
  "getlines s = getlines_aux [] s"

text \<open>The first \<open>std::getline\<close> of a stream (empty at end of file).\<close>

definition first_getline :: "string \<Rightarrow> string" where
  "first_getline s = takeWhile (\<lambda>c. c \<noteq> nl) s"

text \<open>\<open>body.find(':')\<close> followed by \<open>substr(0, sep)\<close> and \<open>substr(sep + 1)\<close>.\<close>

definition split_at_colon :: "string \<Rightarrow> (string \<times> string) option" where
  "split_at_colon s = (case find_char (CHR '':'') s of
      None \<Rightarrow> None
    | Some i \<Rightarrow> Some (take i s, drop (Suc i) s))"

lemma find_char_None [str_simps]: "find_char c s = None \<longleftrightarrow> c \<notin> set s"
  by (induction s) auto

lemma find_char_Some:
  "find_char c s = Some i \<Longrightarrow> i < length s \<and> s ! i = c \<and> c \<notin> set (take i s)"
  by (induction s arbitrary: i) (auto split: if_splits)

lemma find_char_append: "c \<notin> set a \<Longrightarrow> find_char c (a @ c # b) = Some (length a)"
  by (induction a) auto

lemma split_at_colon_append:
  "CHR '':'' \<notin> set a \<Longrightarrow> split_at_colon (a @ CHR '':'' # b) = Some (a, b)"
  by (simp add: split_at_colon_def find_char_append)

lemma split_at_colon_Some:
  assumes "split_at_colon s = Some (a, b)"
  shows "s = a @ CHR '':'' # b \<and> CHR '':'' \<notin> set a"
proof -
  obtain i where i: "find_char (CHR '':'') s = Some i" and ab: "a = take i s" "b = drop (Suc i) s"
    using assms by (auto simp: split_at_colon_def split: option.splits)
  from find_char_Some [OF i] have "i < length s" "s ! i = CHR '':''" "CHR '':'' \<notin> set (take i s)"
    by auto
  then show ?thesis using ab id_take_nth_drop [of i s] by simp
qed

lemma split_at_colon_None [str_simps]: "split_at_colon s = None \<longleftrightarrow> CHR '':'' \<notin> set s"
  by (auto simp: split_at_colon_def find_char_None [symmetric] split: option.splits)

lemma find_sub_prefix: "find_sub n s = Some i \<Longrightarrow> prefix n (drop i s)"
  by (induction s arbitrary: i) (auto split: if_splits)

lemma find_sub_Some_iff: "find_sub n s \<noteq> None \<longleftrightarrow> (\<exists>a b. s = a @ n @ b)"
proof (induction s)
  case Nil
  then show ?case by simp
next
  case (Cons x xs)
  show ?case
  proof
    assume "find_sub n (x # xs) \<noteq> None"
    then consider "prefix n (x # xs)" | "find_sub n xs \<noteq> None"
      by (auto split: if_splits)
    then show "\<exists>a b. x # xs = a @ n @ b"
    proof cases
      case 1
      then obtain b where "x # xs = [] @ n @ b" by (auto simp: prefix_def)
      then show ?thesis by blast
    next
      case 2
      with Cons.IH obtain a b where "x # xs = (x # a) @ n @ b" by auto
      then show ?thesis by blast
    qed
  next
    assume "\<exists>a b. x # xs = a @ n @ b"
    then obtain a b where ab: "x # xs = a @ n @ b" by blast
    show "find_sub n (x # xs) \<noteq> None"
    proof (cases a)
      case Nil
      with ab have "prefix n (x # xs)" by simp
      then show ?thesis by simp
    next
      case (Cons y ys)
      with ab have "xs = ys @ n @ b" by simp
      then have "find_sub n xs \<noteq> None" using Cons.IH by blast
      then show ?thesis by simp
    qed
  qed
qed

lemma str_contains_iff [str_simps]: "str_contains s n \<longleftrightarrow> (\<exists>a b. s = a @ n @ b)"
  by (simp add: str_contains_def find_sub_Some_iff del: not_None_eq)

lemma str_contains_append1: "str_contains a n \<Longrightarrow> str_contains (a @ b) n"
  by (auto simp: str_contains_iff) (metis append.assoc)

lemma trim_no_outer_ws:
  "trim s = [] \<or> \<not> is_blank (hd (trim s)) \<and> \<not> is_blank (last (trim s))"
proof (cases "trim s = []")
  case False
  let ?t = "dropWhile is_blank s"
  have r: "trim s = rev (dropWhile is_blank (rev ?t))" by (simp add: trim_def)
  with False have ne: "dropWhile is_blank (rev ?t) \<noteq> []" by simp
  have l: "\<not> is_blank (last (trim s))"
    using hd_dropWhile [OF ne] by (simp add: r last_rev)
  obtain u where u: "?t = trim s @ u"
    using takeWhile_dropWhile_id [of is_blank "rev ?t"] r by (metis rev_append rev_rev_ident)
  then have "hd ?t = hd (trim s)" and "?t \<noteq> []" using False by auto
  moreover have "\<not> is_blank (hd ?t)" using \<open>?t \<noteq> []\<close> by (rule hd_dropWhile)
  ultimately show ?thesis using l by simp
qed simp

lemma set_trim: "set (trim s) \<subseteq> set s"
  by (auto simp: trim_def dest!: set_dropWhileD)

lemma first_getline_no_nl: "nl \<notin> set (first_getline s)"
  by (auto simp: first_getline_def dest: set_takeWhileD)

lemma getlines_aux_no_nl:
  "nl \<notin> set acc \<Longrightarrow> l \<in> set (getlines_aux acc s) \<Longrightarrow> nl \<notin> set l"
  by (induction acc s rule: getlines_aux.induct) (auto split: if_splits)

lemma getlines_no_nl: "l \<in> set (getlines s) \<Longrightarrow> nl \<notin> set l"
  unfolding getlines_def by (rule getlines_aux_no_nl) auto

lemma getlines_aux_app:
  "nl \<notin> set l \<Longrightarrow> getlines_aux acc (l @ nl # rest) = (rev acc @ l) # getlines_aux [] rest"
  by (induction l arbitrary: acc) auto

lemma getlines_cons [str_simps]:
  "nl \<notin> set l \<Longrightarrow> getlines (l @ nl # rest) = l # getlines rest"
  by (simp add: getlines_def getlines_aux_app)

lemma getlines_unlines:
  "\<forall>l \<in> set ls. nl \<notin> set l \<Longrightarrow> getlines (concat (map (\<lambda>l. l @ [nl]) ls)) = ls"
  by (induction ls) (auto simp: getlines_cons, simp add: getlines_def)

section \<open>Reading a pipe with fgets\<close>

text \<open>
  \<open>fgets(buffer, 256, pipe)\<close> returns at most 255 bytes and stops after a newline;
  \<open>output += buffer\<close> then appends it up to its first NUL.
\<close>

fun fgets_chunk :: "nat \<Rightarrow> string \<Rightarrow> string \<times> string" where
  "fgets_chunk 0 s = ([], s)"
| "fgets_chunk (Suc k) [] = ([], [])"
| "fgets_chunk (Suc k) (c # s) =
     (if c = nl then ([c], s) else (let (a, r) = fgets_chunk k s in (c # a, r)))"

lemma fgets_chunk_append: "fst (fgets_chunk k s) @ snd (fgets_chunk k s) = s"
  by (induction k s rule: fgets_chunk.induct) (auto simp: case_prod_beta)

lemma fgets_chunk_shrinks: "s \<noteq> [] \<Longrightarrow> length (snd (fgets_chunk (Suc k) s)) < length s"
proof (induction k arbitrary: s)
  case 0
  then show ?case by (cases s) auto
next
  case (Suc k)
  then obtain c t where s: "s = c # t" by (cases s) auto
  show ?case
  proof (cases "t = []")
    case False
    then show ?thesis using Suc.IH [of t] by (auto simp: s case_prod_beta)
  qed (auto simp: s)
qed

function fgets_all :: "string \<Rightarrow> string" where
  "fgets_all s =
    (if s = [] then []
     else c_str (fst (fgets_chunk 255 s)) @ fgets_all (snd (fgets_chunk 255 s)))"
  by pat_completeness auto
termination
proof (relation "measure length")
  fix s :: string
  assume "s \<noteq> []"
  then show "(snd (fgets_chunk 255 s), s) \<in> measure length"
    using fgets_chunk_shrinks [of s 254] by simp
qed simp

declare fgets_all.simps [simp del]

lemma c_str_id: "CHR 0x00 \<notin> set s \<Longrightarrow> c_str s = s"
  by (auto simp: c_str_def takeWhile_eq_all_conv)

lemma fgets_all_id: "CHR 0x00 \<notin> set s \<Longrightarrow> fgets_all s = s"
proof (induction s rule: fgets_all.induct)
  case (1 s)
  show ?case
  proof (cases "s = []")
    case False
    let ?a = "fst (fgets_chunk 255 s)" and ?r = "snd (fgets_chunk 255 s)"
    have s: "?a @ ?r = s" by (rule fgets_chunk_append)
    then have "CHR 0x00 \<notin> set ?a" "CHR 0x00 \<notin> set ?r" using 1(2) by (metis Un_iff set_append)+
    then have "fgets_all s = ?a @ ?r" using 1(1) False by (simp add: fgets_all.simps [of s] c_str_id)
    then show ?thesis using s by simp
  qed (simp add: fgets_all.simps)
qed

section \<open>Decimal output\<close>

text \<open>\<open>std::to_string\<close> and \<open>operator<<\<close> on integers.\<close>

definition digit :: "nat \<Rightarrow> char" where
  "digit d = char_of (48 + d)"

fun dec :: "nat \<Rightarrow> string" where
  "dec n = (if n < 10 then [digit n] else dec (n div 10) @ [digit (n mod 10)])"

declare dec.simps [simp del]

definition dec_int :: "int \<Rightarrow> string" where
  "dec_int i = (if i < 0 then CHR ''-'' # dec (nat (- i)) else dec (nat i))"

text \<open>\<open>atoi\<close> on a string that starts with digits (0 when there is none); no overflow modelled.\<close>

definition is_digit :: "char \<Rightarrow> bool" where
  "is_digit c \<longleftrightarrow> 48 \<le> (of_char c :: nat) \<and> (of_char c :: nat) \<le> 57"

definition digits_value :: "string \<Rightarrow> nat" where
  "digits_value s = foldl (\<lambda>n c. 10 * n + (of_char c - 48)) 0 s"

text \<open>\<open>isspace\<close> in the C locale.\<close>

definition is_space :: "char \<Rightarrow> bool" where
  "is_space c \<longleftrightarrow> is_blank c \<or> c = CHR 0x0B \<or> c = CHR 0x0C"

text \<open>
  The integer at the start of a text, and \<open>atoi\<close>: \<open>strtol\<close>, which stops at the ends of the 64-bit range, and then the conversion
  to an \<open>int\<close> of 32 bits, which keeps the low bits (the C standard leaves both cases open; this is what bionic does on
  64-bit devices).
\<close>

definition decimal_int :: "string \<Rightarrow> int" where
  "decimal_int s = (case dropWhile is_space s of
      [] \<Rightarrow> 0
    | c # cs \<Rightarrow>
        if c = CHR ''-'' then - int (digits_value (takeWhile is_digit cs))
        else if c = CHR ''+'' then int (digits_value (takeWhile is_digit cs))
        else int (digits_value (takeWhile is_digit (c # cs))))"

definition atoi :: "string \<Rightarrow> int" where
  "atoi s = sint (word_of_int (max (- (2 ^ 63)) (min (2 ^ 63 - 1) (decimal_int s))) :: 32 word)"

lemma of_char_digit [simp]: "d < 10 \<Longrightarrow> (of_char (digit d) :: nat) = 48 + d"
  by (simp add: digit_def)

lemma digits_value_snoc: "digits_value (s @ [c]) = 10 * digits_value s + (of_char c - 48)"
  by (simp add: digits_value_def)

lemma digits_value_dec: "digits_value (dec n) = n"
proof (induction n rule: dec.induct)
  case (1 n)
  show ?case
  proof (cases "n < 10")
    case True
    then show ?thesis by (simp add: dec.simps [of n] digits_value_def)
  next
    case False
    then show ?thesis using 1 by (simp add: dec.simps [of n] digits_value_snoc)
  qed
qed

lemma dec_digits: "c \<in> set (dec n) \<Longrightarrow> is_digit c"
proof (induction n rule: dec.induct)
  case (1 n)
  then show ?case
    by (cases "n < 10") (auto simp: dec.simps [of n] is_digit_def)
qed

lemma dec_inj: "dec m = dec n \<longleftrightarrow> m = n"
  by (metis digits_value_dec)

section \<open>wait(2) status words\<close>

text \<open>
  \<open>WIFEXITED\<close>, \<open>WEXITSTATUS\<close>, \<open>WIFSIGNALED\<close> and \<open>WTERMSIG\<close> on the C \<open>int\<close> status
  (the signal is the low seven bits, the exit code the second byte; the low bits 0x7f mark
  a stopped child, and the value -1 of a failed call has all bits set).
\<close>

definition wtermsig :: "int \<Rightarrow> int" where
  "wtermsig st = st mod 128"

definition wifexited :: "int \<Rightarrow> bool" where
  "wifexited st \<longleftrightarrow> wtermsig st = 0"

definition wexitstatus :: "int \<Rightarrow> int" where
  "wexitstatus st = (st div 256) mod 256"

definition wifsignaled :: "int \<Rightarrow> bool" where
  "wifsignaled st \<longleftrightarrow> 0 < wtermsig st \<and> wtermsig st < 127"

lemma wexitstatus_bounds: "0 \<le> wexitstatus st \<and> wexitstatus st < 256"
  by (simp add: wexitstatus_def)

lemma wtermsig_bounds: "0 \<le> wtermsig st \<and> wtermsig st < 128"
  by (simp add: wtermsig_def)

section \<open>Enumerations with names\<close>

text \<open>
  The loop \<open>for (auto e : all) if (name(e) == s) return e\<close>, which the sources repeat
  for permissions and (twice) for capabilities.
\<close>

fun lookup_name :: "('e \<Rightarrow> string) \<Rightarrow> 'e list \<Rightarrow> string \<Rightarrow> 'e option" where
  "lookup_name nm [] s = None"
| "lookup_name nm (e # es) s = (if nm e = s then Some e else lookup_name nm es s)"

text \<open>
  The contract of a named enumeration: the list of all values is complete and the names
  are pairwise distinct. A client that resolves names needs nothing else.
\<close>

locale named_enum =
  fixes all_values :: "'e list"
    and name_of :: "'e \<Rightarrow> string"
  assumes complete: "set all_values = UNIV"
    and distinct_names: "distinct (map name_of all_values)"
begin

lemma name_inj: "name_of a = name_of b \<longleftrightarrow> a = b"
  using distinct_names complete by (metis UNIV_I distinct_map inj_on_eq_iff)

lemma lookup_in:
  "lookup_name name_of es s = Some e \<Longrightarrow> e \<in> set es \<and> name_of e = s"
  by (induction es) (auto split: if_splits)

lemma lookup_member:
  "e \<in> set es \<Longrightarrow> lookup_name name_of es (name_of e) = Some e"
  by (induction es) (auto simp: name_inj)

lemma lookup_name_of: "lookup_name name_of all_values (name_of e) = Some e"
  by (rule lookup_member) (simp add: complete)

lemma lookup_iff: "lookup_name name_of all_values s = Some e \<longleftrightarrow> s = name_of e"
  using lookup_name_of lookup_in by blast

lemma lookup_None: "lookup_name name_of all_values s = None \<longleftrightarrow> (\<forall>e. s \<noteq> name_of e)"
  by (metis lookup_iff not_Some_eq)

end

section \<open>The host\<close>

text \<open>
  What the probing code asks of the operating system during one request: whether a path
  exists (\<open>stat\<close> or \<open>access(F_OK)\<close> succeeds), whether \<open>stat\<close> fails on it for another
  reason than that it is not there (no permission, a loop of links, an input/output error), the contents of a file
  that can be opened, the output and wait status of a \<open>popen\<close>ed command (None when
  \<open>popen\<close> fails), the process's uid, and the wait status of a forked child
  that tries to \<open>unshare\<close> a namespace and exits 0 or 1 (None when \<open>fork\<close> fails).
\<close>

datatype ns_flag = CLONE_NEWNS | CLONE_NEWPID | CLONE_NEWNET

record host =
  h_exists :: "string \<Rightarrow> bool"
  h_stat_error :: "string \<Rightarrow> bool"
  h_read :: "string \<Rightarrow> string option"
  h_popen :: "string \<Rightarrow> (string \<times> int) option"
  h_uid :: u32
  h_unshare :: "ns_flag \<Rightarrow> int option"

text \<open>
  \<open>std::filesystem::exists\<close> without an \<open>error_code\<close>: it throws (None) when \<open>stat\<close> fails for such a reason.
\<close>

definition fs_exists :: "host \<Rightarrow> string \<Rightarrow> bool option" where
  "fs_exists h p = (if h_stat_error h p then None else Some (h_exists h p))"

lemma fs_exists_None [simp]: "fs_exists h p = None \<longleftrightarrow> h_stat_error h p"
  by (simp add: fs_exists_def)

lemma fs_exists_Some [simp]: "fs_exists h p = Some b \<longleftrightarrow> \<not> h_stat_error h p \<and> h_exists h p = b"
  by (auto simp: fs_exists_def)

text \<open>The first path of a list that exists; the search ends with the first exception.\<close>

fun find_existing :: "host \<Rightarrow> string list \<Rightarrow> string option option" where
  "find_existing h [] = Some None"
| "find_existing h (p # ps) = (case fs_exists h p of
      None \<Rightarrow> None
    | Some True \<Rightarrow> Some (Some p)
    | Some False \<Rightarrow> find_existing h ps)"

lemma find_existing_ok:
  "\<forall>p\<in>set ps. \<not> h_stat_error h p \<Longrightarrow> find_existing h ps = Some (find (h_exists h) ps)"
  by (induction ps) (auto simp: fs_exists_def)

text \<open>A host on which nothing exists, for concrete evaluations.\<close>

definition bare_host :: host where
  "bare_host = \<lparr>h_exists = (\<lambda>_. False), h_stat_error = (\<lambda>_. False), h_read = (\<lambda>_. None), h_popen = (\<lambda>_. None),
     h_uid = 0, h_unshare = (\<lambda>_. None)\<rparr>"

section \<open>Keyed stores\<close>

text \<open>
  The contract of the maps and tables the daemon keeps: a lookup after an update sees the
  update at its key and nothing else anywhere.
\<close>

locale keyed_store =
  fixes lookup :: "'s \<Rightarrow> 'k \<Rightarrow> 'v"
    and put :: "'s \<Rightarrow> 'k \<Rightarrow> 'v \<Rightarrow> 's"
  assumes lookup_put: "lookup (put s k v) k' = (if k' = k then v else lookup s k')"
begin

lemma lookup_put_same: "lookup (put s k v) k = v"
  by (simp add: lookup_put)

lemma lookup_put_other: "k' \<noteq> k \<Longrightarrow> lookup (put s k v) k' = lookup s k'"
  by (simp add: lookup_put)

lemma lookup_put_put: "lookup (put (put s k v) k v') k' = lookup (put s k v') k'"
  by (simp add: lookup_put)

end

section \<open>Histories\<close>

text \<open>
  Components are used through sequences of operations. A \<open>machine\<close> keeps an invariant on
  every legal operation, hence over every legal history; a \<open>simulation\<close> is a machine whose
  steps follow those of an abstract specification.
\<close>

locale machine =
  fixes step :: "'s \<Rightarrow> 'o \<Rightarrow> 's"
    and legal :: "'o \<Rightarrow> bool"
    and inv :: "'s \<Rightarrow> bool"
  assumes inv_step: "inv s \<Longrightarrow> legal op \<Longrightarrow> inv (step s op)"
begin

lemma inv_run: "inv s \<Longrightarrow> list_all legal ops \<Longrightarrow> inv (foldl step s ops)"
  by (induction ops arbitrary: s) (simp_all add: inv_step)

end

locale simulation = machine step legal inv
  for step :: "'s \<Rightarrow> 'o \<Rightarrow> 's" and legal :: "'o \<Rightarrow> bool" and inv :: "'s \<Rightarrow> bool" +
  fixes astep :: "'a \<Rightarrow> 'o \<Rightarrow> 'a"
    and rel :: "'s \<Rightarrow> 'a \<Rightarrow> bool"
  assumes rel_step: "inv s \<Longrightarrow> rel s a \<Longrightarrow> legal op \<Longrightarrow> rel (step s op) (astep a op)"
begin

lemma rel_run: "inv s \<Longrightarrow> rel s a \<Longrightarrow> list_all legal ops \<Longrightarrow> rel (foldl step s ops) (foldl astep a ops)"
  by (induction ops arbitrary: s a) (simp_all add: inv_step rel_step)

end

end
