(* ===== verification/Capability.thy ===== *)
theory Capability
  imports Prelude
begin

text \<open>
  The capability vocabulary and the device capability matrix
  (daemon/src/capability/capability.cpp, capability_matrix.cpp and their headers). The
  matrix is the \<open>std::map<Capability, bool>\<close> of the source: a capability that was never
  set reads as unavailable.
\<close>

datatype capability =
    ROOT_ACCESS
  | SELINUX_CONTROL
  | MOUNT_NAMESPACE
  | BOOT_PATCH
  | SYSTEM_WRITE
  | KERNEL_INTERFACE
  | NETWORK
  | IPC_ACCESS
  | MODULE_RUNTIME
  | NAMESPACE_ISOLATION
  | ASTRA_ROOT
  | OVERLAYFS

fun capability_name :: "capability \<Rightarrow> string" where
  "capability_name capability.ROOT_ACCESS = ''ROOT_ACCESS''"
| "capability_name capability.SYSTEM_WRITE = ''SYSTEM_WRITE''"
| "capability_name capability.MOUNT_NAMESPACE = ''MOUNT_NAMESPACE''"
| "capability_name capability.KERNEL_INTERFACE = ''KERNEL_INTERFACE''"
| "capability_name capability.BOOT_PATCH = ''BOOT_PATCH''"
| "capability_name capability.SELINUX_CONTROL = ''SELINUX_CONTROL''"
| "capability_name capability.NETWORK = ''NETWORK''"
| "capability_name capability.IPC_ACCESS = ''IPC_ACCESS''"
| "capability_name capability.MODULE_RUNTIME = ''MODULE_RUNTIME''"
| "capability_name capability.NAMESPACE_ISOLATION = ''NAMESPACE_ISOLATION''"
| "capability_name capability.ASTRA_ROOT = ''ASTRA_ROOT''"
| "capability_name capability.OVERLAYFS = ''OVERLAYFS''"

definition all_capabilities :: "capability list" where
  "all_capabilities =
    [capability.ROOT_ACCESS, capability.SYSTEM_WRITE, capability.MOUNT_NAMESPACE,
     capability.KERNEL_INTERFACE, capability.BOOT_PATCH, capability.SELINUX_CONTROL,
     capability.NETWORK, capability.IPC_ACCESS, capability.MODULE_RUNTIME,
     capability.NAMESPACE_ISOLATION, capability.ASTRA_ROOT, capability.OVERLAYFS]"

lemma capability_names_distinct: "distinct (map capability_name all_capabilities)"
  by (simp add: all_capabilities_def)

lemma all_capabilities_complete: "c \<in> set all_capabilities"
  by (cases c) (simp_all add: all_capabilities_def)

interpretation cap_enum: named_enum all_capabilities capability_name
  by unfold_locales (auto simp: all_capabilities_complete capability_names_distinct)

text \<open>
  The array \<open>all_capabilities()\<close> lists the type, so it is its enumeration: a statement about
  every capability is decided by running through the array.
\<close>

instantiation capability :: enum
begin

definition enum_capability :: "capability list" where
  "enum_capability = all_capabilities"

definition enum_all_capability :: "(capability \<Rightarrow> bool) \<Rightarrow> bool" where
  "enum_all_capability P = list_all P all_capabilities"

definition enum_ex_capability :: "(capability \<Rightarrow> bool) \<Rightarrow> bool" where
  "enum_ex_capability P = list_ex P all_capabilities"

instance
  by standard
    (use all_capabilities_complete capability_names_distinct [THEN distinct_map [THEN iffD1]] in
      \<open>auto simp: enum_capability_def enum_all_capability_def enum_ex_capability_def list_all_iff list_ex_iff\<close>)

end

text \<open>\<open>resolve_capability\<close> of request_handler.cpp and module_permission_checker.cpp.\<close>

definition resolve_capability :: "string \<Rightarrow> capability option" where
  "resolve_capability s = lookup_name capability_name all_capabilities s"

lemma resolve_capability_iff: "resolve_capability s = Some c \<longleftrightarrow> s = capability_name c"
  by (simp add: resolve_capability_def cap_enum.lookup_iff)

section \<open>The capability matrix\<close>

type_synonym capability_matrix = "capability \<rightharpoonup> bool"

definition matrix_set :: "capability_matrix \<Rightarrow> capability \<Rightarrow> bool \<Rightarrow> capability_matrix" where
  "matrix_set m c enabled = m(c \<mapsto> enabled)"

definition matrix_has :: "capability_matrix \<Rightarrow> capability \<Rightarrow> bool" where
  "matrix_has m c = (case m c of None \<Rightarrow> False | Some b \<Rightarrow> b)"

interpretation matrix: keyed_store matrix_has matrix_set
  by unfold_locales (simp add: matrix_has_def matrix_set_def)

lemma matrix_has_empty [simp]: "matrix_has Map.empty c = False"
  by (simp add: matrix_has_def)

lemma matrix_has_set [simp]:
  "matrix_has (matrix_set m c b) c' = (if c' = c then b else matrix_has m c')"
  by (rule matrix.lookup_put)

text \<open>The loop \<open>for (auto c : caps) matrix.set(c, true)\<close> of the detector.\<close>

fun matrix_set_all :: "capability_matrix \<Rightarrow> capability list \<Rightarrow> capability_matrix" where
  "matrix_set_all m [] = m"
| "matrix_set_all m (c # cs) = matrix_set_all (matrix_set m c True) cs"

lemma matrix_has_set_all [simp]:
  "matrix_has (matrix_set_all m cs) c \<longleftrightarrow> c \<in> set cs \<or> matrix_has m c"
  by (induction cs arbitrary: m) auto

subsection \<open>The JSON view of the matrix\<close>

definition json_bool :: "bool \<Rightarrow> string" where
  "json_bool b = (if b then ''true'' else ''false'')"

fun matrix_json_loop :: "capability_matrix \<Rightarrow> bool \<Rightarrow> capability list \<Rightarrow> string \<Rightarrow> string" where
  "matrix_json_loop m first [] result = result"
| \<open>matrix_json_loop m first (c # cs) result =
     matrix_json_loop m False cs
       ((if first then result else result @ '','') @ ''"'' @ capability_name c @ ''":'' @
        json_bool (matrix_has m c))\<close>

definition matrix_json :: "capability_matrix \<Rightarrow> string" where
  "matrix_json m = matrix_json_loop m True all_capabilities ''{'' @ ''}''"

definition matrix_entry :: "capability_matrix \<Rightarrow> capability \<Rightarrow> string" where
  \<open>matrix_entry m c = ''"'' @ capability_name c @ ''":'' @ json_bool (matrix_has m c)\<close>

fun comma_sep :: "string list \<Rightarrow> string" where
  "comma_sep [] = []"
| "comma_sep [x] = x"
| "comma_sep (x # y # ys) = x @ '','' @ comma_sep (y # ys)"

lemma matrix_json_loop_False:
  "matrix_json_loop m False cs r = r @ concat (map (\<lambda>c. '','' @ matrix_entry m c) cs)"
  by (induction cs arbitrary: r) (auto simp: matrix_entry_def)

lemma comma_sep_Cons: "comma_sep (x # xs) = x @ concat (map (\<lambda>y. '','' @ y) xs)"
  by (induction xs arbitrary: x) auto

lemma matrix_json_loop_True:
  "cs \<noteq> [] \<Longrightarrow> matrix_json_loop m True cs r = r @ comma_sep (map (matrix_entry m) cs)"
  by (cases cs)
    (auto simp: matrix_json_loop_False comma_sep_Cons matrix_entry_def comp_def)

lemma matrix_json_eq:
  "matrix_json m = ''{'' @ comma_sep (map (matrix_entry m) all_capabilities) @ ''}''"
proof -
  have "all_capabilities \<noteq> []" by (simp add: all_capabilities_def)
  from matrix_json_loop_True [OF this] show ?thesis by (simp add: matrix_json_def)
qed

lemma json_bool_append_inj:
  "json_bool a @ x = json_bool b @ y \<longleftrightarrow> a = b \<and> x = y"
  by (auto simp: json_bool_def)

lemma entries_determine:
  "concat (map (\<lambda>c. '','' @ matrix_entry m c) cs) = concat (map (\<lambda>c. '','' @ matrix_entry m' c) cs) \<Longrightarrow>
   c \<in> set cs \<Longrightarrow> matrix_has m c = matrix_has m' c"
  by (induction cs) (auto simp: matrix_entry_def json_bool_append_inj)

text \<open>
  The JSON answer to GetCapabilityMatrix determines the matrix: two matrices print the
  same text exactly when they agree on every capability.
\<close>

theorem matrix_json_faithful:
  "matrix_json m = matrix_json m' \<longleftrightarrow> (\<forall>c. matrix_has m c = matrix_has m' c)"
proof
  assume eq: "matrix_json m = matrix_json m'"
  let ?f = "\<lambda>m cs. concat (map (\<lambda>c. '','' @ matrix_entry m c) cs)"
  have "comma_sep (map (matrix_entry m) all_capabilities) =
      comma_sep (map (matrix_entry m') all_capabilities)"
    using eq by (simp add: matrix_json_eq)
  then have "?f m all_capabilities = ?f m' all_capabilities"
    by (simp add: all_capabilities_def comma_sep_Cons comp_def del: comma_sep.simps)
  then show "\<forall>c. matrix_has m c = matrix_has m' c"
    using entries_determine all_capabilities_complete by blast
next
  assume "\<forall>c. matrix_has m c = matrix_has m' c"
  then have "matrix_entry m = matrix_entry m'" by (simp add: matrix_entry_def fun_eq_iff)
  then show "matrix_json m = matrix_json m'" by (simp add: matrix_json_eq)
qed

end
