(* ===== verification/Permission.thy ===== *)
theory Permission
  imports Capability
begin

text \<open>
  The security layer: permission tokens and their names (security/permission.cpp), the
  permission database (permission_database.cpp) and the authorisation decision of the
  \<open>SecurityEngine\<close> (security_engine.cpp), which consults the database and the live
  capability matrix.
\<close>

datatype permission =
    ROOT_ACCESS
  | SYSTEM_WRITE
  | MOUNT
  | BOOT_PATCH
  | SELINUX_CONTROL
  | KERNEL_INTERFACE
  | NETWORK_ACCESS
  | FILESYSTEM_ACCESS
  | IPC_ACCESS

fun permission_name :: "permission \<Rightarrow> string" where
  "permission_name permission.ROOT_ACCESS = ''ROOT_ACCESS''"
| "permission_name permission.SYSTEM_WRITE = ''SYSTEM_WRITE''"
| "permission_name permission.MOUNT = ''MOUNT''"
| "permission_name permission.BOOT_PATCH = ''BOOT_PATCH''"
| "permission_name permission.SELINUX_CONTROL = ''SELINUX_CONTROL''"
| "permission_name permission.KERNEL_INTERFACE = ''KERNEL_INTERFACE''"
| "permission_name permission.NETWORK_ACCESS = ''NETWORK_ACCESS''"
| "permission_name permission.FILESYSTEM_ACCESS = ''FILESYSTEM_ACCESS''"
| "permission_name permission.IPC_ACCESS = ''IPC_ACCESS''"

definition all_permissions :: "permission list" where
  "all_permissions =
    [permission.ROOT_ACCESS, permission.SYSTEM_WRITE, permission.MOUNT, permission.BOOT_PATCH,
     permission.SELINUX_CONTROL, permission.KERNEL_INTERFACE, permission.NETWORK_ACCESS,
     permission.FILESYSTEM_ACCESS, permission.IPC_ACCESS]"

definition permission_from_name :: "string \<Rightarrow> permission option" where
  "permission_from_name s = lookup_name permission_name all_permissions s"

lemma all_permissions_complete: "p \<in> set all_permissions"
  by (cases p) (simp_all add: all_permissions_def)

interpretation perm_enum: named_enum all_permissions permission_name
  by unfold_locales (auto simp: all_permissions_complete, simp add: all_permissions_def)

lemma all_permissions_distinct: "distinct all_permissions"
  by (simp add: all_permissions_def)

instantiation permission :: enum
begin

definition enum_permission :: "permission list" where
  "enum_permission = all_permissions"

definition enum_all_permission :: "(permission \<Rightarrow> bool) \<Rightarrow> bool" where
  "enum_all_permission P = list_all P all_permissions"

definition enum_ex_permission :: "(permission \<Rightarrow> bool) \<Rightarrow> bool" where
  "enum_ex_permission P = list_ex P all_permissions"

instance
  by standard
    (use all_permissions_complete all_permissions_distinct in
      \<open>auto simp: enum_permission_def enum_all_permission_def enum_ex_permission_def list_all_iff list_ex_iff\<close>)

end

lemma permission_from_name_iff: "permission_from_name s = Some p \<longleftrightarrow> s = permission_name p"
  by (simp add: permission_from_name_def perm_enum.lookup_iff)

text \<open>
  Permission names round-trip: every permission is recovered from its printed name,
  and a string resolves to a permission exactly when it is that permission's name (so
  permission_from_name rejects every other string).
\<close>

theorem permission_name_roundtrip:
  "permission_from_name (permission_name p) = Some p \<and>
   (permission_from_name s = Some p \<longleftrightarrow> s = permission_name p) \<and>
   (permission_from_name s = None \<longleftrightarrow> (\<forall>q. s \<noteq> permission_name q))"
  by (simp add: permission_from_name_iff) (simp add: permission_from_name_def perm_enum.lookup_None)

section \<open>The permission database\<close>

text \<open>\<open>std::map<std::string, std::set<Permission>>\<close>, keyed by module id.\<close>

type_synonym permission_db = "string \<rightharpoonup> permission set"

text \<open>\<open>grants_[module]\<close> creates an empty set for a module seen for the first time.\<close>

definition db_slot :: "permission_db \<Rightarrow> string \<Rightarrow> permission set" where
  "db_slot db m = (case db m of None \<Rightarrow> {} | Some s \<Rightarrow> s)"

definition db_grant :: "permission_db \<Rightarrow> string \<Rightarrow> permission \<Rightarrow> bool \<times> permission_db" where
  "db_grant db m p = (p \<notin> db_slot db m, db(m \<mapsto> insert p (db_slot db m)))"

definition db_revoke :: "permission_db \<Rightarrow> string \<Rightarrow> permission \<Rightarrow> bool \<times> permission_db" where
  "db_revoke db m p = (case db m of
      None \<Rightarrow> (False, db)
    | Some s \<Rightarrow> (p \<in> s, db(m \<mapsto> s - {p})))"

definition db_check :: "permission_db \<Rightarrow> string \<Rightarrow> permission \<Rightarrow> bool" where
  "db_check db m p = (case db m of None \<Rightarrow> False | Some s \<Rightarrow> p \<in> s)"

definition db_revoke_all :: "permission_db \<Rightarrow> string \<Rightarrow> permission_db" where
  "db_revoke_all db m = db(m := None)"

text \<open>
  What a client of a grant store relies on: a check after a grant or a revocation sees
  exactly that change, and the reported flag tells whether anything changed. A history is
  a list of decisions (\<open>True\<close> for a grant, \<open>False\<close> for a revocation); \<open>last_word\<close> is what
  the last decision on a pair was.
\<close>

fun last_word :: "(bool \<times> 'k \<times> 'p) list \<Rightarrow> 'k \<Rightarrow> 'p \<Rightarrow> bool \<Rightarrow> bool" where
  "last_word [] k p d = d"
| "last_word ((b, k', p') # ops) k p d =
     last_word ops k p (if k' = k \<and> p' = p then b else d)"

locale grant_store =
  fixes check :: "'s \<Rightarrow> 'k \<Rightarrow> 'p \<Rightarrow> bool"
    and grant :: "'s \<Rightarrow> 'k \<Rightarrow> 'p \<Rightarrow> bool \<times> 's"
    and revoke :: "'s \<Rightarrow> 'k \<Rightarrow> 'p \<Rightarrow> bool \<times> 's"
  assumes check_grant:
      "check (snd (grant s k p)) k' p' \<longleftrightarrow> (k' = k \<and> p' = p) \<or> check s k' p'"
    and grant_new: "fst (grant s k p) \<longleftrightarrow> \<not> check s k p"
    and check_revoke:
      "check (snd (revoke s k p)) k' p' \<longleftrightarrow> \<not> (k' = k \<and> p' = p) \<and> check s k' p'"
    and revoke_had: "fst (revoke s k p) \<longleftrightarrow> check s k p"
begin

lemma grant_then_check: "check (snd (grant s k p)) k p"
  by (simp add: check_grant)

lemma revoke_then_check: "\<not> check (snd (revoke s k p)) k p"
  by (simp add: check_revoke)

lemma grant_idempotent: "\<not> fst (grant (snd (grant s k p)) k p)"
  by (simp add: grant_new check_grant)

lemma revoke_undoes_new_grant:
  assumes "fst (grant s k p)"
  shows "check (snd (revoke (snd (grant s k p)) k p)) k' p' \<longleftrightarrow> check s k' p'"
  using assms by (auto simp: check_grant check_revoke grant_new)

text \<open>A history of grants and revocations leaves exactly what its last word on a pair says.\<close>

lemma check_history:
  "check (foldl (\<lambda>s (b, k, p). snd ((if b then grant else revoke) s k p)) s ops) k p =
   last_word ops k p (check s k p)"
proof (induction ops arbitrary: s)
  case Nil
  then show ?case by simp
next
  case (Cons op ops)
  obtain b k' p' where op: "op = (b, k', p')" by (cases op) auto
  have "check (snd ((if b then grant else revoke) s k' p')) k p =
      (if k' = k \<and> p' = p then b else check s k p)"
    by (auto simp: check_grant check_revoke)
  then show ?case by (simp add: op Cons.IH)
qed

end

interpretation perm_db: grant_store db_check db_grant db_revoke
  by unfold_locales
    (auto simp: db_check_def db_grant_def db_revoke_def db_slot_def split: option.splits)

lemma db_check_revoke_all:
  "db_check (db_revoke_all db m) m' p \<longleftrightarrow> m' \<noteq> m \<and> db_check db m' p"
  by (simp add: db_check_def db_revoke_all_def)

section \<open>The authorisation decision\<close>

fun permission_to_capability :: "permission \<Rightarrow> capability option" where
  "permission_to_capability permission.ROOT_ACCESS = Some capability.ROOT_ACCESS"
| "permission_to_capability permission.SYSTEM_WRITE = Some capability.SYSTEM_WRITE"
| "permission_to_capability permission.MOUNT = Some capability.MOUNT_NAMESPACE"
| "permission_to_capability permission.BOOT_PATCH = Some capability.BOOT_PATCH"
| "permission_to_capability permission.SELINUX_CONTROL = Some capability.SELINUX_CONTROL"
| "permission_to_capability permission.KERNEL_INTERFACE = Some capability.KERNEL_INTERFACE"
| "permission_to_capability permission.NETWORK_ACCESS = Some capability.NETWORK"
| "permission_to_capability permission.IPC_ACCESS = Some capability.IPC_ACCESS"
| "permission_to_capability permission.FILESYSTEM_ACCESS = None"

record permission_request =
  req_module_id :: string
  req_permission :: permission
  req_reason :: string

text \<open>The engine is its database; the matrix it reads is the daemon's live one.\<close>

definition authorize :: "permission_db \<Rightarrow> capability_matrix \<Rightarrow> permission_request \<Rightarrow> bool" where
  "authorize db matrix r =
    (if \<not> db_check db (req_module_id r) (req_permission r) then False
     else (case permission_to_capability (req_permission r) of
         Some cap \<Rightarrow> (if \<not> matrix_has matrix cap then False else True)
       | None \<Rightarrow> True))"

lemma authorize_iff:
  "authorize db mx r \<longleftrightarrow> db_check db (req_module_id r) (req_permission r) \<and>
     (\<forall>c. permission_to_capability (req_permission r) = Some c \<longrightarrow> matrix_has mx c)"
  by (auto simp: authorize_def split: option.splits)

definition engine_grant :: "permission_db \<Rightarrow> string \<Rightarrow> permission \<Rightarrow> bool \<times> permission_db" where
  "engine_grant db m p = db_grant db m p"

definition engine_revoke :: "permission_db \<Rightarrow> string \<Rightarrow> permission \<Rightarrow> bool \<times> permission_db" where
  "engine_revoke db m p = db_revoke db m p"

definition engine_check :: "permission_db \<Rightarrow> string \<Rightarrow> permission \<Rightarrow> bool" where
  "engine_check db m p = db_check db m p"

interpretation engine: grant_store engine_check engine_grant engine_revoke
  unfolding engine_check_def engine_grant_def engine_revoke_def
  by (rule perm_db.grant_store_axioms)

text \<open>The user's decisions, in order, through \<open>grant\<close> and \<open>revoke\<close> of the engine.\<close>

definition engine_history :: "permission_db \<Rightarrow> (bool \<times> string \<times> permission) list \<Rightarrow> permission_db" where
  "engine_history =
    foldl (\<lambda>s (b, k, p). snd ((if b then engine_grant else engine_revoke) s k p))"

text \<open>
  After any history of user grants and revocations on an empty database, the engine
  authorises a request exactly when the last decision on that module and permission was a
  grant and, for a permission backed by a capability, the device matrix offers it.
\<close>

theorem authorize_after_history:
  "authorize (engine_history Map.empty ops) mx r \<longleftrightarrow>
     last_word ops (req_module_id r) (req_permission r) False \<and>
     (case permission_to_capability (req_permission r) of
        None \<Rightarrow> req_permission r = permission.FILESYSTEM_ACCESS
      | Some c \<Rightarrow> matrix_has mx c)"
proof -
  have "engine_check Map.empty m p = False" for m p
    by (simp add: engine_check_def db_check_def)
  then have "db_check (engine_history Map.empty ops) m p = last_word ops m p False" for m p
    using engine.check_history [of Map.empty ops m p]
    by (simp add: engine_history_def engine_check_def)
  then show ?thesis
    by (cases "req_permission r") (simp_all add: authorize_iff)
qed

end
