(* ===== verification/CapTree.thy ===== *)
theory CapTree
  imports Prelude "HOL-Library.AList"
begin

text \<open>
  The capability delegation tree (daemon/src/security/capability_tree.cpp). Nodes and
  child lists are the two \<open>unordered_map\<close>s of the class, kept as association lists (the
  code's results do not depend on their order). The two private recursive walks take
  fuel for the depth of the C++ call stack; the public operations supply one more than the
  number of map entries, which the theorems show to be enough on every well-formed tree.
\<close>

record cap_node =
  node_id :: string
  node_parent :: string
  node_caps :: "string set"
  node_depth :: int

record cap_tree =
  nodes :: "(string \<times> cap_node) list"
  kids :: "(string \<times> string list) list"

abbreviation daemon_id :: string where
  "daemon_id \<equiv> ''daemon''"

abbreviation node_at :: "cap_tree \<Rightarrow> string \<Rightarrow> cap_node option" where
  "node_at t \<equiv> map_of (nodes t)"

abbreviation kids_of :: "cap_tree \<Rightarrow> string \<Rightarrow> string list option" where
  "kids_of t \<equiv> map_of (kids t)"

definition empty_tree :: cap_tree where
  "empty_tree = \<lparr>nodes = [], kids = []\<rparr>"

definition init_root :: "cap_tree \<Rightarrow> string set \<Rightarrow> cap_tree" where
  "init_root t all_caps =
    \<lparr>nodes = [(daemon_id, \<lparr>node_id = daemon_id, node_parent = [], node_caps = all_caps,
        node_depth = 0\<rparr>)],
     kids = [(daemon_id, [])]\<rparr>"

text \<open>\<open>children_[parentId]\<close> creates an empty vector when the key is absent.\<close>

definition kids_slot :: "cap_tree \<Rightarrow> string \<Rightarrow> string list" where
  "kids_slot t p = (case kids_of t p of None \<Rightarrow> [] | Some cs \<Rightarrow> cs)"

definition delegate :: "cap_tree \<Rightarrow> string \<Rightarrow> string \<Rightarrow> string set \<Rightarrow> bool \<times> cap_tree" where
  "delegate t parent child caps = (case node_at t parent of
      None \<Rightarrow> (False, t)
    | Some pn \<Rightarrow>
        if node_at t child \<noteq> None then (False, t)
        else if \<not> caps \<subseteq> node_caps pn then (False, t)
        else (True,
          \<lparr>nodes = AList.update child
              \<lparr>node_id = child, node_parent = parent, node_caps = caps,
               node_depth = node_depth pn + 1\<rparr> (nodes t),
           kids = AList.update child []
              (AList.update parent (kids_slot t parent @ [child]) (kids t))\<rparr>))"

text \<open>\<open>it->second.capabilities.erase(capability)\<close>\<close>

definition erase_cap :: "cap_tree \<Rightarrow> string \<Rightarrow> cap_node \<Rightarrow> string \<Rightarrow> cap_tree" where
  "erase_cap t n nd c = t\<lparr>nodes := AList.update n (nd\<lparr>node_caps := node_caps nd - {c}\<rparr>) (nodes t)\<rparr>"

fun revoke_rec :: "nat \<Rightarrow> cap_tree \<Rightarrow> string \<Rightarrow> string \<Rightarrow> nat \<Rightarrow> (cap_tree \<times> nat) option"
and revoke_list :: "nat \<Rightarrow> cap_tree \<Rightarrow> string list \<Rightarrow> string \<Rightarrow> nat \<Rightarrow> (cap_tree \<times> nat) option" where
  "revoke_rec 0 t n c count = None"
| "revoke_rec (Suc fuel) t n c count = (case node_at t n of
      None \<Rightarrow> Some (t, count)
    | Some nd \<Rightarrow>
        (let count' = (if c \<in> node_caps nd then Suc count else count);
             t' = erase_cap t n nd c
         in case kids_of t' n of
              None \<Rightarrow> Some (t', count')
            | Some cs \<Rightarrow> revoke_list fuel t' cs c count'))"
| "revoke_list fuel t [] c count = Some (t, count)"
| "revoke_list fuel t (x # xs) c count = (case revoke_rec fuel t x c count of
      None \<Rightarrow> None
    | Some (t', count') \<Rightarrow> revoke_list fuel t' xs c count')"

definition revoke :: "cap_tree \<Rightarrow> string \<Rightarrow> string \<Rightarrow> (cap_tree \<times> nat) option" where
  "revoke t n c = revoke_rec (Suc (length (nodes t))) t n c 0"

definition has_capability :: "cap_tree \<Rightarrow> string \<Rightarrow> string \<Rightarrow> bool" where
  "has_capability t n c = (case node_at t n of None \<Rightarrow> False | Some nd \<Rightarrow> c \<in> node_caps nd)"

definition capabilities_of :: "cap_tree \<Rightarrow> string \<Rightarrow> string set" where
  "capabilities_of t n = (case node_at t n of None \<Rightarrow> {} | Some nd \<Rightarrow> node_caps nd)"

definition depth_of :: "cap_tree \<Rightarrow> string \<Rightarrow> int" where
  "depth_of t n = (case node_at t n of Some nd \<Rightarrow> node_depth nd | None \<Rightarrow> -1)"

text \<open>The end of \<open>removeRecursive\<close>: unlink the node from its parent's list, erase it.\<close>

definition unlink_node :: "cap_tree \<Rightarrow> string \<Rightarrow> cap_tree" where
  "unlink_node t n =
    (let ks = (case node_at t n of
          None \<Rightarrow> kids t
        | Some nd \<Rightarrow>
            if node_parent nd = [] then kids t
            else (case kids_of t (node_parent nd) of
                None \<Rightarrow> kids t
              | Some sib \<Rightarrow> AList.update (node_parent nd) (filter (\<lambda>x. x \<noteq> n) sib) (kids t)))
     in \<lparr>nodes = AList.delete n (nodes t), kids = ks\<rparr>)"

fun remove_rec :: "nat \<Rightarrow> cap_tree \<Rightarrow> string \<Rightarrow> cap_tree option"
and remove_list :: "nat \<Rightarrow> cap_tree \<Rightarrow> string list \<Rightarrow> cap_tree option" where
  "remove_rec 0 t n = None"
| "remove_rec (Suc fuel) t n = (case kids_of t n of
      None \<Rightarrow> Some (unlink_node t n)
    | Some cs \<Rightarrow> (case remove_list fuel t cs of
          None \<Rightarrow> None
        | Some t' \<Rightarrow> Some (unlink_node (t'\<lparr>kids := AList.delete n (kids t')\<rparr>) n)))"
| "remove_list fuel t [] = Some t"
| "remove_list fuel t (x # xs) = (case remove_rec fuel t x of
      None \<Rightarrow> None
    | Some t' \<Rightarrow> remove_list fuel t' xs)"

definition remove_subtree :: "cap_tree \<Rightarrow> string \<Rightarrow> cap_tree option" where
  "remove_subtree t n = remove_rec (Suc (length (kids t))) t n"

definition validate_invariant :: "cap_tree \<Rightarrow> bool" where
  "validate_invariant t = list_all (\<lambda>(i, nd).
      if node_parent nd = [] then True
      else (case node_at t (node_parent nd) of
          None \<Rightarrow> False
        | Some pn \<Rightarrow> node_caps nd \<subseteq> node_caps pn)) (nodes t)"

definition tree_size :: "cap_tree \<Rightarrow> nat" where
  "tree_size t = length (nodes t)"

section \<open>The shape of a tree\<close>

text \<open>
  Everything about a node except its capabilities; the child edge between existing nodes;
  and the descendants of a node, the node itself included.
\<close>

definition meta :: "cap_tree \<Rightarrow> string \<Rightarrow> (string \<times> string \<times> int) option" where
  "meta t n = map_option (\<lambda>nd. (node_id nd, node_parent nd, node_depth nd)) (node_at t n)"

definition kid :: "cap_tree \<Rightarrow> string \<Rightarrow> string \<Rightarrow> bool" where
  "kid t a b \<longleftrightarrow> meta t a \<noteq> None \<and> meta t b \<noteq> None \<and> (\<exists>cs. kids_of t a = Some cs \<and> b \<in> set cs)"

definition reach :: "cap_tree \<Rightarrow> string \<Rightarrow> string \<Rightarrow> bool" where
  "reach t n x \<longleftrightarrow> meta t n \<noteq> None \<and> (kid t)\<^sup>*\<^sup>* n x"

definition same_shape :: "cap_tree \<Rightarrow> cap_tree \<Rightarrow> bool" where
  "same_shape t t' \<longleftrightarrow> kids t' = kids t \<and> meta t' = meta t"

definition keys_ok :: "cap_tree \<Rightarrow> bool" where
  "keys_ok t \<longleftrightarrow> distinct (map fst (nodes t)) \<and> distinct (map fst (kids t))"

text \<open>
  No node has the empty id; child lists exist exactly for the nodes; a node other than a
  root has an existing parent one level up; a child list holds exactly the nodes whose
  parent it belongs to.
\<close>

definition shape_ok :: "cap_tree \<Rightarrow> bool" where
  "shape_ok t \<longleftrightarrow>
     meta t [] = None \<and>
     (\<forall>n. (kids_of t n = None) = (meta t n = None)) \<and>
     (\<forall>n i p d. meta t n = Some (i, p, d) \<longrightarrow> p \<noteq> [] \<longrightarrow> (\<exists>i' p'. meta t p = Some (i', p', d - 1))) \<and>
     (\<forall>p cs x. kids_of t p = Some cs \<longrightarrow> (x \<in> set cs \<longleftrightarrow> p \<noteq> [] \<and> (\<exists>i d. meta t x = Some (i, p, d))))"

text \<open>The subset rule: a node holds nothing its parent does not hold.\<close>

definition caps_ok :: "cap_tree \<Rightarrow> bool" where
  "caps_ok t \<longleftrightarrow> (\<forall>n i p d. meta t n = Some (i, p, d) \<longrightarrow> p \<noteq> [] \<longrightarrow>
     capabilities_of t n \<subseteq> capabilities_of t p)"

definition wf_tree :: "cap_tree \<Rightarrow> bool" where
  "wf_tree t \<longleftrightarrow> keys_ok t \<and> shape_ok t \<and> caps_ok t"

lemmas alist_simps = update_conv' delete_conv'

lemma meta_None: "meta t n = None \<longleftrightarrow> node_at t n = None"
  by (simp add: meta_def)

lemma meta_SomeE:
  assumes "meta t n = Some (i, p, d)"
  obtains nd where "node_at t n = Some nd" "node_id nd = i" "node_parent nd = p" "node_depth nd = d"
  using assms by (auto simp: meta_def)

lemma node_at_meta: "node_at t n = Some nd \<Longrightarrow> meta t n = Some (node_id nd, node_parent nd, node_depth nd)"
  by (simp add: meta_def)

lemma shape_ok_empty_id: "shape_ok t \<Longrightarrow> meta t [] = None"
  by (simp add: shape_ok_def)

lemma shape_ok_kids_None: "shape_ok t \<Longrightarrow> (kids_of t n = None) = (meta t n = None)"
  by (simp add: shape_ok_def)

lemma shape_ok_parent:
  "shape_ok t \<Longrightarrow> meta t n = Some (i, p, d) \<Longrightarrow> p \<noteq> [] \<Longrightarrow> \<exists>i' p'. meta t p = Some (i', p', d - 1)"
  by (simp add: shape_ok_def)

lemma shape_ok_member:
  "shape_ok t \<Longrightarrow> kids_of t p = Some cs \<Longrightarrow> x \<in> set cs \<longleftrightarrow> p \<noteq> [] \<and> (\<exists>i d. meta t x = Some (i, p, d))"
  by (simp add: shape_ok_def)

lemma same_shape_refl [simp]: "same_shape t t"
  by (simp add: same_shape_def)

lemma same_shape_trans: "same_shape t t' \<Longrightarrow> same_shape t' t'' \<Longrightarrow> same_shape t t''"
  by (simp add: same_shape_def)

lemma same_shape_kid: "same_shape t t' \<Longrightarrow> kid t' = kid t"
  by (simp add: same_shape_def kid_def fun_eq_iff)

lemma same_shape_reach: "same_shape t t' \<Longrightarrow> reach t' = reach t"
  by (simp add: same_shape_kid reach_def fun_eq_iff) (simp add: same_shape_def)

lemma same_shape_ok: "same_shape t t' \<Longrightarrow> shape_ok t \<Longrightarrow> shape_ok t'"
  by (simp add: same_shape_def shape_ok_def)

lemma reach_unfold:
  "reach t n z \<longleftrightarrow> meta t n \<noteq> None \<and>
     (z = n \<or> (\<exists>cs y. kids_of t n = Some cs \<and> y \<in> set cs \<and> reach t y z))"
proof
  assume r: "reach t n z"
  then have st: "(kid t)\<^sup>*\<^sup>* n z" and ne: "meta t n \<noteq> None" by (auto simp: reach_def)
  from st show "meta t n \<noteq> None \<and>
      (z = n \<or> (\<exists>cs y. kids_of t n = Some cs \<and> y \<in> set cs \<and> reach t y z))"
    by (cases rule: converse_rtranclpE) (use ne in \<open>simp_all add: reach_def kid_def, blast\<close>)
next
  assume a: "meta t n \<noteq> None \<and>
      (z = n \<or> (\<exists>cs y. kids_of t n = Some cs \<and> y \<in> set cs \<and> reach t y z))"
  show "reach t n z"
  proof (cases "z = n")
    case True
    with a show ?thesis by (simp add: reach_def)
  next
    case False
    with a obtain cs y where y: "kids_of t n = Some cs" "y \<in> set cs" "reach t y z" by blast
    then have "kid t n y" using a by (simp add: kid_def reach_def)
    with y a show ?thesis
      by (simp add: reach_def converse_rtranclp_into_rtranclp)
  qed
qed

lemma reach_self: "meta t n \<noteq> None \<Longrightarrow> reach t n n"
  by (simp add: reach_def)

lemma reach_exists: "reach t n x \<Longrightarrow> meta t x \<noteq> None"
  unfolding reach_def by (auto elim: rtranclp.cases simp: kid_def)

lemma reach_trans_kid: "reach t n p \<Longrightarrow> kid t p x \<Longrightarrow> reach t n x"
  unfolding reach_def by (blast intro: rtranclp.rtrancl_into_rtrancl)

lemma kid_parent:
  assumes "shape_ok t"
  shows "kid t p x \<longleftrightarrow> p \<noteq> [] \<and> (\<exists>i d. meta t x = Some (i, p, d))"
proof
  assume "kid t p x"
  then obtain cs where "kids_of t p = Some cs" "x \<in> set cs" by (auto simp: kid_def)
  with shape_ok_member [OF assms] show "p \<noteq> [] \<and> (\<exists>i d. meta t x = Some (i, p, d))" by blast
next
  assume a: "p \<noteq> [] \<and> (\<exists>i d. meta t x = Some (i, p, d))"
  then have "meta t p \<noteq> None" using shape_ok_parent [OF assms] by blast
  moreover from this obtain cs where "kids_of t p = Some cs"
    using shape_ok_kids_None [OF assms, of p] by auto
  ultimately show "kid t p x" using a shape_ok_member [OF assms] by (auto simp: kid_def)
qed

lemma kids_of_kid: "shape_ok t \<Longrightarrow> kids_of t p = Some cs \<Longrightarrow> x \<in> set cs \<Longrightarrow> kid t p x"
  by (simp add: kid_parent shape_ok_member)

section \<open>Depth and the fuel of the walks\<close>

definition below :: "cap_tree \<Rightarrow> string \<Rightarrow> string set" where
  "below t n = {x. meta t x \<noteq> None \<and> depth_of t n \<le> depth_of t x}"

lemma depth_of_meta: "meta t n = Some (i, p, d) \<Longrightarrow> depth_of t n = d"
  by (auto simp: meta_def depth_of_def)

lemma depth_of_cong: "meta t n = meta t' n \<Longrightarrow> depth_of t n = depth_of t' n"
  by (cases "node_at t n"; cases "node_at t' n") (auto simp: meta_def depth_of_def)

lemma existing_eq: "{x. meta t x \<noteq> None} = fst ` set (nodes t)"
  by (auto simp: meta_None map_of_eq_None_iff)

lemma finite_existing: "finite {x. meta t x \<noteq> None}"
  by (simp only: existing_eq) simp

lemma finite_below [simp]: "finite (below t n)"
  by (rule finite_subset [OF _ finite_existing [of t]]) (auto simp: below_def)

lemma card_below_le: "card (below t n) \<le> length (nodes t)"
proof -
  have "below t n \<subseteq> set (map fst (nodes t))"
    by (auto simp: below_def existing_eq [symmetric])
  then show ?thesis
    using card_mono [of "set (map fst (nodes t))"] card_length [of "map fst (nodes t)"]
    by (metis List.finite_set le_trans length_map)
qed

lemma kid_depth: "shape_ok t \<Longrightarrow> kid t p x \<Longrightarrow> depth_of t x = depth_of t p + 1"
  using kid_parent shape_ok_parent depth_of_meta by fastforce

lemma reach_depth: "shape_ok t \<Longrightarrow> reach t n x \<Longrightarrow> depth_of t n \<le> depth_of t x"
proof -
  assume ok: "shape_ok t" and "reach t n x"
  then have "(kid t)\<^sup>*\<^sup>* n x" by (simp add: reach_def)
  then show ?thesis
    by (induction rule: rtranclp_induct) (use kid_depth [OF ok] in fastforce)+
qed

lemma card_below_kid:
  assumes "shape_ok t" "kid t p x"
  shows "card (below t x) < card (below t p)"
proof (rule psubset_card_mono)
  have "p \<in> below t p" "p \<notin> below t x"
    using assms kid_depth [OF assms] by (auto simp: below_def kid_def)
  moreover have "below t x \<subseteq> below t p"
    using kid_depth [OF assms] by (auto simp: below_def)
  ultimately show "below t x \<subset> below t p" by blast
qed simp

lemma card_below_pos: "meta t n \<noteq> None \<Longrightarrow> 0 < card (below t n)"
  using card_gt_0_iff [of "below t n"] finite_below [of t n] by (auto simp: below_def)

lemma same_shape_below: "same_shape t t' \<Longrightarrow> below t' n = below t n"
  using depth_of_cong [of t _ t'] by (auto simp: same_shape_def below_def)

section \<open>Cascading revocation\<close>

definition holders :: "cap_tree \<Rightarrow> string \<Rightarrow> string set" where
  "holders t c = {x. has_capability t x c}"

lemma has_capability_iff: "has_capability t n c \<longleftrightarrow> c \<in> capabilities_of t n"
  by (simp add: has_capability_def capabilities_of_def split: option.split)

lemma finite_holders [simp]: "finite (holders t c)"
  by (rule finite_subset [OF _ finite_existing [of t]])
    (auto simp: holders_def has_capability_def meta_def split: option.splits)

lemma erase_cap_node_at: "node_at (erase_cap t n nd c) x =
    (if x = n then Some (nd\<lparr>node_caps := node_caps nd - {c}\<rparr>) else node_at t x)"
  by (simp add: erase_cap_def update_conv')

lemma erase_cap_shape: "node_at t n = Some nd \<Longrightarrow> same_shape t (erase_cap t n nd c)"
  by (auto simp: same_shape_def meta_def erase_cap_node_at fun_eq_iff) (simp add: erase_cap_def)

lemma erase_cap_caps: "node_at t n = Some nd \<Longrightarrow>
    capabilities_of (erase_cap t n nd c) x = (if x = n then capabilities_of t x - {c} else capabilities_of t x)"
  by (simp add: capabilities_of_def erase_cap_node_at)

lemma erase_cap_holders: "node_at t n = Some nd \<Longrightarrow> holders (erase_cap t n nd c) c = holders t c - {n}"
  by (auto simp: holders_def has_capability_iff erase_cap_caps)

lemma erase_cap_keys: "keys_ok t \<Longrightarrow> keys_ok (erase_cap t n nd c)"
  by (simp add: keys_ok_def erase_cap_def distinct_update)

lemma holders_count:
  "node_at t n = Some nd \<Longrightarrow>
     (if c \<in> node_caps nd then Suc m else m) + card (holders t c - {n}) = m + card (holders t c)"
  using card_Suc_Diff1 [OF finite_holders, of n t c]
  by (cases "n \<in> holders t c") (simp_all add: holders_def has_capability_def)

text \<open>What a walk does when it returns, whatever the fuel it was given.\<close>

lemma revoke_rec_spec:
  "revoke_rec fuel t n c count = Some (t', count') \<Longrightarrow>
     same_shape t t' \<and> (keys_ok t \<longrightarrow> keys_ok t') \<and>
     (\<forall>x. capabilities_of t' x = (if reach t n x then capabilities_of t x - {c} else capabilities_of t x)) \<and>
     count' + card (holders t' c) = count + card (holders t c)"
  and revoke_list_spec:
  "revoke_list fuel t xs c count = Some (t', count') \<Longrightarrow>
     same_shape t t' \<and> (keys_ok t \<longrightarrow> keys_ok t') \<and>
     (\<forall>x. capabilities_of t' x =
        (if \<exists>y\<in>set xs. reach t y x then capabilities_of t x - {c} else capabilities_of t x)) \<and>
     count' + card (holders t' c) = count + card (holders t c)"
proof (induction fuel t n c count and fuel t xs c count arbitrary: t' count' and t' count'
    rule: revoke_rec_revoke_list.induct)
  case (2 fuel t n c count)
  show ?case
  proof (cases "node_at t n")
    case None
    with 2(2) show ?thesis by (auto simp: reach_def meta_None)
  next
    case nd: (Some nd)
    let ?e = "erase_cap t n nd c"
    let ?m = "if c \<in> node_caps nd then Suc count else count"
    have sh: "same_shape t ?e" and m: "meta t n \<noteq> None" using nd erase_cap_shape by (simp_all add: meta_None)
    have count: "?m + card (holders ?e c) = count + card (holders t c)"
      using holders_count [OF nd] erase_cap_holders [OF nd] by simp
    have ks: "kids_of ?e n = kids_of t n" by (simp add: erase_cap_def)
    show ?thesis
    proof (cases "kids_of t n")
      case None
      then have "reach t n = (=) n" using reach_unfold [of t n] m by (auto simp: fun_eq_iff)
      then show ?thesis
        using 2(2) nd None ks sh count erase_cap_keys erase_cap_caps [OF nd] by (auto simp: Let_def)
    next
      case (Some cs)
      have r: "revoke_list fuel ?e cs c ?m = Some (t', count')"
        using 2(2) nd Some ks by (simp add: Let_def)
      note IH = 2(1) [OF nd refl refl Some [folded ks] r]
      have "reach t n x \<longleftrightarrow> x = n \<or> (\<exists>y\<in>set cs. reach ?e y x)" for x
        using reach_unfold [of t n x] m Some same_shape_reach [OF sh] by auto
      with IH show ?thesis
        using sh count same_shape_trans erase_cap_keys erase_cap_caps [OF nd] by auto
    qed
  qed
next
  case (4 fuel t x xs c count)
  then obtain t1 c1 where r1: "revoke_rec fuel t x c count = Some (t1, c1)"
    and r2: "revoke_list fuel t1 xs c c1 = Some (t', count')"
    by (auto split: option.splits)
  note a = 4(1) [OF r1] and b = 4(2) [OF r1 refl r2]
  then show ?case
    using same_shape_trans same_shape_reach [of t t1] by auto
qed auto

text \<open>Fuel for the nodes at or below the start is enough, so the walk returns.\<close>

lemma revoke_rec_returns:
  "shape_ok t \<Longrightarrow> meta t n \<noteq> None \<Longrightarrow> card (below t n) \<le> fuel \<Longrightarrow>
     revoke_rec fuel t n c count \<noteq> None"
  and revoke_list_returns:
  "shape_ok t \<Longrightarrow> (\<forall>y\<in>set xs. meta t y \<noteq> None \<and> card (below t y) \<le> fuel) \<Longrightarrow>
     revoke_list fuel t xs c count \<noteq> None"
proof (induction fuel t n c count and fuel t xs c count rule: revoke_rec_revoke_list.induct)
  case (1 t n c count)
  then show ?case using card_below_pos [of t n] by simp
next
  case (2 fuel t n c count)
  then obtain nd where nd: "node_at t n = Some nd" by (auto simp: meta_None)
  let ?e = "erase_cap t n nd c"
  have sh: "same_shape t ?e" using erase_cap_shape [OF nd] .
  show ?case
  proof (cases "kids_of t n")
    case None
    with nd show ?thesis by (simp add: Let_def erase_cap_def)
  next
    case (Some cs)
    then have ks: "kids_of ?e n = Some cs" by (simp add: erase_cap_def)
    have "\<forall>y\<in>set cs. meta ?e y \<noteq> None \<and> card (below ?e y) \<le> fuel"
    proof
      fix y assume y: "y \<in> set cs"
      then have k: "kid t n y"
        by (rule kids_of_kid [OF 2(2) Some])
      then have "card (below t y) \<le> fuel" using card_below_kid [OF 2(2) k] 2(4) by linarith
      then show "meta ?e y \<noteq> None \<and> card (below ?e y) \<le> fuel"
        using k sh same_shape_below [OF sh] by (simp add: kid_def same_shape_def)
    qed
    then show ?thesis
      using 2(1) [OF nd refl refl ks same_shape_ok [OF sh 2(2)]] nd ks by (simp add: Let_def)
  qed
next
  case (4 fuel t x xs c count)
  have "revoke_rec fuel t x c count \<noteq> None" using 4(1) 4(3) 4(4) by (meson list.set_intros(1))
  then obtain t1 c1 where r1: "revoke_rec fuel t x c count = Some (t1, c1)" by auto
  then have sh: "same_shape t t1" using revoke_rec_spec by blast
  then have "\<forall>y\<in>set xs. meta t1 y \<noteq> None \<and> card (below t1 y) \<le> fuel"
    using 4(4) same_shape_below [OF sh] by (simp add: same_shape_def)
  then show ?case
    using 4(2) [OF r1 refl same_shape_ok [OF sh 4(3)]] r1 by simp
qed auto

lemma revoke_returns: "shape_ok t \<Longrightarrow> \<exists>t' k. revoke t n c = Some (t', k)"
proof -
  assume ok: "shape_ok t"
  have "revoke t n c \<noteq> None"
  proof (cases "meta t n = None")
    case True
    then show ?thesis by (simp add: revoke_def meta_None)
  next
    case False
    then show ?thesis
      using revoke_rec_returns [OF ok False, of "Suc (length (nodes t))"] card_below_le [of t n]
      by (simp add: revoke_def del: revoke_rec.simps)
  qed
  then show ?thesis by auto
qed

section \<open>Removing a subtree\<close>

lemma kids_of_missing: "shape_ok t \<Longrightarrow> meta t n = None \<Longrightarrow> kids_of t n = None"
  by (simp add: shape_ok_kids_None)

lemma unlink_missing:
  assumes "meta t n = None"
  shows "unlink_node t n = t"
proof -
  have "AList.delete n (nodes t) = nodes t"
    using assms by (simp add: meta_None map_of_eq_None_iff delete_idem)
  then show ?thesis using assms by (simp add: unlink_node_def meta_None)
qed

definition drop_leaf :: "cap_tree \<Rightarrow> string \<Rightarrow> cap_tree" where
  "drop_leaf s n = unlink_node (s\<lparr>kids := AList.delete n (kids s)\<rparr>) n"

lemma drop_leaf_node_at: "node_at (drop_leaf s n) x = (if x = n then None else node_at s x)"
  by (simp add: drop_leaf_def unlink_node_def Let_def delete_conv')

lemma drop_leaf_meta: "meta (drop_leaf s n) x = (if x = n then None else meta s x)"
  by (simp add: meta_def drop_leaf_node_at)

lemma drop_leaf_keys: "keys_ok s \<Longrightarrow> keys_ok (drop_leaf s n)"
  by (auto simp: keys_ok_def drop_leaf_def unlink_node_def Let_def distinct_update distinct_delete
      split: option.splits)

lemma drop_leaf_kids:
  assumes ok: "shape_ok s" and n: "meta s n \<noteq> None"
  shows "kids_of (drop_leaf s n) p = (if p = n then None else map_option (filter (\<lambda>x. x \<noteq> n)) (kids_of s p))"
proof -
  from n obtain nd where nd: "node_at s n = Some nd" by (auto simp: meta_None)
  note mt = node_at_meta [OF nd]
  have other: "filter (\<lambda>x. x \<noteq> n) cs = cs" if "kids_of s p = Some cs" "node_parent nd = [] \<or> node_parent nd \<noteq> p"
    for cs
  proof -
    have "n \<notin> set cs" using shape_ok_member [OF ok that(1), of n] mt that(2) by auto
    then show ?thesis by (metis (mono_tags) filter_True)
  qed
  have np: "node_parent nd \<noteq> n"
    using shape_ok_parent [OF ok mt] mt shape_ok_empty_id [OF ok] by (cases "node_parent nd = []") auto
  show ?thesis
  proof (cases "kids_of s p")
    case None
    then show ?thesis
      using nd np by (auto simp: drop_leaf_def unlink_node_def Let_def delete_conv' update_conv' split: option.splits)
  next
    case (Some cs)
    then show ?thesis
      using nd np other [OF Some]
      by (cases "node_parent nd = p") (auto simp: drop_leaf_def unlink_node_def Let_def delete_conv' update_conv' split: option.splits)
  qed
qed

lemma drop_leaf_shape:
  assumes ok: "shape_ok s" and n: "meta s n \<noteq> None" and leaf: "\<And>x. \<not> kid s n x"
  shows "shape_ok (drop_leaf s n)"
proof -
  have nopar: "meta s x \<noteq> Some (i, n, d)" for x i d
    using leaf [of x] kid_parent [OF ok, of n x] n shape_ok_empty_id [OF ok] by auto
  show ?thesis
    unfolding shape_ok_def
  proof (intro conjI allI impI)
    show "meta (drop_leaf s n) [] = None"
      using shape_ok_empty_id [OF ok] by (simp add: drop_leaf_meta)
    show "(kids_of (drop_leaf s n) x = None) = (meta (drop_leaf s n) x = None)" for x
      using shape_ok_kids_None [OF ok, of x] by (simp add: drop_leaf_kids [OF ok n] drop_leaf_meta)
    show "\<exists>i' p'. meta (drop_leaf s n) p = Some (i', p', d - 1)"
      if "meta (drop_leaf s n) x = Some (i, p, d)" "p \<noteq> []" for x i p d
      using that shape_ok_parent [OF ok] nopar by (auto simp: drop_leaf_meta split: if_splits)
    show "x \<in> set cs \<longleftrightarrow> p \<noteq> [] \<and> (\<exists>i d. meta (drop_leaf s n) x = Some (i, p, d))"
      if "kids_of (drop_leaf s n) p = Some cs" for p cs x
      using that shape_ok_member [OF ok, of p]
      by (auto simp: drop_leaf_meta drop_leaf_kids [OF ok n] split: if_splits)
  qed
qed

text \<open>A tree that keeps exactly the nodes outside a descendant-closed set.\<close>

definition pruned :: "cap_tree \<Rightarrow> (string \<Rightarrow> bool) \<Rightarrow> cap_tree \<Rightarrow> bool" where
  "pruned t gone t' \<longleftrightarrow> keys_ok t' \<and> shape_ok t' \<and>
     (\<forall>x. node_at t' x = (if gone x then None else node_at t x))"

lemma pruned_meta: "pruned t gone t' \<Longrightarrow> meta t' x = (if gone x then None else meta t x)"
  by (simp add: pruned_def meta_def)

lemma pruned_kid:
  assumes "shape_ok t" "pruned t gone t'"
  shows "kid t' a b \<longleftrightarrow> kid t a b \<and> \<not> gone b"
proof -
  have "shape_ok t'" using assms(2) by (simp add: pruned_def)
  then show ?thesis
    by (auto simp: kid_parent assms(1) pruned_meta [OF assms(2)])
qed

lemma pruned_reach:
  assumes ok: "shape_ok t" and pr: "pruned t gone t'"
    and closed: "\<And>a b. gone a \<Longrightarrow> kid t a b \<Longrightarrow> gone b" and z: "\<not> gone z"
  shows "reach t' y z \<longleftrightarrow> reach t y z"
proof
  have "(kid t)\<^sup>*\<^sup>* y z" if "(kid t')\<^sup>*\<^sup>* y z"
    by (rule mono_rtranclp [THEN mp, rotated, OF that]) (simp add: pruned_kid [OF ok pr])
  then show "reach t' y z \<Longrightarrow> reach t y z"
    using pruned_meta [OF pr, of y] by (auto simp: reach_def split: if_splits)
next
  assume r: "reach t y z"
  have "(kid t')\<^sup>*\<^sup>* y z \<and> \<not> gone y" if "(kid t)\<^sup>*\<^sup>* y z"
    using that
  proof (induction rule: converse_rtranclp_induct)
    case base
    then show ?case using z by simp
  next
    case (step a b)
    then show ?case
      using closed pruned_kid [OF ok pr, of a b] by (blast intro: converse_rtranclp_into_rtranclp)
  qed
  with r show "reach t' y z" using pruned_meta [OF pr, of y] by (simp add: reach_def)
qed

lemma pruned_below:
  assumes "pruned t gone t'" "meta t' y \<noteq> None"
  shows "card (below t' y) \<le> card (below t y)"
proof (rule card_mono)
  have "meta t' x = meta t x" if "meta t' x \<noteq> None" for x
    using that pruned_meta [OF assms(1), of x] by (auto split: if_splits)
  then show "below t' y \<subseteq> below t y"
    using depth_of_cong [of t' _ t] assms(2) by (auto simp: below_def)
qed simp

lemma pruned_trans:
  "pruned t g t' \<Longrightarrow> pruned t' g' t'' \<Longrightarrow> (\<And>x. gone x \<longleftrightarrow> g x \<or> g' x) \<Longrightarrow> pruned t gone t''"
  by (auto simp: pruned_def)

lemma remove_rec_missing:
  "shape_ok t \<Longrightarrow> meta t n = None \<Longrightarrow> remove_rec (Suc fuel) t n = Some t"
  by (simp add: kids_of_missing unlink_missing)

lemma pruned_refl: "keys_ok t \<Longrightarrow> shape_ok t \<Longrightarrow> (\<And>x. gone x \<Longrightarrow> meta t x = None) \<Longrightarrow> pruned t gone t"
  by (auto simp: pruned_def meta_None)

lemma drop_leaf_pruned:
  "keys_ok s \<Longrightarrow> shape_ok s \<Longrightarrow> meta s n \<noteq> None \<Longrightarrow> (\<And>x. \<not> kid s n x) \<Longrightarrow> pruned s ((=) n) (drop_leaf s n)"
  by (auto simp: pruned_def drop_leaf_keys drop_leaf_shape drop_leaf_node_at)

text \<open>The walk removes the descendants of its argument and nothing else.\<close>

lemma children_fuel:
  assumes ok: "shape_ok t" and cs: "kids_of t n = Some cs" and f: "card (below t n) \<le> Suc fuel"
  shows "\<forall>y\<in>set cs. 0 < fuel \<and> (card (below t y) \<le> fuel \<or> meta t y = None)"
proof
  fix y assume "y \<in> set cs"
  then have k: "kid t n y" by (rule kids_of_kid [OF ok cs])
  then have "card (below t y) < card (below t n)" "meta t y \<noteq> None"
    using card_below_kid [OF ok k] by (auto simp: kid_def)
  then show "0 < fuel \<and> (card (below t y) \<le> fuel \<or> meta t y = None)"
    using card_below_pos [of t y] f by linarith
qed

text \<open>Once the subtrees of the children are gone, the node is a leaf, and dropping it completes the removal.\<close>

lemma drop_after_children:
  assumes ok: "shape_ok t" and m: "meta t n \<noteq> None" and cs: "kids_of t n = Some cs"
    and pr: "pruned t (\<lambda>z. \<exists>y\<in>set cs. reach t y z) s"
  shows "pruned t (reach t n) (drop_leaf s n)"
proof -
  have "\<not> reach t y n" if "y \<in> set cs" for y
    using reach_depth [OF ok] kid_depth [OF ok kids_of_kid [OF ok cs that]] by fastforce
  then have "meta s n \<noteq> None" using m pruned_meta [OF pr, of n] by auto
  moreover have "\<not> kid s n x" for x
  proof
    assume "kid s n x"
    then have "kid t n x" "\<not> (\<exists>y\<in>set cs. reach t y x)"
      using pruned_kid [OF ok pr] by auto
    then show False using cs by (auto simp: kid_def reach_self)
  qed
  ultimately have "pruned s ((=) n) (drop_leaf s n)"
    using pr by (intro drop_leaf_pruned) (auto simp: pruned_def)
  with pr show ?thesis
    by (rule pruned_trans) (use reach_unfold [of t n] m cs in auto)
qed

lemma remove_rec_spec:
  "keys_ok t \<Longrightarrow> shape_ok t \<Longrightarrow> 0 < fuel \<Longrightarrow> card (below t n) \<le> fuel \<or> meta t n = None \<Longrightarrow>
     \<exists>t'. remove_rec fuel t n = Some t' \<and> pruned t (reach t n) t'"
  and remove_list_spec:
  "keys_ok t \<Longrightarrow> shape_ok t \<Longrightarrow> (\<forall>y\<in>set xs. 0 < fuel \<and> (card (below t y) \<le> fuel \<or> meta t y = None)) \<Longrightarrow>
     \<exists>t'. remove_list fuel t xs = Some t' \<and> pruned t (\<lambda>z. \<exists>y\<in>set xs. reach t y z) t'"
proof (induction fuel t n and fuel t xs rule: remove_rec_remove_list.induct)
  case (2 fuel t n)
  show ?case
  proof (cases "meta t n = None")
    case True
    then show ?thesis
      using remove_rec_missing [OF 2(3) True] 2 by (auto simp: reach_def intro!: pruned_refl)
  next
    case False
    then obtain cs where cs: "kids_of t n = Some cs" using shape_ok_kids_None [OF 2(3), of n] by auto
    have f: "card (below t n) \<le> Suc fuel" using 2(5) False by blast
    obtain s where s: "remove_list fuel t cs = Some s"
      and pr: "pruned t (\<lambda>z. \<exists>y\<in>set cs. reach t y z) s"
      using 2(1) [OF cs 2(2,3) children_fuel [OF 2(3) cs f]] by blast
    have "pruned t (reach t n) (drop_leaf s n)" using drop_after_children [OF 2(3) False cs pr] .
    then show ?thesis using cs s by (simp add: drop_leaf_def)
  qed
next
  case (3 fuel t)
  then show ?case by (auto intro: pruned_refl)
next
  case (4 fuel t x xs)
  then obtain t1 where t1: "remove_rec fuel t x = Some t1" and pr: "pruned t (reach t x) t1"
    by (meson list.set_intros(1))
  have "\<forall>y\<in>set xs. 0 < fuel \<and> (card (below t1 y) \<le> fuel \<or> meta t1 y = None)"
    using 4(5) pruned_below [OF pr] pruned_meta [OF pr] by (metis le_trans list.set_intros(2))
  then obtain t' where t': "remove_list fuel t1 xs = Some t'"
    and pr': "pruned t1 (\<lambda>z. \<exists>y\<in>set xs. reach t1 y z) t'"
    using 4(2) [OF t1] pr by (auto simp: pruned_def)
  have "reach t1 y z \<longleftrightarrow> reach t y z" if "\<not> reach t x z" for y z
    by (rule pruned_reach [OF 4(4) pr _ that]) (rule reach_trans_kid)
  moreover have "\<not> reach t1 y z" if "reach t x z" for y z
    using that reach_exists [of t1 y z] pruned_meta [OF pr, of z] by auto
  ultimately have "pruned t (\<lambda>z. \<exists>y\<in>set (x # xs). reach t y z) t'"
    by (intro pruned_trans [OF pr pr']) auto
  then show ?case using t1 t' by simp
qed simp

section \<open>Well-formedness is an invariant\<close>

lemma card_below_kids:
  assumes "shape_ok t"
  shows "card (below t n) \<le> length (kids t)"
proof -
  have "below t n \<subseteq> set (map fst (kids t))"
  proof
    fix x assume "x \<in> below t n"
    then have "kids_of t x \<noteq> None" using shape_ok_kids_None [OF assms, of x] by (simp add: below_def)
    then show "x \<in> set (map fst (kids t))" by (simp add: map_of_eq_None_iff)
  qed
  then show ?thesis
    using card_mono [of "set (map fst (kids t))"] card_length [of "map fst (kids t)"]
    by (metis List.finite_set le_trans length_map)
qed

lemma remove_subtree_spec:
  assumes "keys_ok t" "shape_ok t"
  shows "\<exists>t'. remove_subtree t n = Some t' \<and> pruned t (reach t n) t'"
  unfolding remove_subtree_def
  by (rule remove_rec_spec [OF assms]) (use card_below_kids [OF assms(2)] in \<open>auto intro: le_SucI\<close>)

lemma caps_okD: "caps_ok t \<Longrightarrow> meta t n = Some (i, p, d) \<Longrightarrow> p \<noteq> [] \<Longrightarrow>
    capabilities_of t n \<subseteq> capabilities_of t p"
  by (simp add: caps_ok_def)

lemma pruned_caps_ok:
  assumes ok: "caps_ok t" and pr: "pruned t gone t'"
  shows "caps_ok t'"
  unfolding caps_ok_def
proof (intro allI impI)
  fix n i p d assume m: "meta t' n = Some (i, p, d)" and p: "p \<noteq> []"
  then have mt: "meta t n = Some (i, p, d)" and gn: "\<not> gone n"
    using pruned_meta [OF pr, of n] by (auto split: if_splits)
  have "meta t' p \<noteq> None" using pr shape_ok_parent [OF _ m p] by (auto simp: pruned_def)
  then have "\<not> gone p" using pruned_meta [OF pr, of p] by auto
  with gn have "capabilities_of t' n = capabilities_of t n" "capabilities_of t' p = capabilities_of t p"
    using pr by (simp_all add: pruned_def capabilities_of_def)
  then show "capabilities_of t' n \<subseteq> capabilities_of t' p"
    using caps_okD [OF ok mt p] by simp
qed

lemma wf_init_root: "wf_tree (init_root t cs)"
  by (auto simp: wf_tree_def keys_ok_def shape_ok_def caps_ok_def init_root_def meta_def)

lemma revoke_spec: "revoke t n c = Some (t', k) \<Longrightarrow>
     same_shape t t' \<and> (keys_ok t \<longrightarrow> keys_ok t') \<and>
     (\<forall>x. capabilities_of t' x = (if reach t n x then capabilities_of t x - {c} else capabilities_of t x)) \<and>
     k + card (holders t' c) = card (holders t c)"
  unfolding revoke_def using revoke_rec_spec by fastforce

lemma wf_revoke:
  assumes wf: "wf_tree t" and r: "revoke t n c = Some (t', k)"
  shows "wf_tree t'"
proof -
  note sp = revoke_spec [OF r]
  have ok: "shape_ok t" using wf by (simp add: wf_tree_def)
  have "caps_ok t'"
    unfolding caps_ok_def
  proof (intro allI impI)
    fix x i p d assume m: "meta t' x = Some (i, p, d)" and p: "p \<noteq> []"
    then have mt: "meta t x = Some (i, p, d)" using sp by (simp add: same_shape_def)
    then have "kid t p x" using kid_parent [OF ok] p by blast
    then have "reach t n p \<Longrightarrow> reach t n x" by (rule reach_trans_kid [rotated])
    then show "capabilities_of t' x \<subseteq> capabilities_of t' p"
      using caps_okD [of t, OF _ mt p] wf sp by (auto simp: wf_tree_def)
  qed
  with sp wf show ?thesis using same_shape_ok [of t t'] by (simp add: wf_tree_def)
qed

lemma wf_remove_subtree: "wf_tree t \<Longrightarrow> remove_subtree t n = Some t' \<Longrightarrow> wf_tree t'"
  using remove_subtree_spec [of t n] pruned_caps_ok [of t "reach t n" t']
  by (auto simp: wf_tree_def pruned_def)

lemma delegate_True:
  assumes "delegate t p c caps = (True, t')"
  obtains pn where "node_at t p = Some pn" "node_at t c = None" "caps \<subseteq> node_caps pn"
    "t' = \<lparr>nodes = AList.update c \<lparr>node_id = c, node_parent = p, node_caps = caps, node_depth = node_depth pn + 1\<rparr> (nodes t),
           kids = AList.update c [] (AList.update p (kids_slot t p @ [c]) (kids t))\<rparr>"
  using assms by (auto simp: delegate_def split: option.splits if_splits)

lemma delegate_False: "delegate t p c caps = (False, t') \<Longrightarrow> t' = t"
  by (auto simp: delegate_def split: option.splits if_splits)

text \<open>What a successful delegation adds: one node, one child at the end of a list.\<close>

lemma delegate_views:
  assumes ok: "shape_ok t" and d: "delegate t p c caps = (True, t')"
  obtains i q d ps where "meta t p = Some (i, q, d)" "meta t c = None" "caps \<subseteq> capabilities_of t p" "kids_of t p = Some ps"
    "\<And>x. meta t' x = (if x = c then Some (c, p, d + 1) else meta t x)"
    "\<And>x. kids_of t' x = (if x = c then Some [] else if x = p then Some (ps @ [c]) else kids_of t x)"
    "\<And>x. capabilities_of t' x = (if x = c then caps else capabilities_of t x)"
    "keys_ok t \<Longrightarrow> keys_ok t'"
proof -
  from d obtain pn where pn: "node_at t p = Some pn" and cn: "node_at t c = None"
    and sub: "caps \<subseteq> node_caps pn"
    and t': "t' = \<lparr>nodes = AList.update c \<lparr>node_id = c, node_parent = p, node_caps = caps, node_depth = node_depth pn + 1\<rparr> (nodes t),
           kids = AList.update c [] (AList.update p (kids_slot t p @ [c]) (kids t))\<rparr>"
    by (rule delegate_True)
  have mp: "meta t p = Some (node_id pn, node_parent pn, node_depth pn)" by (rule node_at_meta [OF pn])
  obtain ps where ps: "kids_of t p = Some ps" using shape_ok_kids_None [OF ok, of p] mp by auto
  show thesis
  proof (rule that [OF mp _ _ ps])
    show "meta t c = None" using cn by (simp add: meta_None)
    show "caps \<subseteq> capabilities_of t p" using pn sub by (simp add: capabilities_of_def)
  qed (simp_all add: meta_def capabilities_of_def keys_ok_def t' update_conv' kids_slot_def ps distinct_update)
qed

lemma shape_ok_delegate:
  assumes ok: "shape_ok t" and d: "delegate t p c caps = (True, t')" and c: "c \<noteq> []"
  shows "shape_ok t'"
proof -
  obtain i0 q0 d0 ps where mp: "meta t p = Some (i0, q0, d0)" and cm: "meta t c = None" and ps: "kids_of t p = Some ps"
    and mt: "\<And>x. meta t' x = (if x = c then Some (c, p, d0 + 1) else meta t x)"
    and kt: "\<And>x. kids_of t' x = (if x = c then Some [] else if x = p then Some (ps @ [c]) else kids_of t x)"
    using delegate_views [OF ok d] by metis
  have p: "p \<noteq> []" "p \<noteq> c" using mp cm shape_ok_empty_id [OF ok] by auto
  have nc: "meta t x \<noteq> Some (i, c, d)" for x i d
    using shape_ok_parent [OF ok, of x i c d] cm c by auto
  show ?thesis
    unfolding shape_ok_def
  proof (intro conjI allI impI)
    show "meta t' [] = None" using shape_ok_empty_id [OF ok] c by (simp add: mt)
    show "(kids_of t' x = None) = (meta t' x = None)" for x
      using shape_ok_kids_None [OF ok, of x] mp by (simp add: mt kt)
    show "\<exists>i' p'. meta t' q = Some (i', p', d - 1)"
      if "meta t' x = Some (i, q, d)" "q \<noteq> []" for x i q d
      using that mp p shape_ok_parent [OF ok, of x i q d] nc [of x i d] by (auto simp: mt split: if_splits)
    show "x \<in> set cs \<longleftrightarrow> q \<noteq> [] \<and> (\<exists>i d. meta t' x = Some (i, q, d))"
      if "kids_of t' q = Some cs" for q cs x
      using that p c cm nc shape_ok_member [OF ok, of q] ps by (auto simp: mt kt split: if_splits)
  qed
qed

lemma caps_ok_delegate:
  assumes ok: "shape_ok t" and cok: "caps_ok t" and d: "delegate t p c caps = (True, t')" and c: "c \<noteq> []"
  shows "caps_ok t'"
proof -
  obtain i0 q0 d0 where mp: "meta t p = Some (i0, q0, d0)" and cm: "meta t c = None"
    and sub: "caps \<subseteq> capabilities_of t p"
    and mt: "\<And>x. meta t' x = (if x = c then Some (c, p, d0 + 1) else meta t x)"
    and ct: "\<And>x. capabilities_of t' x = (if x = c then caps else capabilities_of t x)"
    using delegate_views [OF ok d] by metis
  have p: "p \<noteq> c" using mp cm by auto
  have nc: "meta t x \<noteq> Some (i, c, d)" for x i d
    using shape_ok_parent [OF ok, of x i c d] cm c by auto
  show ?thesis
    unfolding caps_ok_def
  proof (intro allI impI)
    fix x i q d assume m: "meta t' x = Some (i, q, d)" and q: "q \<noteq> []"
    show "capabilities_of t' x \<subseteq> capabilities_of t' q"
    proof (cases "x = c")
      case True
      then have "q = p" using m by (simp add: mt)
      then show ?thesis using True p sub by (simp add: ct)
    next
      case False
      then have "meta t x = Some (i, q, d)" using m by (simp add: mt)
      then show ?thesis using False nc caps_okD [OF cok _ q] by (auto simp: ct)
    qed
  qed
qed

lemma wf_delegate_True:
  assumes wf: "wf_tree t" and d: "delegate t p c caps = (True, t')" and c: "c \<noteq> []"
  shows "wf_tree t'"
proof -
  from wf have ok: "shape_ok t" and cok: "caps_ok t" and k: "keys_ok t" by (auto simp: wf_tree_def)
  have "keys_ok t'" by (rule delegate_views [OF ok d]) (use k in blast)
  then show ?thesis
    using shape_ok_delegate [OF ok d c] caps_ok_delegate [OF ok cok d c] by (simp add: wf_tree_def)
qed

lemma wf_delegate: "wf_tree t \<Longrightarrow> c \<noteq> [] \<Longrightarrow> wf_tree (snd (delegate t p c caps))"
  using wf_delegate_True [of t p c caps] delegate_False [of t p c caps]
  by (cases "delegate t p c caps"; cases "fst (delegate t p c caps)") auto

lemma wf_validate:
  assumes "wf_tree t"
  shows "validate_invariant t"
  unfolding validate_invariant_def list_all_iff
proof clarify
  fix i nd assume "(i, nd) \<in> set (nodes t)"
  then have nd: "node_at t i = Some nd" using assms by (simp add: wf_tree_def keys_ok_def)
  note mt = node_at_meta [OF nd]
  show "if node_parent nd = [] then True
      else (case node_at t (node_parent nd) of None \<Rightarrow> False | Some pn \<Rightarrow> node_caps nd \<subseteq> node_caps pn)"
  proof (cases "node_parent nd = []")
    case False
    have "meta t (node_parent nd) \<noteq> None"
      using shape_ok_parent [OF _ mt False] assms by (auto simp: wf_tree_def)
    then obtain pn where "node_at t (node_parent nd) = Some pn" by (auto simp: meta_None)
    then show ?thesis
      using caps_okD [OF _ mt False] assms nd by (simp add: wf_tree_def capabilities_of_def)
  qed simp
qed

section \<open>Every tree the operations build\<close>

text \<open>
  The trees reachable from the root by the public operations, with the ids that were given to \<open>delegate\<close> as a
  child. The code accepts every id, also the empty one, although \<open>parent_id\<close> uses the empty string for "no parent".
\<close>

inductive built :: "string set \<Rightarrow> cap_tree \<Rightarrow> bool" where
  built_init: "built I (init_root t cs)"
| built_delegate: "built I t \<Longrightarrow> delegate t p c caps = (ok, t') \<Longrightarrow> built (insert c I) t'"
| built_revoke: "built I t \<Longrightarrow> revoke t n c = Some (t', k) \<Longrightarrow> built I t'"
| built_remove: "built I t \<Longrightarrow> remove_subtree t n = Some t' \<Longrightarrow> built I t'"

lemma built_delegate_snd: "built I t \<Longrightarrow> built (insert c I) (snd (delegate t p c caps))"
  by (rule built_delegate [where ok = "fst (delegate t p c caps)"]) simp_all

lemma built_wf: "built I t \<Longrightarrow> [] \<notin> I \<Longrightarrow> wf_tree t"
proof (induction rule: built.induct)
  case (built_delegate I t p c caps ok t')
  then show ?case using wf_delegate [of t c p caps] by auto
qed (auto intro: wf_init_root wf_revoke wf_remove_subtree)

lemma revoke_losers:
  assumes "revoke t n c = Some (t', k)"
  shows "k = card {x. reach t n x \<and> has_capability t x c}"
proof -
  let ?L = "{x. reach t n x \<and> has_capability t x c}"
  have h: "holders t' c = holders t c - ?L"
    using revoke_spec [OF assms] by (auto simp: holders_def has_capability_iff)
  have "?L \<subseteq> holders t c" by (auto simp: holders_def)
  then have "card (holders t c - ?L) + card ?L = card (holders t c)"
    using card_Diff_subset [of ?L "holders t c"] finite_subset [of ?L "holders t c"]
      card_mono [of "holders t c" ?L] by simp
  then show ?thesis using revoke_spec [OF assms] h by simp
qed

text \<open>
  C8. Cascading revocation on every tree that any sequence of calls builds in which no child was given the empty id:
  \<open>revoke\<close> returns, takes the
  capability from the node and from each of its descendants, leaves every other node's
  capabilities as they were, and counts exactly the nodes that held the capability.
\<close>

theorem revoke_cascades:
  assumes "built I t" "[] \<notin> I"
  shows "\<exists>t' k. revoke t n c = Some (t', k) \<and>
    (\<forall>x. capabilities_of t' x = (if reach t n x then capabilities_of t x - {c} else capabilities_of t x)) \<and>
    k = card {x. reach t n x \<and> has_capability t x c}"
proof -
  have "shape_ok t" using built_wf [OF assms] by (simp add: wf_tree_def)
  then obtain t' k where r: "revoke t n c = Some (t', k)" using revoke_returns by blast
  then show ?thesis using revoke_spec [OF r] revoke_losers [OF r] by blast
qed

definition sample_tree :: cap_tree where
  "sample_tree = snd (delegate (snd (delegate (init_root empty_tree {''a'', ''b''})
     ''daemon'' ''m1'' {''a'', ''b''})) ''m1'' ''m2'' {''a''})"

lemma built_sample: "built {''m2'', ''m1''} sample_tree" "[] \<notin> {''m2'', ''m1''}"
  unfolding sample_tree_def by (intro built_delegate_snd built_init) simp

theorem revoke_cascades_witness:
  "\<exists>t' k. revoke sample_tree ''m1'' ''a'' = Some (t', k) \<and>
    (\<forall>x. capabilities_of t' x = (if reach sample_tree ''m1'' x then capabilities_of sample_tree x - {''a''}
       else capabilities_of sample_tree x)) \<and>
    k = card {x. reach sample_tree ''m1'' x \<and> has_capability sample_tree x ''a''}"
  by (rule revoke_cascades [OF built_sample])

lemma reach_caps:
  assumes "wf_tree t" "reach t n x"
  shows "capabilities_of t x \<subseteq> capabilities_of t n"
proof -
  have "(kid t)\<^sup>*\<^sup>* n x" using assms(2) by (simp add: reach_def)
  then show ?thesis
  proof (induction rule: rtranclp_induct)
    case (step y z)
    then obtain i d where m: "y \<noteq> []" "meta t z = Some (i, y, d)"
      using kid_parent [of t y z] assms(1) by (auto simp: wf_tree_def)
    then show ?case using step.IH caps_okD [of t z i y d] assms(1) by (auto simp: wf_tree_def)
  qed simp
qed

text \<open>
  C7. The subset invariant: every tree built by any sequence of \<open>initRoot\<close>, \<open>delegate\<close>, \<open>revoke\<close> and
  \<open>removeSubtree\<close> in which no child was given the empty id passes \<open>validateInvariant\<close>, and a node never holds a capability that one
  of its ancestors lacks.
\<close>

theorem built_subset_invariant:
  assumes "built I t" "[] \<notin> I"
  shows "validate_invariant t \<and>
    (\<forall>n x. reach t n x \<longrightarrow> capabilities_of t x \<subseteq> capabilities_of t n)"
  using wf_validate reach_caps built_wf [OF assms] by blast

theorem built_subset_invariant_witness:
  "validate_invariant sample_tree \<and> capabilities_of sample_tree ''m2'' \<subseteq> capabilities_of sample_tree ''daemon''"
proof -
  have k: "kids_of sample_tree ''daemon'' = Some [''m1'']" "kids_of sample_tree ''m1'' = Some [''m2'']" by code_simp+
  have m: "meta sample_tree ''daemon'' \<noteq> None" "meta sample_tree ''m1'' \<noteq> None" "meta sample_tree ''m2'' \<noteq> None"
    by code_simp+
  have "kid sample_tree ''daemon'' ''m1''" "kid sample_tree ''m1'' ''m2''" using k m by (simp_all add: kid_def)
  then have "(kid sample_tree)\<^sup>*\<^sup>* ''daemon'' ''m2''" by (meson converse_rtranclp_into_rtranclp rtranclp.rtrancl_refl)
  then have "reach sample_tree ''daemon'' ''m2''" using m by (simp add: reach_def)
  then show ?thesis using built_subset_invariant [OF built_sample] by blast
qed

text \<open>
  C9. \<open>removeSubtree\<close> returns on every tree that any sequence of calls builds in which no child was given the empty
  id, and deletes the node with all
  its descendants and no other node; each remaining node keeps its record.
\<close>

theorem remove_subtree_exact:
  assumes "built I t" "[] \<notin> I"
  shows "\<exists>t'. remove_subtree t n = Some t' \<and> built I t' \<and>
    (\<forall>x. node_at t' x = (if reach t n x then None else node_at t x))"
  using remove_subtree_spec [of t n] built_wf [OF assms] built_remove [OF assms(1)]
  by (auto simp: wf_tree_def pruned_def)

theorem remove_subtree_exact_witness:
  "\<exists>t'. remove_subtree sample_tree ''m1'' = Some t' \<and> built {''m2'', ''m1''} t' \<and>
    (\<forall>x. node_at t' x = (if reach sample_tree ''m1'' x then None else node_at sample_tree x))"
  by (rule remove_subtree_exact [OF built_sample])

text \<open>
  With an empty child id the invariants above are lost: a child of the node named by the
  empty string looks like a root, so removing it leaves its entry in the child list, and a
  later node of the same id under another parent loses capabilities when the node with the
  empty id is revoked.
\<close>

definition empty_id_tree :: cap_tree where
  "empty_id_tree =
    (let t1 = snd (delegate (init_root empty_tree {''a''}) ''daemon'' [] {''a''});
         t2 = snd (delegate t1 [] ''b'' {''a''});
         t3 = the (remove_subtree t2 ''b'')
     in snd (delegate t3 ''daemon'' ''b'' {''a''}))"

lemma empty_id_stale_child:
  "map_option (\<lambda>nd. node_parent nd) (node_at empty_id_tree ''b'') = Some ''daemon'' \<and>
   has_capability empty_id_tree ''b'' ''a'' \<and>
   \<not> has_capability (fst (the (revoke empty_id_tree [] ''a''))) ''b'' ''a''"
  by code_simp

end
