(* ===== verification/ModuleBus.thy ===== *)
theory ModuleBus
  imports Prelude
begin

text \<open>
  The inter-module message bus (daemon/src/ipc/module_bus.cpp): topic subscriptions, one
  queue per module, the per-sender rate limiter with its 64-bit millisecond clock, sequence
  numbers and statistics. \<open>send\<close> reads the clock twice (in \<open>checkRateLimit\<close> and for the
  time stamp); both readings are arguments.
\<close>

section \<open>Data\<close>

record module_message =
  sender_id :: string
  recipient_id :: string
  topic :: string
  payload :: string
  timestamp_ms :: u64
  sequence :: u64

record bus_stats =
  total_sent :: u64
  total_delivered :: u64
  total_rejected :: u64
  total_rate_limited :: u64

record module_bus =
  queues :: "string \<rightharpoonup> module_message list"
  subscriptions :: "string \<rightharpoonup> string list"
  rate_limits :: "string \<rightharpoonup> u64 \<times> u32"
  sequences :: "string \<rightharpoonup> u64"
  bstats :: bus_stats

definition empty_bus :: module_bus where
  "empty_bus = \<lparr>queues = Map.empty, subscriptions = Map.empty, rate_limits = Map.empty,
     sequences = Map.empty, bstats = \<lparr>total_sent = 0, total_delivered = 0, total_rejected = 0,
     total_rate_limited = 0\<rparr>\<rparr>"

definition max_payload_bytes :: nat where
  "max_payload_bytes = 64 * 1024"

definition max_messages_per_sec :: u32 where
  "max_messages_per_sec = 100"

text \<open>\<open>map[key]\<close> on an absent key inserts the value-initialised element.\<close>

definition slot :: "'v \<Rightarrow> ('k \<rightharpoonup> 'v) \<Rightarrow> 'k \<Rightarrow> 'v" where
  "slot d m k = (case m k of None \<Rightarrow> d | Some v \<Rightarrow> v)"

lemma slot_upd [simp]: "slot d (m(k \<mapsto> v)) k' = (if k' = k then v else slot d m k')"
  by (simp add: slot_def)

lemma slot_empty [simp]: "slot d Map.empty k = d"
  by (simp add: slot_def)

interpretation slots: keyed_store "slot d" "\<lambda>m k v. m(k \<mapsto> v)"
  by unfold_locales simp

section \<open>Operations\<close>

definition check_rate_limit :: "u64 \<Rightarrow> module_bus \<Rightarrow> string \<Rightarrow> bool \<times> module_bus" where
  "check_rate_limit now b m =
    (let (window_start, count) = slot (0, 0) (rate_limits b) m;
         put = (\<lambda>e. b\<lparr>rate_limits := (rate_limits b)(m \<mapsto> e)\<rparr>)
     in if now - window_start \<ge> 1000 then (True, put (now, 1))
        else if count \<ge> max_messages_per_sec then (False, put (window_start, count))
        else (True, put (window_start, count + 1)))"

definition inc_rejected :: "module_bus \<Rightarrow> module_bus" where
  "inc_rejected b = b\<lparr>bstats := (bstats b)\<lparr>total_rejected := total_rejected (bstats b) + 1\<rparr>\<rparr>"

definition inc_sent :: "module_bus \<Rightarrow> module_bus" where
  "inc_sent b = b\<lparr>bstats := (bstats b)\<lparr>total_sent := total_sent (bstats b) + 1\<rparr>\<rparr>"

definition inc_rate_limited :: "module_bus \<Rightarrow> module_bus" where
  "inc_rate_limited b =
    b\<lparr>bstats := (bstats b)\<lparr>total_rate_limited := total_rate_limited (bstats b) + 1\<rparr>\<rparr>"

text \<open>\<open>queues_[id].push(stamped); stats_.total_delivered++;\<close>\<close>

definition push_message :: "module_message \<Rightarrow> string \<Rightarrow> module_bus \<Rightarrow> module_bus" where
  "push_message msg to b =
    b\<lparr>queues := (queues b)(to \<mapsto> slot [] (queues b) to @ [msg]),
      bstats := (bstats b)\<lparr>total_delivered := total_delivered (bstats b) + 1\<rparr>\<rparr>"

text \<open>The broadcast loop over the subscribers, which skips the sender.\<close>

fun broadcast :: "module_message \<Rightarrow> string \<Rightarrow> string list \<Rightarrow> module_bus \<Rightarrow> module_bus" where
  "broadcast msg sender [] b = b"
| "broadcast msg sender (sub # subs) b =
     broadcast msg sender subs (if sub = sender then b else push_message msg sub b)"

text \<open>\<open>++sequences_[sender]\<close> and the stamped copy of the message.\<close>

definition next_sequence :: "module_bus \<Rightarrow> string \<Rightarrow> u64" where
  "next_sequence b m = slot 0 (sequences b) m + 1"

definition stamp :: "u64 \<Rightarrow> module_bus \<Rightarrow> module_message \<Rightarrow> module_message" where
  "stamp now b msg = msg\<lparr>sequence := next_sequence b (sender_id msg), timestamp_ms := now\<rparr>"

text \<open>Everything \<open>send\<close> does once the rate limiter has let the message pass.\<close>

definition deliver :: "u64 \<Rightarrow> module_message \<Rightarrow> bool \<Rightarrow> bool \<Rightarrow> module_bus \<Rightarrow> bool \<times> module_bus" where
  "deliver now msg recipient_has_token recipient_subscribed b =
    (let stamped = stamp now b msg;
         b2 = b\<lparr>sequences := (sequences b)(sender_id msg \<mapsto> next_sequence b (sender_id msg))\<rparr>
     in if recipient_id msg = [] then
          (case subscriptions b2 (topic msg) of
             None \<Rightarrow> (False, inc_rejected b2)
           | Some subs \<Rightarrow>
               if subs = [] then (False, inc_rejected b2)
               else (True, broadcast stamped (sender_id msg) subs b2))
        else if \<not> recipient_has_token then (False, inc_rejected b2)
        else if \<not> recipient_subscribed then (False, inc_rejected b2)
        else (True, push_message stamped (recipient_id msg) b2))"

definition send :: "u64 \<Rightarrow> u64 \<Rightarrow> module_message \<Rightarrow> bool \<Rightarrow> bool \<Rightarrow> bool \<Rightarrow> module_bus \<Rightarrow> bool \<times> module_bus" where
  "send now1 now2 msg sender_has_token recipient_has_token recipient_subscribed b0 =
    (let b = inc_sent b0
     in if length (payload msg) > max_payload_bytes then (False, inc_rejected b)
        else if \<not> sender_has_token then (False, inc_rejected b)
        else (let rl = check_rate_limit now1 b (sender_id msg)
          in if \<not> fst rl then (False, inc_rate_limited (snd rl))
             else deliver now2 msg recipient_has_token recipient_subscribed (snd rl)))"

text \<open>\<open>poll\<close> pops at most \<open>maxMessages\<close> from the front of an existing queue.\<close>

definition poll :: "string \<Rightarrow> nat \<Rightarrow> module_bus \<Rightarrow> module_message list \<times> module_bus" where
  "poll m max_messages b = (case queues b m of
      None \<Rightarrow> ([], b)
    | Some q \<Rightarrow> (take max_messages q, b\<lparr>queues := (queues b)(m \<mapsto> drop max_messages q)\<rparr>))"

definition subscribe :: "string \<Rightarrow> string \<Rightarrow> module_bus \<Rightarrow> module_bus" where
  "subscribe m tp b =
    (let subs = slot [] (subscriptions b) tp
     in if m \<notin> set subs then b\<lparr>subscriptions := (subscriptions b)(tp \<mapsto> subs @ [m])\<rparr>
        else b\<lparr>subscriptions := (subscriptions b)(tp \<mapsto> subs)\<rparr>)"

definition unsubscribe :: "string \<Rightarrow> string \<Rightarrow> module_bus \<Rightarrow> module_bus" where
  "unsubscribe m tp b = (case subscriptions b tp of
      None \<Rightarrow> b
    | Some subs \<Rightarrow> b\<lparr>subscriptions := (subscriptions b)(tp \<mapsto> filter (\<lambda>x. x \<noteq> m) subs)\<rparr>)"

text \<open>A history of calls on one bus (every call holds the mutex for its whole body).\<close>

datatype bus_op =
    Send u64 u64 module_message bool bool bool
  | Poll string nat
  | Subscribe string string
  | Unsubscribe string string

datatype bus_result = Sent bool | Polled "module_message list" | Done

fun bus_step :: "bus_op \<Rightarrow> module_bus \<Rightarrow> bus_result \<times> module_bus" where
  "bus_step (Send n1 n2 msg s r sub) b = apfst Sent (send n1 n2 msg s r sub b)"
| "bus_step (Poll m k) b = apfst Polled (poll m k b)"
| "bus_step (Subscribe m tp) b = (Done, subscribe m tp b)"
| "bus_step (Unsubscribe m tp) b = (Done, unsubscribe m tp b)"

fun bus_run :: "bus_op list \<Rightarrow> module_bus \<Rightarrow> bus_result list \<times> module_bus" where
  "bus_run [] b = ([], b)"
| "bus_run (op # ops) b =
     (let s = bus_step op b in apfst (\<lambda>rs. fst s # rs) (bus_run ops (snd s)))"

section \<open>What an operation leaves alone\<close>

lemma inc_frame [frame_simps]:
  "queues (inc_sent b) = queues b" "queues (inc_rejected b) = queues b"
  "queues (inc_rate_limited b) = queues b"
  "subscriptions (inc_sent b) = subscriptions b" "subscriptions (inc_rejected b) = subscriptions b"
  "subscriptions (inc_rate_limited b) = subscriptions b"
  "rate_limits (inc_sent b) = rate_limits b" "rate_limits (inc_rejected b) = rate_limits b"
  "rate_limits (inc_rate_limited b) = rate_limits b"
  "sequences (inc_sent b) = sequences b" "sequences (inc_rejected b) = sequences b"
  "sequences (inc_rate_limited b) = sequences b"
  by (simp_all add: inc_sent_def inc_rejected_def inc_rate_limited_def)

lemma push_frame [frame_simps]:
  "subscriptions (push_message msg to b) = subscriptions b"
  "rate_limits (push_message msg to b) = rate_limits b"
  "sequences (push_message msg to b) = sequences b"
  by (simp_all add: push_message_def)

lemma broadcast_frame [frame_simps]:
  "subscriptions (broadcast msg s subs b) = subscriptions b"
  "rate_limits (broadcast msg s subs b) = rate_limits b"
  "sequences (broadcast msg s subs b) = sequences b"
  by (induction subs arbitrary: b) (simp_all add: push_frame)

lemma deliver_frame [frame_simps]:
  "subscriptions (snd (deliver now msg r sub b)) = subscriptions b"
  "rate_limits (snd (deliver now msg r sub b)) = rate_limits b"
  by (simp_all add: deliver_def Let_def frame_simps split: option.split)

lemma check_rate_frame [frame_simps]:
  "queues (snd (check_rate_limit now b m)) = queues b"
  "subscriptions (snd (check_rate_limit now b m)) = subscriptions b"
  "sequences (snd (check_rate_limit now b m)) = sequences b"
  "bstats (snd (check_rate_limit now b m)) = bstats b"
  "m' \<noteq> m \<Longrightarrow> rate_limits (snd (check_rate_limit now b m)) m' = rate_limits b m'"
  by (auto simp: check_rate_limit_def Let_def split: prod.split)

lemma send_subscriptions [frame_simps]: "subscriptions (snd (send n1 n2 msg s r sub b)) = subscriptions b"
  by (simp add: send_def Let_def frame_simps)

text \<open>The subscribers of a topic are listed once each.\<close>

definition subs_distinct :: "module_bus \<Rightarrow> bool" where
  "subs_distinct b \<longleftrightarrow> (\<forall>tp. distinct (slot [] (subscriptions b) tp))"

lemma subs_distinct_empty: "subs_distinct empty_bus"
  by (simp add: subs_distinct_def empty_bus_def)

lemma subs_distinct_step: "subs_distinct b \<Longrightarrow> subs_distinct (snd (bus_step op b))"
proof (cases op)
  case (Send n1 n2 msg s r sub)
  assume "subs_distinct b"
  then show ?thesis
    using send_subscriptions [of n1 n2 msg s r sub b]
    by (simp add: Send subs_distinct_def)
next
  case (Unsubscribe m tp)
  assume "subs_distinct b"
  then have "subscriptions b t = Some xs \<Longrightarrow> distinct xs" for t xs
    unfolding subs_distinct_def slot_def by (metis option.simps(5))
  then show ?thesis
    by (auto simp: Unsubscribe unsubscribe_def subs_distinct_def slot_def split: option.split)
qed (auto simp: subs_distinct_def poll_def subscribe_def Let_def split: option.split)

section \<open>Queues are FIFO\<close>

definition inbox :: "module_bus \<Rightarrow> string \<Rightarrow> module_message list" where
  "inbox b m = slot [] (queues b) m"

text \<open>Who receives a message: the recipient, or for a broadcast the other subscribers.\<close>

definition addressed :: "module_bus \<Rightarrow> module_message \<Rightarrow> string \<Rightarrow> bool" where
  "addressed b msg m \<longleftrightarrow>
    (if recipient_id msg = [] then m \<in> set (slot [] (subscriptions b) (topic msg)) \<and> m \<noteq> sender_id msg
     else m = recipient_id msg)"

lemma inbox_frame [frame_simps]:
  "inbox (inc_sent b) m = inbox b m" "inbox (inc_rejected b) m = inbox b m"
  "inbox (inc_rate_limited b) m = inbox b m" "inbox (snd (check_rate_limit now b k)) m = inbox b m"
  "inbox (b\<lparr>sequences := sq\<rparr>) m = inbox b m"
  by (simp_all add: inbox_def frame_simps)

lemma inbox_push: "inbox (push_message msg to b) m = inbox b m @ (if m = to then [msg] else [])"
  by (simp add: inbox_def push_message_def)

lemma inbox_broadcast:
  "distinct subs \<Longrightarrow> inbox (broadcast msg s subs b) m =
     inbox b m @ (if m \<in> set subs \<and> m \<noteq> s then [msg] else [])"
  by (induction subs arbitrary: b) (auto simp: inbox_push)

lemma inbox_deliver:
  assumes "subs_distinct b"
  shows "inbox (snd (deliver now msg r sub b)) m =
    inbox b m @ (if fst (deliver now msg r sub b) \<and> addressed b msg m then [stamp now b msg] else [])"
proof (cases "recipient_id msg = []")
  case True
  show ?thesis
  proof (cases "subscriptions b (topic msg)")
    case None
    with True show ?thesis by (simp add: deliver_def Let_def frame_simps)
  next
    case (Some subs)
    then have "distinct subs" using assms unfolding subs_distinct_def slot_def by (metis option.simps(5))
    with True Some show ?thesis
      by (simp add: deliver_def Let_def frame_simps addressed_def slot_def inbox_broadcast)
  qed
next
  case False
  then show ?thesis by (simp add: deliver_def Let_def frame_simps addressed_def inbox_push)
qed

lemma rate_transparent:
  "stamp now (snd (check_rate_limit n (inc_sent b) k)) msg = stamp now b msg"
  "addressed (snd (check_rate_limit n (inc_sent b) k)) msg = addressed b msg"
  "subs_distinct (snd (check_rate_limit n (inc_sent b) k)) = subs_distinct b"
  by (simp_all add: stamp_def next_sequence_def addressed_def subs_distinct_def frame_simps fun_eq_iff)

lemma inbox_send:
  "subs_distinct b \<Longrightarrow> inbox (snd (send n1 n2 msg s r sub b)) m =
     inbox b m @ (if fst (send n1 n2 msg s r sub b) \<and> addressed b msg m then [stamp n2 b msg] else [])"
  by (simp add: send_def Let_def frame_simps inbox_deliver rate_transparent)

lemma inbox_poll:
  "fst (poll m k b) @ inbox (snd (poll m k b)) m = inbox b m"
  "m' \<noteq> m \<Longrightarrow> inbox (snd (poll m k b)) m' = inbox b m'"
  by (simp_all add: poll_def inbox_def slot_def split: option.split)

lemma poll_bound: "length (fst (poll m k b)) \<le> k"
  by (simp add: poll_def split: option.split)

text \<open>What the calls of a history hand to module \<open>m\<close>, and what its polls have returned.\<close>

fun handed_to :: "string \<Rightarrow> bus_op list \<Rightarrow> module_bus \<Rightarrow> module_message list" where
  "handed_to m [] b = []"
| "handed_to m (Send n1 n2 msg s r sub # ops) b =
     (if fst (send n1 n2 msg s r sub b) \<and> addressed b msg m then [stamp n2 b msg] else []) @
     handed_to m ops (snd (send n1 n2 msg s r sub b))"
| "handed_to m (op # ops) b = handed_to m ops (snd (bus_step op b))"

fun polled_by :: "string \<Rightarrow> bus_op list \<Rightarrow> bus_result list \<Rightarrow> module_message list" where
  "polled_by m (Poll m' k # ops) (Polled ms # rs) = (if m' = m then ms else []) @ polled_by m ops rs"
| "polled_by m (op # ops) (r # rs) = polled_by m ops rs"
| "polled_by m _ _ = []"

lemma fifo_run:
  "subs_distinct b \<Longrightarrow>
     inbox b m @ handed_to m ops b = polled_by m ops (fst (bus_run ops b)) @ inbox (snd (bus_run ops b)) m"
proof (induction ops arbitrary: b)
  case (Cons op ops)
  have d: "subs_distinct (snd (bus_step op b))" using Cons.prems by (rule subs_distinct_step)
  note IH = Cons.IH [OF d]
  show ?case
  proof (cases op)
    case (Send n1 n2 msg s r sub)
    then show ?thesis using IH inbox_send [OF Cons.prems] by (simp add: Let_def)
  next
    case (Poll m' k)
    have "inbox b m = (if m' = m then fst (poll m' k b) else []) @ inbox (snd (poll m' k b)) m"
      using inbox_poll(1) [of m' k b] inbox_poll(2) [of m m' k b] by auto
    then show ?thesis using IH by (simp add: Poll Let_def)
  next
    case (Subscribe m' tp)
    then show ?thesis using IH by (simp add: Let_def subscribe_def inbox_def split: if_splits)
  next
    case (Unsubscribe m' tp)
    then show ?thesis
      using IH by (cases "subscriptions b tp") (simp_all add: Let_def unsubscribe_def inbox_def)
  qed
qed simp

text \<open>
  C32. No message is lost, duplicated or reordered: after any history of sends, polls,
  subscriptions and unsubscriptions on a fresh bus, what a module has polled followed by
  what waits in its queue is exactly the sequence of accepted messages addressed to it
  (directly, or broadcast on a topic it subscribes to and did not send itself), each as it
  was stamped when it was sent.
\<close>

theorem bus_fifo:
  "polled_by m ops (fst (bus_run ops empty_bus)) @ inbox (snd (bus_run ops empty_bus)) m =
   handed_to m ops empty_bus"
  using fifo_run [OF subs_distinct_empty, of m ops] by (simp add: inbox_def empty_bus_def)

section \<open>The rate limiter\<close>

text \<open>The number of messages of \<open>m\<close> a history gets accepted.\<close>

fun accepted_from :: "string \<Rightarrow> bus_op list \<Rightarrow> module_bus \<Rightarrow> nat" where
  "accepted_from m [] b = 0"
| "accepted_from m (Send n1 n2 msg s r sub # ops) b =
     (if sender_id msg = m \<and> fst (send n1 n2 msg s r sub b) then 1 else 0) +
     accepted_from m ops (snd (send n1 n2 msg s r sub b))"
| "accepted_from m (op # ops) b = accepted_from m ops (snd (bus_step op b))"

text \<open>The clock readings of the sends of \<open>m\<close>.\<close>

fun clock_of :: "string \<Rightarrow> bus_op list \<Rightarrow> nat list" where
  "clock_of m [] = []"
| "clock_of m (Send n1 n2 msg s r sub # ops) =
     (if sender_id msg = m then [unat n1] else []) @ clock_of m ops"
| "clock_of m (op # ops) = clock_of m ops"

definition limiter :: "module_bus \<Rightarrow> string \<Rightarrow> u64 \<times> u32" where
  "limiter b m = slot (0, 0) (rate_limits b) m"

text \<open>One reading of the clock, as a function on the limiter entry alone.\<close>

definition tick :: "u64 \<Rightarrow> u64 \<times> u32 \<Rightarrow> bool \<times> (u64 \<times> u32)" where
  "tick now e = (if now - fst e \<ge> 1000 then (True, (now, 1))
     else if snd e \<ge> max_messages_per_sec then (False, e) else (True, (fst e, snd e + 1)))"

lemma check_rate_tick:
  "fst (check_rate_limit now b m) = fst (tick now (limiter b m))"
  "limiter (snd (check_rate_limit now b m)) k = (if k = m then snd (tick now (limiter b m)) else limiter b k)"
  by (auto simp: check_rate_limit_def tick_def limiter_def Let_def split: prod.split)

lemma limiter_frame [frame_simps]:
  "limiter (inc_sent b) m = limiter b m" "limiter (inc_rejected b) m = limiter b m"
  "limiter (inc_rate_limited b) m = limiter b m"
  "limiter (snd (deliver now msg r sub b)) m = limiter b m"
  by (simp_all add: limiter_def frame_simps)

lemma limiter_send:
  "limiter (snd (send n1 n2 msg s r sub b)) m = limiter b m \<and> \<not> (sender_id msg = m \<and> fst (send n1 n2 msg s r sub b)) \<or>
   sender_id msg = m \<and> limiter (snd (send n1 n2 msg s r sub b)) m = snd (tick n1 (limiter b m)) \<and>
     (fst (send n1 n2 msg s r sub b) \<longrightarrow> fst (tick n1 (limiter b m)))"
  by (auto simp: send_def Let_def frame_simps check_rate_tick)

lemma limiter_step_other [frame_simps]:
  "limiter (snd (poll k n b)) m = limiter b m"
  "limiter (subscribe k tp b) m = limiter b m"
  "limiter (unsubscribe k tp b) m = limiter b m"
  by (simp_all add: limiter_def poll_def subscribe_def unsubscribe_def Let_def split: option.split)

definition limiter_ok :: "module_bus \<Rightarrow> bool" where
  "limiter_ok b \<longleftrightarrow> (\<forall>m. unat (snd (limiter b m)) \<le> 100)"

lemma unat_succ_count:
  assumes "\<not> (c::u32) \<ge> max_messages_per_sec"
  shows "unat (c + 1) = Suc (unat c) \<and> unat c < 100"
proof -
  have "unat c < 100" using assms by (simp add: max_messages_per_sec_def word_le_nat_alt)
  then show ?thesis by (simp add: unat_word_ariths)
qed

lemma tick_count: "unat (snd e) \<le> 100 \<Longrightarrow> unat (snd (snd (tick now e))) \<le> 100"
  using unat_succ_count [of "snd e"] by (auto simp: tick_def)

lemma limiter_ok_step: "limiter_ok b \<Longrightarrow> limiter_ok (snd (bus_step op b))"
proof (cases op)
  case (Send n1 n2 msg s r sub)
  assume ok: "limiter_ok b"
  have "unat (snd (limiter (snd (send n1 n2 msg s r sub b)) m)) \<le> 100" for m
  proof -
    have "unat (snd (limiter b m)) \<le> 100" using ok by (simp add: limiter_ok_def)
    then show ?thesis
      using limiter_send [of n1 n2 msg s r sub b m] tick_count [of "limiter b m" n1] by auto
  qed
  then show ?thesis by (simp add: limiter_ok_def Send)
qed (simp_all add: limiter_ok_def frame_simps)

lemma bus_run_state: "snd (bus_run ops b) = foldl (\<lambda>b op. snd (bus_step op b)) b ops"
  by (induction ops arbitrary: b) (simp_all add: Let_def)

interpretation bus: machine "\<lambda>b op. snd (bus_step op b)" "\<lambda>_. True" "\<lambda>b. subs_distinct b \<and> limiter_ok b"
  by unfold_locales (simp add: subs_distinct_step limiter_ok_step)

lemma limiter_ok_empty: "limiter_ok empty_bus"
  by (simp add: limiter_ok_def limiter_def empty_bus_def)

text \<open>Inside a window that started in the interval the entry only counts up to the limit.\<close>

lemma tick_in_window:
  assumes "unat w0 \<le> unat now" "unat now < unat w0 + 1000"
  shows "tick now (w0, c) =
    (if c \<ge> max_messages_per_sec then (False, (w0, c)) else (True, (w0, c + 1)))"
proof -
  have "unat (now - w0) < 1000" using assms by (simp add: unat_sub_if_size)
  then show ?thesis by (simp add: tick_def word_le_nat_alt)
qed

lemma accepted_same_window:
  "limiter b m = (w0, c) \<Longrightarrow> unat c \<le> 100 \<Longrightarrow>
   \<forall>t\<in>set (clock_of m ops). unat w0 \<le> t \<and> t < unat w0 + 1000 \<Longrightarrow>
   accepted_from m ops b \<le> 100 - unat c"
proof (induction m ops b arbitrary: c rule: accepted_from.induct)
  case (2 m n1 n2 msg s r sub ops b)
  let ?b' = "snd (send n1 n2 msg s r sub b)"
  let ?ok = "fst (send n1 n2 msg s r sub b)"
  show ?case
  proof (cases "sender_id msg = m \<and> limiter ?b' m \<noteq> limiter b m \<or> sender_id msg = m \<and> ?ok")
    case False
    then have "limiter ?b' m = (w0, c)" using limiter_send [of n1 n2 msg s r sub b m] 2(2) by auto
    then show ?thesis using 2(1) [of c] 2(3,4) False by (auto split: if_splits)
  next
    case True
    then have sm: "sender_id msg = m" by blast
    have tk: "tick n1 (w0, c) = (if c \<ge> max_messages_per_sec then (False, (w0, c)) else (True, (w0, c + 1)))"
      using 2(4) sm by (intro tick_in_window) auto
    with True limiter_send [of n1 n2 msg s r sub b m] 2(2)
    have nc: "\<not> c \<ge> max_messages_per_sec" and l: "limiter ?b' m = (w0, c + 1)"
      by (auto split: if_splits)
    then show ?thesis
      using 2(1) [OF l] 2(4) sm unat_succ_count [OF nc] by auto
  qed
qed (auto simp: frame_simps)

lemma accepted_interval:
  "unat (snd (limiter b m)) \<le> 100 \<Longrightarrow> sorted (clock_of m ops) \<Longrightarrow>
   \<forall>t\<in>set (clock_of m ops). a \<le> t \<and> t < a + 1000 \<Longrightarrow>
   accepted_from m ops b \<le> 200 - unat (snd (limiter b m))"
proof (induction m ops b rule: accepted_from.induct)
  case (2 m n1 n2 msg s r sub ops b)
  let ?b' = "snd (send n1 n2 msg s r sub b)"
  let ?ok = "fst (send n1 n2 msg s r sub b)"
  obtain w0 c where e: "limiter b m = (w0, c)" by fastforce
  have IH: "unat (snd (limiter ?b' m)) \<le> 100 \<Longrightarrow>
      accepted_from m ops ?b' \<le> 200 - unat (snd (limiter ?b' m))"
    using 2 by (auto split: if_splits)
  show ?case
  proof (cases "sender_id msg = m \<and> limiter ?b' m \<noteq> limiter b m \<or> sender_id msg = m \<and> ?ok")
    case False
    then have "limiter ?b' m = limiter b m" using limiter_send [of n1 n2 msg s r sub b m] by auto
    then show ?thesis using IH 2(2) False by auto
  next
    case True
    then have sm: "sender_id msg = m" by blast
    have t: "limiter ?b' m = snd (tick n1 (w0, c))" "fst (tick n1 (w0, c))"
      using True limiter_send [of n1 n2 msg s r sub b m] e by (auto simp: tick_def split: if_splits)
    show ?thesis
    proof (cases "n1 - w0 \<ge> 1000")
      case True
      then have l: "limiter ?b' m = (n1, 1)" using t by (simp add: tick_def)
      have "\<forall>t\<in>set (clock_of m ops). unat n1 \<le> t \<and> t < unat n1 + 1000"
        using 2(3,4) sm by fastforce
      then have "accepted_from m ops ?b' \<le> 99" using accepted_same_window [OF l] by simp
      then show ?thesis using 2(2) by auto
    next
      case False
      with t have nc: "\<not> c \<ge> max_messages_per_sec" and l: "limiter ?b' m = (w0, c + 1)"
        by (auto simp: tick_def split: if_splits)
      then show ?thesis using IH e unat_succ_count [OF nc] by auto
    qed
  qed
qed (auto simp: frame_simps)

text \<open>
  C34. The rate limiter bounds the traffic of a module: after any history \<open>ops0\<close> on a
  fresh bus, in any further history whose sends by \<open>m\<close> read the (non-decreasing) clock
  within one second, at most 200 messages of \<open>m\<close> are accepted, whatever the other modules
  do. (Twice the documented 100, because a fixed window may restart inside the interval.)
\<close>

theorem rate_limit_bound:
  assumes "sorted (clock_of m ops)"
    and "\<forall>t\<in>set (clock_of m ops). a \<le> t \<and> t < a + 1000"
  shows "accepted_from m ops (snd (bus_run ops0 empty_bus)) \<le> 200"
proof -
  have "unat (snd (limiter (snd (bus_run ops0 empty_bus)) m)) \<le> 100"
    using bus.inv_run [of empty_bus ops0] subs_distinct_empty limiter_ok_empty
    by (simp add: limiter_ok_def bus_run_state list_all_iff)
  from accepted_interval [OF this assms] show ?thesis by simp
qed

definition sample_message :: "string \<Rightarrow> string \<Rightarrow> string \<Rightarrow> module_message" where
  "sample_message from to tp = \<lparr>sender_id = from, recipient_id = to, topic = tp, payload = ''hi'',
     timestamp_ms = 0, sequence = 0\<rparr>"

definition sample_send :: "u64 \<Rightarrow> string \<Rightarrow> string \<Rightarrow> string \<Rightarrow> bus_op" where
  "sample_send now from to tp = Send now now (sample_message from to tp) True True True"

lemma clock_of_replicate: "clock_of m (replicate n (sample_send now m to tp)) = replicate n (unat now)"
  by (induction n) (simp_all add: sample_send_def sample_message_def)

theorem rate_limit_bound_witness:
  "accepted_from ''m'' (replicate 300 (sample_send 5000 ''m'' ''n'' ''t''))
     (snd (bus_run [Subscribe ''n'' ''t''] empty_bus)) \<le> 200"
  by (rule rate_limit_bound [where a = 5000]) (simp_all add: clock_of_replicate sorted_replicate)

text \<open>The window edge: 199 messages are accepted within two milliseconds.\<close>

lemma accepted_append:
  "accepted_from m (xs @ ys) b = accepted_from m xs b + accepted_from m ys (snd (bus_run xs b))"
  by (induction m xs b rule: accepted_from.induct) (simp_all add: Let_def)

lemma sample_send_step:
  assumes "to \<noteq> []"
  shows "fst (send now now (sample_message m to tp) True True True b) = fst (tick now (limiter b m))"
    and "limiter (snd (send now now (sample_message m to tp) True True True b)) m = snd (tick now (limiter b m))"
  using assms
  by (simp_all add: send_def deliver_def sample_message_def max_payload_bytes_def Let_def frame_simps
      check_rate_tick) (simp_all add: limiter_def push_message_def frame_simps check_rate_tick [unfolded limiter_def])

lemma accepted_burst:
  assumes "to \<noteq> []" "unat w0 \<le> unat now" "unat now < unat w0 + 1000"
  shows "limiter b m = (w0, c) \<Longrightarrow> unat c + n \<le> 100 \<Longrightarrow>
    accepted_from m (replicate n (sample_send now m to tp)) b = n \<and>
    limiter (snd (bus_run (replicate n (sample_send now m to tp)) b)) m = (w0, c + of_nat n)"
proof (induction n arbitrary: b c)
  case (Suc n)
  then have nc: "\<not> c \<ge> max_messages_per_sec" by (simp add: max_messages_per_sec_def word_le_nat_alt)
  let ?b' = "snd (send now now (sample_message m to tp) True True True b)"
  have t: "tick now (limiter b m) = (True, (w0, c + 1))"
    using tick_in_window [OF assms(2,3), of c] nc Suc.prems(1) by simp
  have "limiter ?b' m = (w0, c + 1)" using sample_send_step [OF assms(1)] t by simp
  then show ?case
    using Suc.IH [of ?b' "c + 1"] Suc.prems(2) unat_succ_count [OF nc] sample_send_step(1) [OF assms(1)] t
    by (simp add: sample_send_def Let_def algebra_simps) (simp add: sample_message_def)
qed simp

text \<open>
  The documented limit of 100 messages per second is not what a fixed window gives:
  a module whose window opened one second ago gets 99 more messages accepted in the last
  millisecond of that window and 100 in the first of the next, 199 in two milliseconds.
\<close>

theorem window_edge_burst:
  assumes "limiter b m = (5000, 1)"
  shows "accepted_from m (replicate 99 (sample_send 5999 m ''n'' tp) @
     replicate 100 (sample_send 6000 m ''n'' tp)) b = 199"
proof -
  let ?b1 = "snd (bus_run (replicate 99 (sample_send 5999 m ''n'' tp)) b)"
  let ?b2 = "snd (send 6000 6000 (sample_message m ''n'' tp) True True True ?b1)"
  have one: "accepted_from m (replicate 99 (sample_send 5999 m ''n'' tp)) b = 99 \<and> limiter ?b1 m = (5000, 100)"
    using accepted_burst [of "''n''" 5000 5999 b m 1 99 tp] assms by simp
  then have t: "tick 6000 (limiter ?b1 m) = (True, (6000, 1))" by (simp add: tick_def)
  have l: "limiter ?b2 m = (6000, 1)" using sample_send_step [of "''n''"] t by simp
  have "accepted_from m (replicate 99 (sample_send 6000 m ''n'' tp)) ?b2 = 99"
    using accepted_burst [of "''n''" 6000 6000 ?b2 m 1 99 tp] l by simp
  then have "accepted_from m (sample_send 6000 m ''n'' tp # replicate 99 (sample_send 6000 m ''n'' tp)) ?b1 = 100"
    using sample_send_step(1) [of "''n''" 6000 m tp ?b1] t
    by (simp add: sample_send_def sample_message_def)
  then have "accepted_from m (replicate 100 (sample_send 6000 m ''n'' tp)) ?b1 = 100"
    using replicate_Suc [of 99 "sample_send 6000 m ''n'' tp"] by simp
  with one show ?thesis by (simp add: accepted_append)
qed

theorem window_edge_burst_witness:
  "accepted_from ''m'' (replicate 99 (sample_send 5999 ''m'' ''n'' ''t'') @
     replicate 100 (sample_send 6000 ''m'' ''n'' ''t''))
     (snd (bus_run [sample_send 5000 ''m'' ''n'' ''t''] empty_bus)) = 199"
proof (rule window_edge_burst)
  have "tick 5000 (limiter empty_bus ''m'') = (True, (5000, 1))"
    by (simp add: tick_def limiter_def empty_bus_def)
  then show "limiter (snd (bus_run [sample_send 5000 ''m'' ''n'' ''t''] empty_bus)) ''m'' = (5000, 1)"
    using sample_send_step(2) [of "''n''" 5000 "''m''" "''t''" empty_bus]
    by (simp add: sample_send_def Let_def)
qed

section \<open>Statistics\<close>

fun sends :: "bus_op list \<Rightarrow> nat" where
  "sends [] = 0"
| "sends (Send n1 n2 msg s r sub # ops) = Suc (sends ops)"
| "sends (op # ops) = sends ops"

fun accepted :: "bus_result list \<Rightarrow> nat" where
  "accepted [] = 0"
| "accepted (Sent True # rs) = Suc (accepted rs)"
| "accepted (r # rs) = accepted rs"

text \<open>Sends not answered positively.\<close>

definition refused_count :: "module_bus \<Rightarrow> u64" where
  "refused_count b = total_rejected (bstats b) + total_rate_limited (bstats b)"

lemma broadcast_stats:
  "total_sent (bstats (broadcast msg s subs b)) = total_sent (bstats b)"
  "refused_count (broadcast msg s subs b) = refused_count b"
  by (induction subs arbitrary: b) (simp_all add: push_message_def refused_count_def)

lemma deliver_stats:
  "total_sent (bstats (snd (deliver now msg r sub b))) = total_sent (bstats b)"
  "refused_count (snd (deliver now msg r sub b)) =
     refused_count b + (if fst (deliver now msg r sub b) then 0 else 1)"
  using broadcast_stats(2) [of "stamp now b msg"]
  by (simp_all add: deliver_def Let_def broadcast_stats split: option.split)
    (simp_all add: refused_count_def inc_rejected_def push_message_def)

lemma send_stats:
  "total_sent (bstats (snd (send n1 n2 msg s r sub b))) = total_sent (bstats b) + 1"
  "refused_count (snd (send n1 n2 msg s r sub b)) =
     refused_count b + (if fst (send n1 n2 msg s r sub b) then 0 else 1)"
  by (simp_all add: send_def Let_def deliver_stats inc_rejected_def inc_rate_limited_def frame_simps)
    (simp_all add: refused_count_def inc_sent_def frame_simps)

lemma other_stats:
  "bstats (snd (poll m k b)) = bstats b" "bstats (subscribe m tp b) = bstats b"
  "bstats (unsubscribe m tp b) = bstats b"
  by (simp_all add: poll_def subscribe_def unsubscribe_def Let_def split: option.split)

lemma run_stats:
  "total_sent (bstats (snd (bus_run ops b))) = total_sent (bstats b) + of_nat (sends ops) \<and>
   of_nat (accepted (fst (bus_run ops b))) + refused_count (snd (bus_run ops b)) =
     refused_count b + of_nat (sends ops)"
proof (induction ops arbitrary: b)
  case (Cons op ops)
  show ?case
  proof (cases op)
    case (Send n1 n2 msg s r sub)
    then show ?thesis
      using Cons.IH [of "snd (send n1 n2 msg s r sub b)"]
      by (cases "fst (send n1 n2 msg s r sub b)") (simp_all add: Let_def send_stats algebra_simps)
  qed (use Cons.IH in \<open>simp_all add: Let_def other_stats refused_count_def\<close>)
qed simp

text \<open>
  The bus's statistics account for every call: after any history on a fresh bus,
  \<open>total_sent\<close> is the number of sends, and it is the sum of the accepted ones,
  \<open>total_rejected\<close> and \<open>total_rate_limited\<close> (in 64-bit arithmetic): no send is counted
  twice or not at all.
\<close>

theorem bus_stats_balance:
  "total_sent (bstats (snd (bus_run ops empty_bus))) = of_nat (sends ops) \<and>
   of_nat (accepted (fst (bus_run ops empty_bus))) +
     total_rejected (bstats (snd (bus_run ops empty_bus))) +
     total_rate_limited (bstats (snd (bus_run ops empty_bus))) =
   total_sent (bstats (snd (bus_run ops empty_bus)))"
  using run_stats [of ops empty_bus]
  by (simp add: refused_count_def empty_bus_def add.assoc)

text \<open>
  When a message passes the bus's guards: a send is answered positively exactly when
  the payload is at most 64 KiB, the sender holds its token, the limiter lets it pass, and
  either it is a broadcast to a topic with at least one subscriber or the recipient holds
  its token and is subscribed. (A broadcast does not look at the recipients' tokens.)
\<close>

theorem send_accepts_iff:
  "fst (send n1 n2 msg s r sub b) \<longleftrightarrow>
     length (payload msg) \<le> 65536 \<and> s \<and> fst (tick n1 (limiter b (sender_id msg))) \<and>
     (if recipient_id msg = [] then slot [] (subscriptions b) (topic msg) \<noteq> [] else r \<and> sub)"
  by (auto simp: send_def deliver_def Let_def max_payload_bytes_def check_rate_tick frame_simps slot_def
      split: option.splits if_splits)

end
