(* ===== verification/Lease.thy ===== *)
theory Lease
  imports Prelude "HOL-Library.AList"
begin

text \<open>
  The lease tracker (daemon/src/security/lease_tracker.cpp). The table is the
  \<open>unordered_map\<close> of the class as an association list; each operation that calls
  \<open>nowMs()\<close> takes the reading as its argument. Times are only compared, never added, so
  \<open>int64_t\<close> is an \<open>int\<close> with the sentinel \<open>INT64_MAX\<close> written out.
\<close>

definition INT64_MAX :: int where
  "INT64_MAX = 2 ^ 63 - 1"

record lease_entry =
  lease_id :: string
  le_module_id :: string
  le_capability :: string
  expires_at_ms :: int
  revoked :: bool

type_synonym lease_table = "(string \<times> lease_entry) list"

definition upsert :: "lease_table \<Rightarrow> string \<Rightarrow> string \<Rightarrow> string \<Rightarrow> int \<Rightarrow> bool \<Rightarrow> lease_table" where
  "upsert t i m c e r =
     AList.update i \<lparr>lease_id = i, le_module_id = m, le_capability = c, expires_at_ms = e, revoked = r\<rparr> t"

definition lease_remove :: "lease_table \<Rightarrow> string \<Rightarrow> lease_table" where
  "lease_remove t i = AList.delete i t"

definition entry_active :: "int \<Rightarrow> lease_entry \<Rightarrow> bool" where
  "entry_active now e \<longleftrightarrow> \<not> revoked e \<and> (expires_at_ms e = INT64_MAX \<or> now < expires_at_ms e)"

definition has_active_lease :: "int \<Rightarrow> lease_table \<Rightarrow> string \<Rightarrow> string \<Rightarrow> bool" where
  "has_active_lease now t m c =
     list_ex (\<lambda>(i, e). le_module_id e = m \<and> le_capability e = c \<and> entry_active now e) t"

definition active_count :: "int \<Rightarrow> lease_table \<Rightarrow> nat" where
  "active_count now t = length (filter (\<lambda>(i, e). entry_active now e) t)"

definition sweep_entry :: "int \<Rightarrow> lease_entry \<Rightarrow> lease_entry" where
  "sweep_entry now e =
     (if \<not> revoked e \<and> expires_at_ms e \<noteq> INT64_MAX \<and> now \<ge> expires_at_ms e then e\<lparr>revoked := True\<rparr> else e)"

definition sweep :: "int \<Rightarrow> lease_table \<Rightarrow> lease_table" where
  "sweep now t = map (\<lambda>(i, e). (i, sweep_entry now e)) t"

text \<open>Calls in order; the clock readings of the sweeps are part of the history.\<close>

datatype lease_op =
    Upsert string string string int bool
  | Remove string
  | Sweep int

fun lease_step :: "lease_table \<Rightarrow> lease_op \<Rightarrow> lease_table" where
  "lease_step t (Upsert i m c e r) = upsert t i m c e r"
| "lease_step t (Remove i) = lease_remove t i"
| "lease_step t (Sweep now) = sweep now t"

text \<open>The last notification about each lease: what the application told the daemon.\<close>

fun notified :: "(string \<rightharpoonup> lease_entry) \<Rightarrow> lease_op \<Rightarrow> (string \<rightharpoonup> lease_entry)" where
  "notified n (Upsert i m c e r) =
     n(i \<mapsto> \<lparr>lease_id = i, le_module_id = m, le_capability = c, expires_at_ms = e, revoked = r\<rparr>)"
| "notified n (Remove i) = n(i := None)"
| "notified n (Sweep now) = n"

fun sweep_clocks :: "lease_op list \<Rightarrow> int list" where
  "sweep_clocks [] = []"
| "sweep_clocks (Sweep now # ops) = now # sweep_clocks ops"
| "sweep_clocks (op # ops) = sweep_clocks ops"

section \<open>Sweeping is invisible to a later query\<close>

text \<open>
  Two tables agree for a query at \<open>now\<close> or later: same keys in the same order, and
  entries that differ at most in the revoked flag of a lease already expired.
\<close>

definition same_lease :: "int \<Rightarrow> lease_entry \<Rightarrow> lease_entry \<Rightarrow> bool" where
  "same_lease now e e' \<longleftrightarrow> le_module_id e' = le_module_id e \<and> le_capability e' = le_capability e \<and>
     entry_active now e' = entry_active now e"

lemma sweep_entry_same: "now0 \<le> now \<Longrightarrow> same_lease now e (sweep_entry now0 e)"
  by (auto simp: same_lease_def sweep_entry_def entry_active_def)

lemma sweep_map_of: "map_of (sweep now t) i = map_option (sweep_entry now) (map_of t i)"
  by (induction t) (auto simp: sweep_def)

lemma sweep_keys: "map fst (sweep now t) = map fst t"
  by (induction t) (auto simp: sweep_def)

lemma distinct_step: "distinct (map fst t) \<Longrightarrow> distinct (map fst (lease_step t op))"
  by (cases op) (simp_all add: upsert_def lease_remove_def distinct_update distinct_delete sweep_keys)

lemma has_active_iff:
  assumes "distinct (map fst t)"
  shows "has_active_lease now t m c \<longleftrightarrow>
    (\<exists>i e. map_of t i = Some e \<and> le_module_id e = m \<and> le_capability e = c \<and> entry_active now e)"
  using assms by (force simp: has_active_lease_def list_ex_iff)

definition agrees :: "int \<Rightarrow> lease_table \<Rightarrow> (string \<rightharpoonup> lease_entry) \<Rightarrow> bool" where
  "agrees now t n \<longleftrightarrow> (\<forall>i. rel_option (same_lease now) (n i) (map_of t i))"

lemma same_lease_refl: "same_lease now e e"
  by (simp add: same_lease_def)

lemma same_lease_trans: "same_lease now e e' \<Longrightarrow> same_lease now e' e'' \<Longrightarrow> same_lease now e e''"
  by (simp add: same_lease_def)

lemma same_lease_query:
  "rel_option (same_lease now) a b \<Longrightarrow>
     (\<exists>e. b = Some e \<and> le_module_id e = m \<and> le_capability e = c \<and> entry_active now e) \<longleftrightarrow>
     (\<exists>e. a = Some e \<and> le_module_id e = m \<and> le_capability e = c \<and> entry_active now e)"
  by (cases a; cases b) (auto simp: same_lease_def)

lemma agrees_step:
  assumes "agrees now t n" "\<And>k. op = Sweep k \<Longrightarrow> k \<le> now"
  shows "agrees now (lease_step t op) (notified n op)"
proof (cases op)
  case (Sweep k)
  show ?thesis
    unfolding agrees_def
  proof
    fix i
    have "rel_option (same_lease now) (n i) (map_of t i)" using assms(1) by (simp add: agrees_def)
    then show "rel_option (same_lease now) (notified n op i) (map_of (lease_step t op) i)"
      using sweep_entry_same [OF assms(2) [OF Sweep]]
      by (cases "n i"; cases "map_of t i") (auto simp: Sweep sweep_map_of intro: same_lease_trans)
  qed
next
  case (Upsert i m c e r)
  then show ?thesis
    using assms(1) by (auto simp: agrees_def upsert_def update_conv' same_lease_refl)
next
  case (Remove i)
  then show ?thesis
    using assms(1) by (auto simp: agrees_def lease_remove_def delete_conv')
qed

fun swept_by :: "int \<Rightarrow> lease_op \<Rightarrow> bool" where
  "swept_by now (Sweep k) = (k \<le> now)"
| "swept_by now op = True"

lemma swept_by_clocks: "list_all (swept_by now) ops \<longleftrightarrow> (\<forall>k\<in>set (sweep_clocks ops). k \<le> now)"
proof (induction ops)
  case (Cons op ops)
  then show ?case by (cases op) simp_all
qed simp

text \<open>For a query at \<open>now\<close>, the table follows the notifications.\<close>

interpretation leases: simulation lease_step "swept_by now" "\<lambda>t. distinct (map fst t)" notified "agrees now" for now
  by unfold_locales (simp add: distinct_step, rule agrees_step, auto)

text \<open>
  The tracker enforces what it was told: after any history of notifications and
  sweeps whose clock readings are not later than the query, \<open>hasActiveLease\<close> holds exactly
  when some lease's latest notification names the module and the capability, is not
  revoked, and has not expired at the query (\<open>INT64_MAX\<close> never expires). Sweeping can
  neither grant nor withdraw access.
\<close>

theorem active_lease_iff:
  assumes "\<forall>k\<in>set (sweep_clocks ops). k \<le> now"
  shows "has_active_lease now (foldl lease_step [] ops) m c \<longleftrightarrow>
    (\<exists>i e. foldl notified Map.empty ops i = Some e \<and> le_module_id e = m \<and> le_capability e = c \<and>
       \<not> revoked e \<and> (expires_at_ms e = INT64_MAX \<or> now < expires_at_ms e))"
proof -
  let ?t = "foldl lease_step [] ops" and ?n = "foldl notified Map.empty ops"
  have legal: "list_all (swept_by now) ops" using assms by (simp add: swept_by_clocks)
  have "agrees now [] Map.empty" by (simp add: agrees_def)
  with legal have "agrees now ?t ?n" by (intro leases.rel_run) simp_all
  then have "rel_option (same_lease now) (?n i) (map_of ?t i)" for i
    by (simp add: agrees_def)
  then have "(\<exists>e. map_of ?t i = Some e \<and> le_module_id e = m \<and> le_capability e = c \<and> entry_active now e) \<longleftrightarrow>
      (\<exists>e. ?n i = Some e \<and> le_module_id e = m \<and> le_capability e = c \<and> entry_active now e)" for i
    by (rule same_lease_query)
  then show ?thesis
    using has_active_iff [OF leases.inv_run [OF _ legal, of "[]"]] by (simp add: entry_active_def)
qed

theorem active_lease_iff_witness:
  "has_active_lease 150 (foldl lease_step [] [Upsert ''l'' ''m'' ''root'' 200 False, Sweep 120]) ''m'' ''root'' \<longleftrightarrow>
    (\<exists>i e. foldl notified Map.empty [Upsert ''l'' ''m'' ''root'' 200 False, Sweep 120] i = Some e \<and>
       le_module_id e = ''m'' \<and> le_capability e = ''root'' \<and>
       \<not> revoked e \<and> (expires_at_ms e = INT64_MAX \<or> 150 < expires_at_ms e))"
  by (rule active_lease_iff) simp

lemma active_count_pos: "0 < active_count now t \<longleftrightarrow> (\<exists>m c. has_active_lease now t m c)"
  by (induction t) (auto simp: active_count_def has_active_lease_def)

lemma active_count_sweep: "now0 \<le> now \<Longrightarrow> active_count now (sweep now0 t) = active_count now t"
  using sweep_entry_same [of now0 now]
  by (induction t) (auto simp: active_count_def sweep_def same_lease_def)

end
