(* ===== verification/Logging.thy ===== *)
theory Logging
  imports Prelude
begin

text \<open>
  The in-memory log ring (daemon/src/logger/logger.cpp) and the audit log
  (daemon/src/security/audit_logger.cpp). Time stamps are formatted by the C library from
  the system clock and are arguments here; writing to stderr is not modelled. The audit
  file is the list of the lines appended so far.
\<close>

datatype log_level = Debug | Info | Warn | Error

fun level_str :: "log_level \<Rightarrow> string" where
  "level_str Debug = ''D''"
| "level_str Info = ''I''"
| "level_str Warn = ''W''"
| "level_str Error = ''E''"

definition kRingCapacity :: nat where
  "kRingCapacity = 1024"

definition format_line :: "string \<Rightarrow> log_level \<Rightarrow> string \<Rightarrow> string \<Rightarrow> string" where
  "format_line timestamp level tag msg =
     timestamp @ '' '' @ level_str level @ ''/'' @ tag @ '': '' @ msg"

text \<open>\<open>while (g_ring.size() > kRingCapacity) g_ring.pop_front();\<close>\<close>

fun pop_excess :: "string list \<Rightarrow> string list" where
  "pop_excess [] = []"
| "pop_excess (x # xs) = (if length (x # xs) > kRingCapacity then pop_excess xs else x # xs)"

definition push_ring :: "string list \<Rightarrow> string \<Rightarrow> string list" where
  "push_ring ring line = pop_excess (ring @ [line])"

definition log :: "string list \<Rightarrow> string \<Rightarrow> log_level \<Rightarrow> string \<Rightarrow> string \<Rightarrow> string list" where
  "log ring timestamp level tag msg = push_ring ring (format_line timestamp level tag msg)"

text \<open>
  \<open>vlogf\<close> formats into a 1024-byte buffer and retries on the heap when the text does not
  fit; the formatted text is None when \<open>vsnprintf\<close> reports an error.
\<close>

definition vlogf :: "string list \<Rightarrow> string \<Rightarrow> log_level \<Rightarrow> string option \<Rightarrow> string option \<Rightarrow> string list" where
  "vlogf ring timestamp level tag formatted =
    (let msg = (case formatted of None \<Rightarrow> ''<log format error>'' | Some s \<Rightarrow> s)
     in log ring timestamp level (case tag of None \<Rightarrow> ''astrad'' | Some t \<Rightarrow> t) msg)"

definition recent :: "string list \<Rightarrow> nat \<Rightarrow> string list" where
  "recent ring n = (if n = 0 \<or> n \<ge> length ring then ring else drop (length ring - n) ring)"

text \<open>The last \<open>n\<close> elements of a list.\<close>

definition lastn :: "nat \<Rightarrow> 'a list \<Rightarrow> 'a list" where
  "lastn n xs = drop (length xs - n) xs"

lemma pop_excess_lastn: "pop_excess xs = lastn kRingCapacity xs"
  by (induction xs) (auto simp: lastn_def Suc_diff_le)

lemma lastn_snoc_lastn: "lastn n (lastn n xs @ [x]) = lastn n (xs @ [x])"
  by (cases "length xs \<le> n") (auto simp: lastn_def drop_Cons' Suc_diff_le)

lemma ring_run: "foldl push_ring (lastn kRingCapacity xs) ls = lastn kRingCapacity (xs @ ls)"
proof (induction ls arbitrary: xs)
  case (Cons l ls)
  have "push_ring (lastn kRingCapacity xs) l = lastn kRingCapacity (xs @ [l])"
    by (simp add: push_ring_def pop_excess_lastn lastn_snoc_lastn)
  then show ?case using Cons.IH [of "xs @ [l]"] by simp
qed simp

text \<open>
  The ring keeps the most recent records: after any sequence of records, \<open>recent n\<close>
  returns the last \<open>n\<close> of them in order (all that are kept for \<open>n = 0\<close>), never more than
  1024.
\<close>

theorem recent_is_suffix:
  "recent (foldl push_ring [] ls) n = lastn (if n = 0 then 1024 else min n 1024) ls"
  using ring_run [of "[]" ls]
  by (cases "length ls \<le> 1024") (auto simp: recent_def lastn_def kRingCapacity_def min_def)

section \<open>The audit log\<close>

definition audit_default_path :: string where
  "audit_default_path = ''/data/astra/log/security.log''"

definition audit_path :: "string \<Rightarrow> string" where
  "audit_path p = (if p = [] then audit_default_path else p)"

definition audit_line :: "string \<Rightarrow> string \<Rightarrow> string \<Rightarrow> bool \<Rightarrow> string" where
  \<open>audit_line now module action res =
     ''{"time":"'' @ now @ ''"''
     @ '',"module":"'' @ module @ ''"''
     @ '',"action":"'' @ action @ ''"''
     @ '',"result":"'' @ (if res then ''ALLOW'' else ''DENY'') @ ''"}''\<close>

text \<open>
  The append to the on-disk log: nothing is written when the file cannot be opened. The
  same line goes to the ring through \<open>ALOGI("audit: %s")\<close>, whose \<open>%s\<close> stops at a NUL.
\<close>

definition audit_log ::
  "bool \<Rightarrow> string \<Rightarrow> string list \<times> string \<Rightarrow> string \<Rightarrow> string \<Rightarrow> string \<Rightarrow> bool \<Rightarrow> string list \<times> string" where
  "audit_log writable timestamp st now module action res =
    (let line = audit_line now module action res;
         ring = vlogf (fst st) timestamp Info (Some ''astrad'') (Some (''audit: '' @ c_str line))
     in (ring, if writable then snd st @ line @ [nl] else snd st))"

lemma audit_line_no_nl:
  "nl \<notin> set now \<Longrightarrow> nl \<notin> set m \<Longrightarrow> nl \<notin> set a \<Longrightarrow> nl \<notin> set (audit_line now m a res)"
  by (simp add: audit_line_def nl_def)

text \<open>Decisions written in order, the file being writable.\<close>

fun audit_all :: "string list \<times> string \<Rightarrow> (string \<times> string \<times> string \<times> bool) list \<Rightarrow> string list \<times> string" where
  "audit_all st [] = st"
| "audit_all st ((now, m, a, res) # es) = audit_all (audit_log True now st now m a res) es"

lemma audit_all_file:
  "snd (audit_all st es) = snd st @ concat (map (\<lambda>(now, m, a, res). audit_line now m a res @ [nl]) es)"
  by (induction st es rule: audit_all.induct) (simp_all add: audit_log_def Let_def)

text \<open>
  The audit file is a faithful journal when no field contains a newline: reading it
  line by line gives back exactly the records written, in order, one line per decision.
\<close>

theorem audit_file_lines:
  assumes "\<forall>(now, m, a, res)\<in>set es. nl \<notin> set now \<and> nl \<notin> set m \<and> nl \<notin> set a"
  shows "getlines (snd (audit_all (ring, []) es)) = map (\<lambda>(now, m, a, res). audit_line now m a res) es"
proof -
  let ?ls = "map (\<lambda>(now, m, a, res). audit_line now m a res) es"
  have "\<forall>l\<in>set ?ls. nl \<notin> set l" using assms audit_line_no_nl by fastforce
  moreover have "snd (audit_all (ring, []) es) = concat (map (\<lambda>l. l @ [nl]) ?ls)"
    by (simp add: audit_all_file) (induction es; auto)
  ultimately show ?thesis using getlines_unlines [of ?ls] by metis
qed

theorem audit_file_lines_witness:
  "getlines (snd (audit_all ([], []) [(''t'', ''m'', ''ROOT_ACCESS'', True)])) =
     map (\<lambda>(now, m, a, res). audit_line now m a res) [(''t'', ''m'', ''ROOT_ACCESS'', True)]"
  by (rule audit_file_lines) (simp add: nl_def)

text \<open>
  Fields are not escaped: a module id chosen by a client forges a whole record. The
  denial logged for the id below reads as an ALLOW of \<open>good.avm\<close> followed by a second line.
\<close>

theorem audit_injection:
  \<open>getlines (audit_line ''T'' (''good.avm","action":"ROOT_ACCESS","result":"ALLOW"}'' @ [nl] @ ''{"x":"'')
      ''BOOT_PATCH'' False @ [nl]) =
   [audit_line ''T'' ''good.avm'' ''ROOT_ACCESS'' True,
    ''{"x":"","action":"BOOT_PATCH","result":"DENY"}'']\<close>
  by (simp add: audit_line_def getlines_def nl_def)

end
