(* ===== verification/Framing.thy ===== *)
theory Framing
  imports Prelude
begin

text \<open>
  The daemon's socket server (daemon/src/ipc/socket_server.cpp): length-prefixed frames,
  the read and write loops, peer authentication, the per-client and the accept loop, and
  start and stop. A connection is a script of what the system calls return, so every
  chunking of the byte stream and every interruption is covered. The older
  \<open>IpcServer\<close> (ipc_server.cpp), the \<open>MessageRouter\<close> and the \<open>ProtobufHandler\<close> are at the end.
\<close>

unbundle bit_operations_syntax

section \<open>The length prefix\<close>

text \<open>The four bytes of \<open>htonl(w)\<close> in memory, and \<open>ntohl\<close> of four bytes read.\<close>

definition be32 :: "u32 \<Rightarrow> byte list" where
  "be32 w = [ucast (drop_bit 24 w), ucast (drop_bit 16 w), ucast (drop_bit 8 w), ucast w]"

fun ntohl_bytes :: "byte list \<Rightarrow> u32" where
  "ntohl_bytes [a, b, c, d] =
     push_bit 24 (ucast a) OR push_bit 16 (ucast b) OR push_bit 8 (ucast c) OR ucast d"
| "ntohl_bytes _ = 0"

lemma length_be32 [simp]: "length (be32 w) = 4"
  by (simp add: be32_def)

lemma ntohl_be32 [simp]: "ntohl_bytes (be32 w) = w"
  unfolding be32_def ntohl_bytes.simps
proof (rule bit_word_eqI)
  fix n
  assume "n < LENGTH(32)"
  then show "bit (push_bit 24 (ucast (ucast (drop_bit 24 w) :: byte)) OR
      push_bit 16 (ucast (ucast (drop_bit 16 w) :: byte)) OR
      push_bit 8 (ucast (ucast (drop_bit 8 w) :: byte)) OR ucast (ucast w :: byte) :: u32) n = bit w n"
    by (cases "n < 8"; cases "n < 16"; cases "n < 24") (auto simp: bit_simps)
qed

lemma be32_ntohl: "length bs = 4 \<Longrightarrow> be32 (ntohl_bytes bs) = bs"
proof -
  assume "length bs = 4"
  then obtain a b c d where bs: "bs = [a, b, c, d]"
    by (auto simp: length_Suc_conv numeral_eq_Suc)
  show ?thesis
    unfolding bs be32_def ntohl_bytes.simps
    by (simp, intro conjI; rule bit_word_eqI) (auto simp: bit_simps dest: bit_imp_le_length)
qed

definition max_frame :: nat where
  "max_frame = 8 * 1024 * 1024"

text \<open>The reference codec of daemon/tests/test_frame_codec.cpp.\<close>

definition encode_frame :: "byte list \<Rightarrow> byte list" where
  "encode_frame payload = be32 (of_nat (length payload)) @ payload"

definition decode_frame :: "byte list \<Rightarrow> nat \<Rightarrow> byte list option" where
  "decode_frame wire max_len =
    (if length wire < 4 then None
     else let len = ntohl_bytes (take 4 wire) in
       if len = 0 \<or> unat len > max_len then None
       else if length wire < 4 + unat len then None
       else Some (take (unat len) (drop 4 wire)))"

section \<open>Reading and writing\<close>

text \<open>
  What the next \<open>poll\<close>/\<open>read\<close> on a connection gives. \<open>Data bs\<close> is readable data (the
  \<open>read\<close> takes what it asks for, the rest stays); \<open>Data []\<close> is end of file. After the
  last event of a script nothing more arrives, so \<open>poll\<close> times out.
\<close>

datatype read_ev = Timeout | PollIntr | PollErr | ReadIntr | ReadErr | Data "byte list"

fun read_exact :: "nat \<Rightarrow> byte list \<Rightarrow> read_ev list \<Rightarrow> (byte list \<times> read_ev list) option" where
  "read_exact n got evs =
    (if n \<le> length got then Some (got, evs)
     else (case evs of
         [] \<Rightarrow> None
       | Timeout # es \<Rightarrow> None
       | PollIntr # es \<Rightarrow> read_exact n got es
       | PollErr # es \<Rightarrow> None
       | ReadIntr # es \<Rightarrow> read_exact n got es
       | ReadErr # es \<Rightarrow> None
       | Data bs # es \<Rightarrow>
           if bs = [] then None
           else if length bs \<le> n - length got then read_exact n (got @ bs) es
           else Some (got @ take (n - length got) bs, Data (drop (n - length got) bs) # es)))"

declare read_exact.simps [simp del]

text \<open>
  \<open>write\<close> accepts up to \<open>k\<close> bytes, is interrupted, or fails; when the script ends the call
  blocks (there is no write timeout), and the loop has neither succeeded nor failed.
\<close>

datatype write_ev = Accept nat | WriteIntr | WriteErr

datatype write_result = Written | Failed | Blocked

fun write_exact :: "byte list \<Rightarrow> write_ev list \<Rightarrow> write_result \<times> byte list \<times> write_ev list" where
  "write_exact bs [] = (if bs = [] then Written else Blocked, [], [])"
| "write_exact bs (e # es) =
    (if bs = [] then (Written, [], e # es)
     else (case e of
         WriteErr \<Rightarrow> (Failed, [], es)
       | WriteIntr \<Rightarrow> write_exact bs es
       | Accept k \<Rightarrow>
           (let (r, out, es') = write_exact (drop k bs) es in (r, take k bs @ out, es'))))"

section \<open>The client loop\<close>

record conn =
  c_running :: "bool list"
  c_reads :: "read_ev list"
  c_writes :: "write_ev list"

text \<open>What \<open>handle_client\<close> writes for one response, and whether the loop goes on.\<close>

definition send_response :: "byte list \<Rightarrow> write_ev list \<Rightarrow> bool \<times> byte list \<times> write_ev list" where
  "send_response response ws =
    (if response = [] then
       (case write_exact (be32 0) ws of (r, out, ws') \<Rightarrow> (False, out, ws'))
     else (case write_exact (be32 (of_nat (length response))) ws of
         (Written, out1, ws1) \<Rightarrow>
           (case write_exact response ws1 of
              (Written, out2, ws2) \<Rightarrow> (True, out1 @ out2, ws2)
            | (_, out2, ws2) \<Rightarrow> (False, out1 @ out2, ws2))
       | (_, out1, ws1) \<Rightarrow> (False, out1, ws1)))"

text \<open>
  \<open>handle_client\<close>: one reading of \<open>running_\<close> per iteration (the history ends with the
  list of readings). The handler transforms the daemon state; \<open>None\<close> is the case that no
  handler is installed. The result is the daemon state, the payloads the handler was given
  and the bytes written.
\<close>

fun handle_client :: "('s \<Rightarrow> byte list \<Rightarrow> byte list \<times> 's) option \<Rightarrow> bool list \<Rightarrow> read_ev list \<Rightarrow> write_ev list \<Rightarrow> 's \<Rightarrow>
    's \<times> byte list list \<times> byte list" where
  "handle_client h [] rs ws st = (st, [], [])"
| "handle_client h (run # runs) rs ws st =
    (if \<not> run then (st, [], [])
     else (case read_exact 4 [] rs of
         None \<Rightarrow> (st, [], [])
       | Some (net_len, rs1) \<Rightarrow>
         (let len = ntohl_bytes net_len
          in if len = 0 \<or> unat len > max_frame then (st, [], [])
             else (case read_exact (unat len) [] rs1 of
                 None \<Rightarrow> (st, [], [])
               | Some (payload, rs2) \<Rightarrow>
                 (let (response, st1) = (case h of None \<Rightarrow> ([], st) | Some f \<Rightarrow> f st payload);
                      (go, out, ws1) = send_response response ws
                  in if \<not> go then (st1, [payload], out)
                     else (let (st2, ps, out2) = handle_client h runs rs2 ws1 st1
                           in (st2, payload # ps, out @ out2)))))))"

section \<open>Peer authentication and the accept loop\<close>

definition is_allowed_uid :: "u32 \<Rightarrow> bool" where
  "is_allowed_uid uid \<longleftrightarrow> uid = 0 \<or> uid = 1000 \<or> uid = 2000 \<or> (uid \<ge> 10000 \<and> uid \<le> 19999)"

text \<open>The uid \<open>SO_PEERCRED\<close> reports, None when \<open>getsockopt\<close> fails.\<close>

definition authenticate_peer :: "u32 option \<Rightarrow> bool" where
  "authenticate_peer cred = (case cred of None \<Rightarrow> False | Some uid \<Rightarrow> is_allowed_uid uid)"

datatype accept_ev = AcceptFail | Accepted "u32 option" conn

text \<open>
  \<open>run\<close>: each element pairs the reading of \<open>running_\<close> with the outcome of \<open>accept\<close>. The
  result lists, per accepted connection, the peer and what its session did.
\<close>

fun run_loop :: "('s \<Rightarrow> byte list \<Rightarrow> byte list \<times> 's) option \<Rightarrow> (bool \<times> accept_ev) list \<Rightarrow> 's \<Rightarrow>
    's \<times> (u32 option \<times> byte list list \<times> byte list) list" where
  "run_loop h [] st = (st, [])"
| "run_loop h ((run, ev) # evs) st =
    (if \<not> run then (st, [])
     else (case ev of
         AcceptFail \<Rightarrow> run_loop h evs st
       | Accepted cred c \<Rightarrow>
           if \<not> authenticate_peer cred then
             (let (st', log) = run_loop h evs st in (st', (cred, [], []) # log))
           else
             (let (st1, ps, out) = handle_client h (c_running c) (c_reads c) (c_writes c) st;
                  (st2, log) = run_loop h evs st1
              in (st2, (cred, ps, out) # log))))"

section \<open>Start and stop\<close>

record server =
  socket_path :: string
  listen_fd :: int
  running :: bool

text \<open>The system calls of \<open>start\<close>, as the results they give.\<close>

record start_sys =
  parent_exists :: bool
  parent_created :: "bool option"  \<comment> \<open>None when the filesystem library throws\<close>
  new_socket :: int
  bind_ok :: bool
  listen_ok :: bool

definition sun_path_size :: nat where
  "sun_path_size = 108"

definition parent_path_empty :: "string \<Rightarrow> bool" where
  "parent_path_empty p \<longleftrightarrow> CHR ''/'' \<notin> set p"

definition parent_ready :: "start_sys \<Rightarrow> string \<Rightarrow> bool" where
  "parent_ready sys p \<longleftrightarrow> parent_path_empty p \<or> parent_exists sys \<or> parent_created sys = Some True"

definition server_start :: "start_sys \<Rightarrow> server \<Rightarrow> bool \<times> server" where
  "server_start sys s =
    (if \<not> parent_ready sys (socket_path s) then (False, s)
     else if new_socket sys < 0 then (False, s\<lparr>listen_fd := new_socket sys\<rparr>)
     else if length (socket_path s) \<ge> sun_path_size then (False, s\<lparr>listen_fd := -1\<rparr>)
     else if \<not> bind_ok sys then (False, s\<lparr>listen_fd := -1\<rparr>)
     else if \<not> listen_ok sys then (False, s\<lparr>listen_fd := -1\<rparr>)
     else (True, s\<lparr>listen_fd := new_socket sys, running := True\<rparr>))"

text \<open>\<open>stop\<close> returns early when the server was not running; the flag tells whether it unlinked.\<close>

definition server_stop :: "server \<Rightarrow> bool \<times> server" where
  "server_stop s =
    (if \<not> running s then (False, s\<lparr>running := False\<rparr>)
     else (True, s\<lparr>running := False, listen_fd := (if listen_fd s \<ge> 0 then -1 else listen_fd s)\<rparr>))"

definition server_run :: "('s \<Rightarrow> byte list \<Rightarrow> byte list \<times> 's) option \<Rightarrow> server \<Rightarrow> (bool \<times> accept_ev) list \<Rightarrow> 's \<Rightarrow>
    's \<times> (u32 option \<times> byte list list \<times> byte list) list" where
  "server_run h s evs st = (if listen_fd s < 0 then (st, []) else run_loop h evs st)"

section \<open>The read loop\<close>

text \<open>What a script delivers, and a script without timeout, error or end of file.\<close>

fun arrives :: "read_ev list \<Rightarrow> byte list" where
  "arrives [] = []"
| "arrives (Data bs # es) = bs @ arrives es"
| "arrives (e # es) = arrives es"

fun calm :: "read_ev list \<Rightarrow> bool" where
  "calm [] = True"
| "calm (Data bs # es) = (bs \<noteq> [] \<and> calm es)"
| "calm (PollIntr # es) = calm es"
| "calm (ReadIntr # es) = calm es"
| "calm (e # es) = False"

lemma read_steps:
  "n \<le> length got \<Longrightarrow> read_exact n got evs = Some (got, evs)"
  "length got < n \<Longrightarrow> read_exact n got [] = None"
  "length got < n \<Longrightarrow> read_exact n got (Timeout # es) = None"
  "length got < n \<Longrightarrow> read_exact n got (PollErr # es) = None"
  "length got < n \<Longrightarrow> read_exact n got (ReadErr # es) = None"
  "length got < n \<Longrightarrow> read_exact n got (PollIntr # es) = read_exact n got es"
  "length got < n \<Longrightarrow> read_exact n got (ReadIntr # es) = read_exact n got es"
  "length got < n \<Longrightarrow> read_exact n got (Data ds # es) =
     (if ds = [] then None
      else if length ds \<le> n - length got then read_exact n (got @ ds) es
      else Some (got @ take (n - length got) ds, Data (drop (n - length got) ds) # es))"
  by (simp_all add: read_exact.simps [of n got "_ # _"] read_exact.simps [of n got "[]"]
      read_exact.simps [of n got evs])

lemma read_exact_length:
  "read_exact n got evs = Some (bs, evs') \<Longrightarrow> length got \<le> n \<Longrightarrow> length bs = n"
proof (induction evs arbitrary: got)
  case Nil
  then show ?case by (cases "length got < n") (simp_all add: read_steps)
next
  case (Cons e es)
  show ?case
  proof (cases "length got < n")
    case True
    then show ?thesis
      using Cons.IH [of got] Cons.IH [of "got @ ds" for ds] Cons.prems
      by (cases e) (auto simp: read_steps split: if_splits)
  qed (use Cons.prems in \<open>simp add: read_steps\<close>)
qed

text \<open>What a read that succeeds takes is what arrived first; the rest is left.\<close>

lemma read_exact_arrives:
  "read_exact n got evs = Some (bs, evs') \<Longrightarrow> length got \<le> n \<Longrightarrow> got @ arrives evs = bs @ arrives evs'"
proof (induction evs arbitrary: got)
  case Nil
  then show ?case by (cases "length got < n") (auto simp: read_steps)
next
  case (Cons e es)
  show ?case
  proof (cases "length got < n")
    case True
    then show ?thesis
      using Cons.IH [of got] Cons.IH [of "got @ ds" for ds] Cons.prems
      by (cases e) (auto simp: read_steps split: if_splits)
  qed (use Cons.prems in \<open>auto simp: read_steps\<close>)
qed

lemma read_exact_calm:
  assumes "calm evs" "length got \<le> n" "n \<le> length (got @ arrives evs)"
  shows "\<exists>evs'. read_exact n got evs = Some (take n (got @ arrives evs), evs') \<and> calm evs' \<and>
     arrives evs' = drop n (got @ arrives evs)"
  using assms
proof (induction evs arbitrary: got)
  case Nil
  then show ?case by (simp add: read_steps)
next
  case (Cons e es)
  show ?case
  proof (cases "length got < n")
    case lt: True
    show ?thesis
    proof (cases e)
      case (Data ds)
      show ?thesis
      proof (cases "length ds \<le> n - length got")
        case True
        then have "length (got @ ds) \<le> n" using lt by simp
        then show ?thesis
          using Cons.IH [of "got @ ds"] Cons.prems lt True by (simp add: Data read_steps)
      next
        case False
        then show ?thesis using Cons.prems lt by (auto simp: Data read_steps)
      qed
    qed (use Cons lt in \<open>simp_all add: read_steps\<close>)
  next
    case False
    then have "n = length got" using Cons.prems(2) by simp
    then show ?thesis using Cons.prems(1) by (simp add: read_steps)
  qed
qed

lemma read_exact_short:
  "calm evs \<Longrightarrow> length (got @ arrives evs) < n \<Longrightarrow> read_exact n got evs = None"
proof (induction evs arbitrary: got)
  case (Cons e es)
  then show ?case
    using Cons.IH [of got] Cons.IH [of "got @ ds" for ds] by (cases e) (auto simp: read_steps)
qed (simp add: read_steps)

section \<open>The write loop\<close>

text \<open>A peer that keeps reading: no error, every accepted write takes at least a byte.\<close>

fun willing :: "write_ev list \<Rightarrow> bool" where
  "willing [] = True"
| "willing (Accept k # es) = (0 < k \<and> willing es)"
| "willing (WriteIntr # es) = willing es"
| "willing (WriteErr # es) = False"

fun accepts :: "write_ev list \<Rightarrow> nat" where
  "accepts [] = 0"
| "accepts (Accept k # es) = Suc (accepts es)"
| "accepts (e # es) = accepts es"

lemma write_exact_willing:
  "willing ws \<Longrightarrow> length bs \<le> accepts ws \<Longrightarrow>
    \<exists>ws'. write_exact bs ws = (Written, bs, ws') \<and> willing ws' \<and> accepts ws \<le> accepts ws' + length bs"
proof (induction ws arbitrary: bs rule: willing.induct)
  case (2 k es)
  show ?case
  proof (cases "bs = []")
    case False
    have len: "length (drop k bs) \<le> accepts es" using 2(2,3) False by (cases bs) auto
    from 2(1) [OF _ len] 2(2) obtain ws' where
      w: "write_exact (drop k bs) es = (Written, drop k bs, ws')" "willing ws'"
        "accepts es \<le> accepts ws' + length (drop k bs)" by auto
    then show ?thesis using False 2(2) by (cases bs) auto
  qed (use 2 in simp)
qed (auto split: if_splits)

lemma write_exact_prefix: "write_exact bs ws = (r, out, ws') \<Longrightarrow> prefix out bs \<and> (r = Written \<longrightarrow> out = bs)"
proof (induction bs ws arbitrary: out ws' rule: write_exact.induct)
  case (2 bs e es)
  show ?case
  proof (cases "bs = []")
    case False
    show ?thesis
    proof (cases e)
      case (Accept k)
      then obtain out' where o: "write_exact (drop k bs) es = (r, out', ws')" "out = take k bs @ out'"
        using 2(3) False by (auto split: prod.splits)
      have "prefix out' (drop k bs) \<and> (r = Written \<longrightarrow> out' = drop k bs)"
        using 2(1) [OF False Accept o(1)] .
      then show ?thesis using o(2) by (metis append_take_drop_id same_prefix_prefix)
    next
      case WriteIntr
      then show ?thesis using 2 False by auto
    next
      case WriteErr
      then show ?thesis using 2(3) False by auto
    qed
  qed (use 2 in auto)
qed (auto split: if_splits)

lemma send_response_willing:
  assumes "response \<noteq> []" "willing ws" "4 + length response \<le> accepts ws"
  shows "\<exists>ws'. send_response response ws = (True, encode_frame response, ws') \<and> willing ws' \<and>
     accepts ws \<le> accepts ws' + (4 + length response)"
proof -
  let ?hd = "be32 (of_nat (length response))"
  obtain ws1 where w1: "write_exact ?hd ws = (Written, ?hd, ws1)" "willing ws1" "accepts ws \<le> accepts ws1 + 4"
    using write_exact_willing [OF assms(2), of ?hd] assms(3) by auto
  obtain ws2 where w2: "write_exact response ws1 = (Written, response, ws2)" "willing ws2"
      "accepts ws1 \<le> accepts ws2 + length response"
    using write_exact_willing [OF w1(2), of response] w1(3) assms(3) by auto
  show ?thesis using assms(1) w1 w2 by (simp add: send_response_def encode_frame_def)
qed

section \<open>Frames\<close>

lemma length_encode_frame [simp]: "length (encode_frame p) = 4 + length p"
  by (simp add: encode_frame_def)

lemma unat_frame_length:
  "length p \<le> max_frame \<Longrightarrow> unat (of_nat (length p) :: u32) = length p"
  by (simp add: max_frame_def unat_of_nat)

text \<open>
  The frame codec round-trips: decoding the encoding of a payload of 1 byte to the
  maximum frame size gives the payload back whatever follows it on the wire, and a wire
  that decodes starts with the encoding of what was decoded.
\<close>

theorem frame_roundtrip:
  "(0 < length p \<and> length p \<le> max_frame \<longrightarrow> decode_frame (encode_frame p @ rest) max_frame = Some p) \<and>
   (decode_frame wire max_frame = Some q \<longrightarrow>
      0 < length q \<and> length q \<le> max_frame \<and> (\<exists>tail. wire = encode_frame q @ tail))"
proof (intro conjI impI)
  assume p: "0 < length p \<and> length p \<le> max_frame"
  then have "of_nat (length p) \<noteq> (0::u32)" using unat_frame_length [of p] by auto
  then show "decode_frame (encode_frame p @ rest) max_frame = Some p"
    using p unat_frame_length [of p] by (simp add: decode_frame_def encode_frame_def Let_def)
next
  assume d: "decode_frame wire max_frame = Some q"
  let ?len = "ntohl_bytes (take 4 wire)"
  from d have l4: "4 \<le> length wire" and nz: "?len \<noteq> 0" and le: "unat ?len \<le> max_frame"
    and w: "4 + unat ?len \<le> length wire" and q: "q = take (unat ?len) (drop 4 wire)"
    by (auto simp: decode_frame_def Let_def split: if_splits)
  have ql: "length q = unat ?len" using q w by simp
  show "0 < length q" "length q \<le> max_frame" using ql nz le by (simp_all add: unat_gt_0)
  have "be32 (of_nat (length q)) = take 4 wire" using ql be32_ntohl [of "take 4 wire"] l4 by simp
  then have "wire = encode_frame q @ drop (unat ?len) (drop 4 wire)"
    unfolding encode_frame_def q by (metis append.assoc append_take_drop_id)
  then show "\<exists>tail. wire = encode_frame q @ tail" by blast
qed

theorem frame_roundtrip_witness:
  "(0 < length [1::byte, 2] \<and> length [1::byte, 2] \<le> max_frame \<longrightarrow>
      decode_frame (encode_frame [1, 2] @ [9]) max_frame = Some [1, 2]) \<and>
   (decode_frame [0, 0, 0, 1, 7] max_frame = Some [7] \<longrightarrow>
      0 < length [7::byte] \<and> length [7::byte] \<le> max_frame \<and>
      (\<exists>tail. [0, 0, 0, 1, 7] = encode_frame [7] @ tail))"
  using frame_roundtrip [of "[1, 2]" "[9]" "[0, 0, 0, 1, 7]" "[7]"] by blast

section \<open>A session\<close>

text \<open>The specification of a session: the handler applied to the requests in order.\<close>

fun serve :: "('s \<Rightarrow> byte list \<Rightarrow> byte list \<times> 's) \<Rightarrow> byte list list \<Rightarrow> 's \<Rightarrow> byte list list \<times> 's" where
  "serve f [] st = ([], st)"
| "serve f (p # ps) st =
     (let (resp, st1) = f st p; (resps, st2) = serve f ps st1 in (resp # resps, st2))"

abbreviation wire_of :: "byte list list \<Rightarrow> byte list" where
  "wire_of ps \<equiv> concat (map encode_frame ps)"

definition legal_request :: "byte list \<Rightarrow> bool" where
  "legal_request p \<longleftrightarrow> 0 < length p \<and> length p \<le> max_frame"

lemma read_frame:
  assumes "calm rs" "arrives rs = encode_frame p @ rest" "legal_request p"
  shows "\<exists>rs1 rs2. read_exact 4 [] rs = Some (be32 (of_nat (length p)), rs1) \<and>
     read_exact (length p) [] rs1 = Some (p, rs2) \<and> calm rs2 \<and> arrives rs2 = rest"
proof -
  obtain rs1 where r1: "read_exact 4 [] rs = Some (be32 (of_nat (length p)), rs1)" "calm rs1" "arrives rs1 = p @ rest"
    using read_exact_calm [OF assms(1), of "[]" 4] assms(2) by (auto simp: encode_frame_def)
  moreover obtain rs2 where "read_exact (length p) [] rs1 = Some (p, rs2)" "calm rs2" "arrives rs2 = rest"
    using read_exact_calm [OF r1(2), of "[]" "length p"] r1(3) by auto
  ultimately show ?thesis by blast
qed

lemma handle_client_frame:
  assumes "calm rs" "arrives rs = encode_frame p @ rest" "legal_request p"
    and "f st p = (resp, st1)" "send_response resp ws = (True, out, ws1)"
  shows "\<exists>rs2. calm rs2 \<and> arrives rs2 = rest \<and>
     handle_client (Some f) (True # runs) rs ws st =
       (let (st2, ps, out2) = handle_client (Some f) runs rs2 ws1 st1 in (st2, p # ps, out @ out2))"
proof -
  obtain rs1 rs2 where r: "read_exact 4 [] rs = Some (be32 (of_nat (length p)), rs1)"
      "read_exact (length p) [] rs1 = Some (p, rs2)" "calm rs2" "arrives rs2 = rest"
    using read_frame [OF assms(1-3)] by blast
  have len: "unat (of_nat (length p) :: u32) = length p" "of_nat (length p) \<noteq> (0::u32)"
    using unat_frame_length [of p] assms(3) by (auto simp: legal_request_def)
  then show ?thesis
    using r assms(3-5) by (intro exI [of _ rs2]) (simp add: legal_request_def Let_def)
qed

text \<open>
  Framing is transparent: for legal requests that arrive in any chunking, with any
  interruptions, and a client that keeps reading, \<open>handle_client\<close> gives the handler exactly
  the requests, in order, and writes exactly the framed responses.
\<close>

lemma handle_client_session:
  assumes "calm rs" "arrives rs = wire_of reqs" "\<forall>p\<in>set reqs. legal_request p"
    and "willing ws" "length (wire_of (fst (serve f reqs st))) \<le> accepts ws"
    and "[] \<notin> set (fst (serve f reqs st))" "length reqs \<le> k"
  shows "handle_client (Some f) (replicate k True) rs ws st =
    (snd (serve f reqs st), reqs, wire_of (fst (serve f reqs st)))"
  using assms
proof (induction reqs arbitrary: rs ws st k)
  case Nil
  then show ?case using read_exact_short [of rs "[]" 4] by (cases k) auto
next
  case (Cons p ps)
  obtain resp st1 where f: "f st p = (resp, st1)" by fastforce
  obtain j where k: "k = Suc j" using Cons.prems(7) by (cases k) auto
  have resp: "resp \<noteq> []" and len: "length (encode_frame resp) + length (wire_of (fst (serve f ps st1))) \<le> accepts ws"
    using Cons.prems(5,6) f by (auto simp: case_prod_beta)
  obtain ws1 where w: "send_response resp ws = (True, encode_frame resp, ws1)" "willing ws1"
      "accepts ws \<le> accepts ws1 + (4 + length resp)"
    using send_response_willing [OF resp Cons.prems(4)] len by (auto simp: encode_frame_def)
  have ar: "arrives rs = encode_frame p @ wire_of ps" and lp: "legal_request p"
    using Cons.prems(2,3) by simp_all
  obtain rs2 where rs2: "calm rs2" "arrives rs2 = wire_of ps"
    and h: "handle_client (Some f) (True # replicate j True) rs ws st =
       (let (st2, qs, out2) = handle_client (Some f) (replicate j True) rs2 ws1 st1
        in (st2, p # qs, encode_frame resp @ out2))"
    using handle_client_frame [where f = f and p = p and st = st, OF Cons.prems(1) ar lp f w(1)] by blast
  have "handle_client (Some f) (replicate j True) rs2 ws1 st1 =
      (snd (serve f ps st1), ps, wire_of (fst (serve f ps st1)))"
    using Cons.IH [OF rs2 _ w(2)] Cons.prems(3,6,7) len w(3) k f
    by (simp add: case_prod_beta)
  then show ?case using h k f by (simp add: case_prod_beta)
qed

definition echo :: "unit \<Rightarrow> byte list \<Rightarrow> byte list \<times> unit" where
  "echo st p = (p, st)"

section \<open>Hostile clients\<close>

text \<open>The three ways an iteration ends: nothing read, the last response, or another round.\<close>

lemma handle_client_round:
  assumes "handle_client (Some f) (run # runs) rs ws st = (st', ps, out)"
  obtains (stop) "st' = st" "ps = []"
  | (last) p rs2 where "legal_request p" "st' = snd (f st p)" "ps = [p]" "arrives rs = encode_frame p @ arrives rs2"
  | (more) p qs rs2 ws1 o2 where "legal_request p" "ps = p # qs" "arrives rs = encode_frame p @ arrives rs2"
      "handle_client (Some f) runs rs2 ws1 (snd (f st p)) = (st', qs, o2)"
proof (cases "read_exact 4 [] rs")
  case None
  then show ?thesis using assms stop by (auto split: if_splits)
next
  case (Some a)
  obtain hd4 rs1 where a: "a = (hd4, rs1)" by fastforce
  let ?len = "ntohl_bytes hd4"
  show ?thesis
  proof (cases "\<not> run \<or> ?len = 0 \<or> unat ?len > max_frame \<or> read_exact (unat ?len) [] rs1 = None")
    case True
    then show ?thesis using assms stop Some a by (auto simp: Let_def split: if_splits)
  next
    case False
    then obtain p rs2 where p: "read_exact (unat ?len) [] rs1 = Some (p, rs2)" by auto
    have legal: "legal_request p"
      using read_exact_length [OF p] False by (simp add: legal_request_def unat_gt_0)
    have "length hd4 = 4" using read_exact_length [of 4 "[]" rs hd4 rs1] Some a by simp
    then have "be32 (of_nat (length p)) = hd4"
      using read_exact_length [OF p] be32_ntohl [of hd4] by simp
    then have arr: "arrives rs = encode_frame p @ arrives rs2"
      using read_exact_arrives [of 4 "[]" rs hd4 rs1] read_exact_arrives [OF p] Some a by (simp add: encode_frame_def)
    obtain resp st1 where f: "f st p = (resp, st1)" by fastforce
    obtain go o1 ws1 where s: "send_response resp ws = (go, o1, ws1)" by (cases "send_response resp ws") auto
    obtain st2 qs o2 where h: "handle_client (Some f) runs rs2 ws1 st1 = (st2, qs, o2)"
      by (cases "handle_client (Some f) runs rs2 ws1 st1") auto
    have "(st', ps, out) = (if go then (st2, p # qs, o1 @ o2) else (st1, [p], o1))"
      using assms Some a p f s h False by (cases go) (auto simp: Let_def)
    then show ?thesis using last more legal arr f h by (cases go) auto
  qed
qed

lemma handle_client_invariant:
  "handle_client (Some f) runs rs ws st = (st', ps, out) \<Longrightarrow>
     (\<forall>p\<in>set ps. legal_request p) \<and> st' = snd (serve f ps st) \<and> prefix (wire_of ps) (arrives rs)"
proof (induction runs arbitrary: rs ws st st' ps out)
  case (Cons run runs)
  from Cons.prems show ?case
  proof (cases rule: handle_client_round)
    case (more p qs rs2 ws1 o2)
    then show ?thesis using Cons.IH [OF more(4)] by (simp add: case_prod_beta)
  qed (simp_all add: case_prod_beta)
qed simp

text \<open>
  C10. Whatever a client sends (malformed lengths, short frames, floods, stalls), the
  handler only ever sees payloads of 1 byte to 8 MiB; their frames, each complete and in order, are what the client sent
  first; and the daemon state the session leaves is
  the one obtained by handling those payloads in order: a frame that is not complete has
  no effect.
\<close>

theorem hostile_client_contained:
  "(case handle_client (Some f) runs rs ws st of
     (st', ps, out) \<Rightarrow> list_all (\<lambda>p. 0 < length p \<and> length p \<le> 8388608) ps \<and>
       prefix (wire_of ps) (arrives rs) \<and> st' = snd (serve f ps st))"
  using handle_client_invariant [of f runs rs ws st]
  by (auto simp: list_all_iff legal_request_def max_frame_def)

section \<open>Authentication\<close>

lemma serve_append:
  "serve f (ps @ qs) st =
    (let (r1, st1) = serve f ps st; (r2, st2) = serve f qs st1 in (r1 @ r2, st2))"
  by (induction ps arbitrary: st) (auto simp: case_prod_beta Let_def)

lemma run_loop_invariant:
  "run_loop (Some f) evs st = (st', log) \<Longrightarrow>
     (\<forall>(cred, ps, out)\<in>set log. \<not> authenticate_peer cred \<longrightarrow> ps = [] \<and> out = []) \<and>
     st' = snd (serve f (concat (map (\<lambda>(cred, ps, out). ps) log)) st)"
proof (induction evs arbitrary: st st' log)
  case (Cons e evs)
  obtain run ev where e: "e = (run, ev)" by fastforce
  show ?case
  proof (cases "run \<and> ev \<noteq> AcceptFail")
    case False
    then show ?thesis using Cons by (auto simp: e split: if_splits)
  next
    case True
    then obtain cred c where ev: "ev = Accepted cred c" by (cases ev) auto
    show ?thesis
    proof (cases "authenticate_peer cred")
      case False
      obtain st2 l2 where r: "run_loop (Some f) evs st = (st2, l2)" by fastforce
      then show ?thesis using Cons.IH [OF r] Cons.prems True False by (auto simp: e ev)
    next
      case auth: True
      obtain st1 ps out where h: "handle_client (Some f) (c_running c) (c_reads c) (c_writes c) st = (st1, ps, out)"
        by (cases "handle_client (Some f) (c_running c) (c_reads c) (c_writes c) st") auto
      obtain st2 l2 where r: "run_loop (Some f) evs st1 = (st2, l2)" by fastforce
      have "st' = st2" "log = (cred, ps, out) # l2"
        using Cons.prems True auth h r by (auto simp: e ev)
      then show ?thesis
        using Cons.IH [OF r] handle_client_invariant [OF h] auth
        by (auto simp: serve_append case_prod_beta Let_def)
    qed
  qed
qed auto

text \<open>
  C11. Only authenticated peers are served: in any history of the accept loop, a
  connection whose peer credentials cannot be read, or whose uid is not root, system,
  shell or an application uid (10000 to 19999), never reaches the handler and is sent
  nothing, and the daemon state is the result of the authenticated peers' payloads alone.
\<close>

theorem only_authenticated_served:
  assumes "server_run (Some f) s evs st = (st', log)"
  shows "(\<forall>(cred, ps, out)\<in>set log. (ps \<noteq> [] \<or> out \<noteq> []) \<longrightarrow>
      (\<exists>uid. cred = Some uid \<and> (uid = 0 \<or> uid = 1000 \<or> uid = 2000 \<or> 10000 \<le> uid \<and> uid \<le> 19999))) \<and>
    st' = snd (serve f (concat (map (\<lambda>(cred, ps, out). ps) log)) st)"
proof (cases "listen_fd s < 0")
  case True
  then show ?thesis using assms by (simp add: server_run_def)
next
  case False
  then have "run_loop (Some f) evs st = (st', log)" using assms by (simp add: server_run_def)
  from run_loop_invariant [OF this] show ?thesis
    by (auto simp: authenticate_peer_def is_allowed_uid_def split: option.splits)
qed

theorem only_authenticated_served_witness:
  "list_all (\<lambda>(cred, ps, out). (ps \<noteq> [] \<or> out \<noteq> []) \<longrightarrow>
      (\<exists>uid. cred = Some uid \<and> (uid = 0 \<or> uid = 1000 \<or> uid = 2000 \<or> 10000 \<le> uid \<and> uid \<le> 19999)))
     [(Some (5000 :: u32), [], []), (Some 0, [[7 :: byte]], [0, 0, 0, 1, 7 :: byte])] \<and>
    () = snd (serve echo (concat (map (\<lambda>(cred, ps, out). ps)
       [(Some (5000::u32), [], []), (Some 0, [[7]], [0, 0, 0, 1, 7 :: byte])])) ())"
proof -
  let ?c = "\<lparr>c_running = [True], c_reads = [Data [0, 0, 0, 1, 7]], c_writes = [Accept 3, Accept 9, Accept 1]\<rparr>"
  have "server_run (Some echo) \<lparr>socket_path = ''s'', listen_fd = 3, running = True\<rparr>
      [(True, Accepted (Some 5000) ?c), (True, Accepted (Some 0) ?c)] () =
    ((), [(Some 5000, [], []), (Some 0, [[7]], [0, 0, 0, 1, 7])])"
    by (simp add: server_run_def authenticate_peer_def is_allowed_uid_def read_steps echo_def
        send_response_def be32_def max_frame_def)
  from only_authenticated_served [OF this] show ?thesis unfolding list_all_iff .
qed

section \<open>The listening socket\<close>

text \<open>
  Starting and stopping: \<open>start\<close> succeeds exactly when the directory is there or can
  be made, the path fits \<open>sun_path\<close> and the socket calls succeed; then the server runs on
  the new descriptor. After a failed start the loop serves nobody, and \<open>stop\<close> after a
  successful start leaves no descriptor and does its work only once.
\<close>

theorem start_stop:
  "(case server_start sys \<lparr>socket_path = path, listen_fd = -1, running = False\<rparr> of
     (ok, s) \<Rightarrow>
       (ok \<longleftrightarrow> parent_ready sys path \<and> 0 \<le> new_socket sys \<and> length path < 108 \<and> bind_ok sys \<and> listen_ok sys) \<and>
       running s = ok \<and> (listen_fd s \<ge> 0) = ok \<and>
       (if ok then listen_fd s = new_socket sys \<and> fst (server_stop s) \<and>
           listen_fd (snd (server_stop s)) < 0 \<and> \<not> fst (server_stop (snd (server_stop s)))
        else server_run h s evs st = (st, []) \<and> \<not> fst (server_stop s)))"
  by (simp add: server_start_def server_stop_def server_run_def sun_path_size_def)

end
