(* ===== verification/LegacyIpc.thy ===== *)
theory LegacyIpc
  imports Framing
begin

text \<open>
  The earlier IPC path kept beside the socket server: the \<open>IpcServer\<close>
  (daemon/src/ipc/ipc_server.cpp), the \<open>ProtobufHandler\<close> and the \<open>MessageRouter\<close>. A
  connection is the list of chunks that successive \<open>read\<close> calls find; a \<open>read\<close> takes at
  most what it asks for, and the end of the list is end of file.
\<close>

unbundle bit_operations_syntax

fun read_once :: "nat \<Rightarrow> byte list list \<Rightarrow> byte list \<times> byte list list" where
  "read_once k [] = ([], [])"
| "read_once k (c # cs) = (take k c, if length c \<le> k then cs else drop k c # cs)"

text \<open>\<open>read(client, &length, 4)\<close> stores the bytes in host order (little-endian on Android).\<close>

fun host_u32 :: "byte list \<Rightarrow> u32" where
  "host_u32 [a, b, c, d] =
     push_bit 24 (ucast d) OR push_bit 16 (ucast c) OR push_bit 8 (ucast b) OR ucast a"
| "host_u32 _ = 0"

fun ipc_fill :: "nat \<Rightarrow> byte list \<Rightarrow> byte list list \<Rightarrow> byte list" where
  "ipc_fill n got [] = got"
| "ipc_fill n got (c # cs) =
     (if n \<le> length got then got
      else if c = [] then got
      else ipc_fill n (got @ take (n - length got) c) cs)"

text \<open>One accepted client: the frame the server logs as received, if any.\<close>

definition ipc_client :: "byte list list \<Rightarrow> byte list option" where
  "ipc_client cs =
    (let (hd4, cs1) = read_once 4 cs
     in if length hd4 \<noteq> 4 then None
        else let len = host_u32 hd4
          in if len = 0 \<or> len > 2 ^ 20 then None
             else let buf = ipc_fill (unat len) [] cs1
               in if length buf = unat len then Some buf else None)"

text \<open>
  The worker's loop: each element pairs the reading of \<open>running_\<close> with what \<open>accept\<close> gives (None
  when it fails); the result are the frames received.
\<close>

fun ipc_loop :: "(bool \<times> byte list list option) list \<Rightarrow> byte list list" where
  "ipc_loop [] = []"
| "ipc_loop ((run, client) # evs) =
    (if \<not> run then []
     else (case client of
         None \<Rightarrow> ipc_loop evs
       | Some cs \<Rightarrow> (case ipc_client cs of None \<Rightarrow> [] | Some p \<Rightarrow> [p]) @ ipc_loop evs))"

text \<open>
  The members of the server: the listening descriptor, the flag and whether \<open>worker_\<close> holds a
  thread. Assigning a new thread to one that is still joinable ends the process
  (\<open>std::terminate\<close>).
\<close>

record ipc_server =
  socketFd :: int
  ipc_running :: bool
  worker :: bool

definition ipc_new :: ipc_server where
  "ipc_new = \<lparr>socketFd = -1, ipc_running = False, worker = False\<rparr>"

datatype ipc_start_result = IpcStarted ipc_server | IpcFailed ipc_server | IpcTerminate

definition ipc_start :: "int \<Rightarrow> bool \<Rightarrow> bool \<Rightarrow> ipc_server \<Rightarrow> ipc_start_result" where
  "ipc_start sock bound listening s =
    (if sock < 0 then IpcFailed (s\<lparr>socketFd := sock\<rparr>)
     else if \<not> bound then IpcFailed (s\<lparr>socketFd := -1\<rparr>)
     else if \<not> listening then IpcFailed (s\<lparr>socketFd := -1\<rparr>)
     else if worker s then IpcTerminate
     else IpcStarted \<lparr>socketFd = sock, ipc_running = True, worker = True\<rparr>)"

text \<open>\<open>stop\<close>, after the worker has ended and been joined; the socket file is removed in every case.\<close>

definition ipc_stop :: "ipc_server \<Rightarrow> ipc_server" where
  "ipc_stop s = (let s1 = s\<lparr>ipc_running := False\<rparr>;
       s2 = (if socketFd s1 \<ge> 0 then s1\<lparr>socketFd := -1\<rparr> else s1)
     in if worker s2 then s2\<lparr>worker := False\<rparr> else s2)"

definition route :: "int \<Rightarrow> bool" where
  "route type = (if type \<in> {0x01, 0x02, 0x03, 0x04, 0x05, 0x0B} then True
     else if type = 0x10 then True else False)"

text \<open>\<open>buffer\<close> is None for a null pointer; \<open>sz\<close> (\<open>size\<close> in the source) is the caller's claim.\<close>

definition protobuf_handle :: "byte list option \<Rightarrow> int \<Rightarrow> bool" where
  "protobuf_handle buffer sz = (case buffer of
      None \<Rightarrow> False
    | Some bytes \<Rightarrow> if sz \<le> 0 then False else route (uint (bytes ! 0)))"

lemma ipc_fill_length: "length got \<le> n \<Longrightarrow> length (ipc_fill n got cs) \<le> n"
  by (induction n got cs rule: ipc_fill.induct) auto

lemma ipc_client_bound: "ipc_client cs = Some p \<Longrightarrow> 0 < length p \<and> length p \<le> 2 ^ 20"
  by (auto simp: ipc_client_def Let_def case_prod_beta unat_gt_0 unat_eq_0 not_less word_le_nat_alt split: if_splits)

lemma read_once_prefix:
  assumes "length (fst (read_once k cs)) = k"
  shows "fst (read_once k cs) = take k (concat cs)"
  using assms by (cases cs) auto

lemma host_u32_large:
  assumes "d \<noteq> 0"
  shows "2 ^ 24 \<le> host_u32 [a, b, c, d]"
proof -
  have "uint d \<ge> 1" using assms by (metis int_one_le_iff_zero_less less_le uint_0_iff uint_ge_0)
  then have "(2 ^ 24 :: u32) \<le> push_bit 24 (ucast d)"
    using uint_lt2p [of d]
    by (simp add: word_le_def push_bit_eq_mult uint_word_ariths unsigned_ucast_eq take_bit_eq_mod)
  also have "\<dots> \<le> host_u32 [a, b, c, d]" by (simp add: le_word_or2)
  finally show ?thesis .
qed

lemma ipc_loop_bound: "p \<in> set (ipc_loop evs) \<Longrightarrow> 0 < length p \<and> length p \<le> 2 ^ 20"
proof (induction evs rule: ipc_loop.induct)
  case (2 run client evs)
  have "p \<in> set (ipc_loop evs) \<or> (\<exists>cs. ipc_client cs = Some p)" using "2.prems" by (auto split: if_splits option.splits)
  then show ?case using "2.IH" "2.prems" ipc_client_bound by (auto split: if_splits option.splits)
qed simp

text \<open>A server can be stopped and started again, but a second start without a stop ends the process.\<close>

lemma ipc_restart:
  assumes "ipc_start fd True True s = IpcStarted s'" "0 \<le> fd2"
  shows "ipc_start fd2 True True s' = IpcTerminate"
    and "ipc_start fd2 True True (ipc_stop s') = IpcStarted \<lparr>socketFd = fd2, ipc_running = True, worker = True\<rparr>"
  using assms by (auto simp: ipc_start_def ipc_stop_def Let_def split: if_splits)

text \<open>
  The \<open>IpcServer\<close> does not speak the documented protocol: it uses the four length
  bytes without \<open>ntohl\<close>, so a frame in the documented big-endian format whose payload
  length is not a multiple of 256 is dropped, however it arrives.
\<close>

theorem ipc_server_drops_documented_frames:
  assumes "length p mod 256 \<noteq> 0" and "concat cs = encode_frame p"
  shows "ipc_client cs = None"
proof (cases "length (fst (read_once 4 cs)) = 4")
  case True
  let ?w = "of_nat (length p) :: u32"
  have h: "fst (read_once 4 cs) = be32 ?w"
    using read_once_prefix [OF True] assms(2) by (simp add: encode_frame_def)
  have "unat (ucast ?w :: byte) = length p mod 256"
    by (simp add: unsigned_ucast_eq unsigned_of_nat take_bit_eq_mod mod_mod_cancel)
  then have "(ucast ?w :: byte) \<noteq> 0" using assms(1) by (metis unsigned_0)
  then have "2 ^ 24 \<le> host_u32 (be32 ?w)" unfolding be32_def by (rule host_u32_large)
  then have "host_u32 (be32 ?w) > 2 ^ 20" by (rule less_le_trans [rotated]) simp
  then show ?thesis using h by (simp add: ipc_client_def case_prod_beta Let_def)
next
  case False
  then show ?thesis by (simp add: ipc_client_def case_prod_beta)
qed

theorem ipc_server_drops_documented_frames_witness:
  "ipc_client [[0, 0, 0, 5], [104, 101, 108, 108, 111]] = None"
  by (rule ipc_server_drops_documented_frames [of "[104, 101, 108, 108, 111]"])
    (simp_all add: encode_frame_def be32_def)

end
