(* ===== verification/RootRuntime.thy ===== *)
theory RootRuntime
  imports Prelude
begin

text \<open>
  The AstraRoot runtime (daemon/src/root): the namespace, overlay and boot managers, the
  lifecycle of \<open>RootRuntime\<close>, the holder process of \<open>NamespaceContext\<close>, and the command,
  mount and file managers behind the \<open>AstraRoot\<close> facade. The kernel is in two parts: what
  its calls answer (the record \<open>rkernel\<close>, free to change between calls) and the effect of
  the calls that succeed (the mount table of \<open>world\<close>).
\<close>

section \<open>The kernel\<close>

record rkernel =
  rk_unshare :: bool
  rk_mkdir :: "string \<Rightarrow> bool"
  rk_mount :: "string \<Rightarrow> bool"
  rk_umount :: "string \<Rightarrow> bool"
  rk_getpid :: int
  rk_exists :: "string \<Rightarrow> bool option"  \<comment> \<open>\<open>std::filesystem::exists\<close>, None when it throws\<close>

text \<open>Mounts newest first, as target and option string; and the number of unshared namespaces.\<close>

record world =
  w_mounts :: "(string \<times> string) list"
  w_namespaces :: nat
  w_root_private :: bool

definition do_mount :: "rkernel \<Rightarrow> string \<Rightarrow> string \<Rightarrow> world \<Rightarrow> bool \<times> world" where
  "do_mount k target opts w =
     (if rk_mount k target then (True, w\<lparr>w_mounts := (target, opts) # w_mounts w\<rparr>) else (False, w))"

text \<open>\<open>umount\<close> takes the newest mount off the target and fails when there is none.\<close>

fun unstack :: "string \<Rightarrow> (string \<times> string) list \<Rightarrow> (string \<times> string) list" where
  "unstack t [] = []"
| "unstack t (m # ms) = (if fst m = t then ms else m # unstack t ms)"

definition mounted :: "string \<Rightarrow> world \<Rightarrow> nat" where
  "mounted t w = length (filter (\<lambda>m. fst m = t) (w_mounts w))"

definition do_umount :: "rkernel \<Rightarrow> string \<Rightarrow> world \<Rightarrow> bool \<times> world" where
  "do_umount k t w =
     (if rk_umount k t \<and> 0 < mounted t w then (True, w\<lparr>w_mounts := unstack t (w_mounts w)\<rparr>)
      else (False, w))"

section \<open>The managers\<close>

text \<open>\<open>namespace_pid_\<close>, -1 for none.\<close>

definition ns_create :: "rkernel \<Rightarrow> int \<Rightarrow> world \<Rightarrow> bool \<times> int \<times> world" where
  "ns_create k ns w =
    (if \<not> rk_unshare k then (False, ns, w)
     else (True, rk_getpid k, w\<lparr>w_namespaces := Suc (w_namespaces w), w_root_private := rk_mount k ''/''\<rparr>))"

definition ns_enter :: "int \<Rightarrow> bool" where
  "ns_enter ns = (ns \<noteq> -1)"

definition ns_destroy :: "int \<Rightarrow> bool \<times> int" where
  "ns_destroy ns = (True, -1)"

record overlay_config =
  lowerdir :: string
  upperdir :: string
  workdir :: string
  merged :: string

definition build_options :: "overlay_config \<Rightarrow> string" where
  "build_options cfg =
     ''lowerdir='' @ lowerdir cfg @ '',upperdir='' @ upperdir cfg @ '',workdir='' @ workdir cfg"

definition build_overlay_config :: "string \<Rightarrow> overlay_config" where
  "build_overlay_config name =
    \<lparr>lowerdir = ''/'' @ name,
     upperdir = ''/data/astra/overlay/'' @ name @ ''/upper'',
     workdir = ''/data/astra/overlay/'' @ name @ ''/work'',
     merged = ''/mnt/astra/'' @ name\<rparr>"

definition overlay_mount :: "rkernel \<Rightarrow> overlay_config \<Rightarrow> world \<Rightarrow> bool \<times> world" where
  "overlay_mount k cfg w =
    (if \<not> rk_mkdir k (upperdir cfg) \<or> \<not> rk_mkdir k (workdir cfg) \<or> \<not> rk_mkdir k (merged cfg) then (False, w)
     else do_mount k (merged cfg) (build_options cfg) w)"

definition mount_partition :: "rkernel \<Rightarrow> string \<Rightarrow> world \<Rightarrow> bool \<times> world" where
  "mount_partition k name w = overlay_mount k (build_overlay_config name) w"

definition overlay_unmount :: "rkernel \<Rightarrow> string \<Rightarrow> world \<Rightarrow> bool \<times> world" where
  "overlay_unmount k target w = do_umount k target w"

datatype boot_image = UNKNOWN | BOOT_IMG | VENDOR_BOOT | INIT_BOOT

definition boot_detect :: "(string \<Rightarrow> bool option) \<Rightarrow> boot_image option" where
  "boot_detect has =
    (case has ''/dev/block/by-name/init_boot'' of
       None \<Rightarrow> None
     | Some True \<Rightarrow> Some INIT_BOOT
     | Some False \<Rightarrow>
         (case has ''/dev/block/by-name/vendor_boot'' of
            None \<Rightarrow> None
          | Some True \<Rightarrow> Some VENDOR_BOOT
          | Some False \<Rightarrow>
              (case has ''/dev/block/by-name/boot'' of
                 None \<Rightarrow> None
               | Some True \<Rightarrow> Some BOOT_IMG
               | Some False \<Rightarrow> Some UNKNOWN)))"

definition boot_patch :: "(string \<Rightarrow> bool option) \<Rightarrow> bool option" where
  "boot_patch has = (case boot_detect has of
      None \<Rightarrow> None
    | Some img \<Rightarrow> if img = UNKNOWN then Some False else Some True)"

definition boot_restore :: bool where
  "boot_restore = True"

section \<open>The lifecycle\<close>

text \<open>The managers are \<open>unique_ptr\<close>s: None, or the object (for the namespace, its pid).\<close>

record root_runtime =
  rt_initialized :: bool
  rt_prepared :: bool
  rt_ns :: "int option"
  rt_overlay :: bool
  rt_boot :: bool

definition new_runtime :: root_runtime where
  "new_runtime = \<lparr>rt_initialized = False, rt_prepared = False, rt_ns = None, rt_overlay = False, rt_boot = False\<rparr>"

definition rr_prepare :: "root_runtime \<Rightarrow> bool \<times> root_runtime" where
  "rr_prepare rt = (if rt_prepared rt then (True, rt) else (True, rt\<lparr>rt_prepared := True\<rparr>))"

text \<open>
  \<open>start\<close>: its result is None when the detection of the boot image throws, after the overlays are mounted and
  before the runtime is marked as initialized.
\<close>

definition rr_start :: "rkernel \<Rightarrow> root_runtime \<Rightarrow> world \<Rightarrow> bool option \<times> root_runtime \<times> world" where
  "rr_start k rt w =
    (if rt_initialized rt then (Some True, rt, w)
     else
       (let rt1 = (if rt_prepared rt then rt else snd (rr_prepare rt));
            rt2 = rt1\<lparr>rt_ns := Some (-1), rt_overlay := True, rt_boot := True\<rparr>;
            (ok, pid, w1) = ns_create k (-1) w
        in if \<not> ok then (Some False, rt2, w1)
           else
             (let rt3 = rt2\<lparr>rt_ns := Some pid\<rparr>;
                  w2 = snd (mount_partition k ''system'' w1);
                  w3 = snd (mount_partition k ''vendor'' w2)
              in case boot_detect (rk_exists k) of
                   None \<Rightarrow> (None, rt3, w3)
                 | Some img \<Rightarrow> (Some True, rt3\<lparr>rt_initialized := True\<rparr>, w3))))"

definition rr_stop :: "rkernel \<Rightarrow> root_runtime \<Rightarrow> world \<Rightarrow> bool \<times> root_runtime \<times> world" where
  "rr_stop k rt w =
    (if \<not> rt_initialized rt then (True, rt, w)
     else
       (let w1 = (if rt_overlay rt then
              snd (overlay_unmount k ''/mnt/astra/vendor'' (snd (overlay_unmount k ''/mnt/astra/system'' w)))
              else w)
        in (True, rt\<lparr>rt_overlay := False, rt_ns := None, rt_boot := False, rt_initialized := False, rt_prepared := False\<rparr>, w1)))"

text \<open>The kernel may answer differently during the stop and the restart.\<close>

definition rr_recover :: "rkernel \<Rightarrow> rkernel \<Rightarrow> root_runtime \<Rightarrow> world \<Rightarrow> bool option \<times> root_runtime \<times> world" where
  "rr_recover k1 k2 rt w =
    (let (_, rt1, w1) = rr_stop k1 rt w in rr_start k2 rt1 w1)"

definition rr_ready :: "root_runtime \<Rightarrow> bool" where
  "rr_ready rt = rt_initialized rt"

text \<open>Any sequence of calls, with any answers of the kernel; after a call that throws the object can be used again.\<close>

inductive rr_steps :: "(rkernel \<Rightarrow> bool) \<Rightarrow> root_runtime \<times> world \<Rightarrow> root_runtime \<times> world \<Rightarrow> bool"
  for P where
  rr_refl: "rr_steps P s s"
| rr_prep: "rr_steps P s (rt, w) \<Longrightarrow> rr_prepare rt = (ok, rt') \<Longrightarrow> rr_steps P s (rt', w)"
| rr_strt: "rr_steps P s (rt, w) \<Longrightarrow> P k \<Longrightarrow> rr_start k rt w = (ok, rt', w') \<Longrightarrow> rr_steps P s (rt', w')"
| rr_stp: "rr_steps P s (rt, w) \<Longrightarrow> P k \<Longrightarrow> rr_stop k rt w = (ok, rt', w') \<Longrightarrow> rr_steps P s (rt', w')"
| rr_rec: "rr_steps P s (rt, w) \<Longrightarrow> P k1 \<Longrightarrow> P k2 \<Longrightarrow> rr_recover k1 k2 rt w = (ok, rt', w') \<Longrightarrow>
    rr_steps P s (rt', w')"

definition rr_inv :: "root_runtime \<Rightarrow> bool" where
  "rr_inv rt \<longleftrightarrow> (rt_initialized rt \<longrightarrow> rt_prepared rt \<and> rt_ns rt \<noteq> None \<and> rt_overlay rt \<and> rt_boot rt)"

text \<open>At most the overlays of one start are mounted, and none when the runtime is down.\<close>

definition balanced :: "root_runtime \<times> world \<Rightarrow> bool" where
  "balanced s \<longleftrightarrow> (\<forall>t\<in>{''/mnt/astra/system'', ''/mnt/astra/vendor''}.
     mounted t (snd s) \<le> (if rt_initialized (fst s) then 1 else 0))"

lemma mounted_do_mount:
  "mounted t (snd (do_mount k t' opts w)) = mounted t w + (if rk_mount k t' \<and> t' = t then 1 else 0)"
  by (cases "t' = t") (simp_all add: do_mount_def mounted_def)

lemma unstack_count:
  "length (filter (\<lambda>m. fst m = t) (unstack t' ms)) =
     length (filter (\<lambda>m. fst m = t) ms) - (if t' = t then 1 else 0)"
  by (induction ms) auto

lemma mounted_do_umount:
  "mounted t (snd (do_umount k t' w)) = mounted t w - (if rk_umount k t' \<and> t' = t then 1 else 0)"
  by (auto simp: do_umount_def mounted_def unstack_count)

lemma mounted_partition_le:
  "mounted t (snd (mount_partition k n w)) \<le> mounted t w + (if ''/mnt/astra/'' @ n = t then 1 else 0)"
  by (simp add: mount_partition_def overlay_mount_def mounted_do_mount build_overlay_config_def)

lemma mounted_ns [simp]: "mounted t (w\<lparr>w_namespaces := n, w_root_private := b\<rparr>) = mounted t w"
  by (simp add: mounted_def)

lemma balanced_start:
  assumes "balanced (rt, w)" "boot_detect (rk_exists k) \<noteq> None" "rr_start k rt w = (ok, rt', w')"
  shows "balanced (rt', w')"
proof (cases "rt_initialized rt \<or> \<not> rk_unshare k")
  case True
  then show ?thesis
    using assms by (auto simp: rr_start_def ns_create_def rr_prepare_def balanced_def Let_def split: if_splits)
next
  case False
  let ?w1 = "w\<lparr>w_namespaces := Suc (w_namespaces w), w_root_private := rk_mount k ''/''\<rparr>"
  have w': "w' = snd (mount_partition k ''vendor'' (snd (mount_partition k ''system'' ?w1)))" and i: "rt_initialized rt'"
    using assms(2,3) False by (auto simp: rr_start_def ns_create_def Let_def)
  have "mounted t w' \<le> 1" if "t \<in> {''/mnt/astra/system'', ''/mnt/astra/vendor''}" for t
    using mounted_partition_le [of t k "''vendor''" "snd (mount_partition k ''system'' ?w1)"]
      mounted_partition_le [of t k "''system''" ?w1] assms(1) False that
    by (auto simp: w' balanced_def)
  then show ?thesis using i by (simp add: balanced_def)
qed

lemma balanced_stop:
  assumes "balanced (rt, w)" "rr_inv rt" "\<And>t. rk_umount k t" "rr_stop k rt w = (ok, rt', w')"
  shows "balanced (rt', w')"
  using assms
  by (auto simp: rr_stop_def rr_inv_def balanced_def overlay_unmount_def mounted_do_umount Let_def split: if_splits)

lemma rr_inv_start: "rr_inv rt \<Longrightarrow> rr_start k rt w = (ok, rt', w') \<Longrightarrow> rr_inv rt' \<and> (ok = Some True) = rt_initialized rt'"
  by (auto simp: rr_start_def rr_inv_def rr_prepare_def ns_create_def Let_def split: if_splits option.splits)

lemma rr_inv_stop: "rr_stop k rt w = (ok, rt', w') \<Longrightarrow> rr_inv rt' \<and> ok \<and> \<not> rt_initialized rt'"
  by (auto simp: rr_stop_def rr_inv_def Let_def split: if_splits)

lemma rr_steps_inv: "rr_steps P s s' \<Longrightarrow> rr_inv (fst s) \<Longrightarrow> rr_inv (fst s')"
proof (induction rule: rr_steps.induct)
  case (rr_prep s rt w ok rt')
  then show ?case by (auto simp: rr_prepare_def rr_inv_def split: if_splits)
next
  case (rr_rec s rt w k1 k2 ok rt' w')
  obtain ok1 rt1 w1 where st: "rr_stop k1 rt w = (ok1, rt1, w1)" by (cases "rr_stop k1 rt w") auto
  then have "rr_start k2 rt1 w1 = (ok, rt', w')" using rr_rec(4) by (simp add: rr_recover_def)
  moreover have "rr_inv rt1" using rr_inv_stop [OF st] by blast
  ultimately show ?case using rr_inv_start by fastforce
qed (auto dest: rr_inv_start rr_inv_stop)

text \<open>
  The runtime's lifecycle: after any sequence of \<open>prepare\<close>, \<open>start\<close>, \<open>stop\<close> and
  \<open>recover\<close>, whatever the kernel answered, a runtime that reports ready has all three
  managers and was prepared; and \<open>stop\<close> always succeeds and leaves it not ready.
\<close>

theorem runtime_lifecycle:
  assumes "rr_steps P (new_runtime, w0) (rt, w)"
  shows "(rr_ready rt \<longrightarrow> rt_prepared rt \<and> rt_ns rt \<noteq> None \<and> rt_overlay rt \<and> rt_boot rt) \<and>
    (case rr_stop k rt w of (ok, rt', w') \<Rightarrow> ok \<and> \<not> rr_ready rt')"
proof -
  have "rr_inv rt" using rr_steps_inv [OF assms] by (simp add: rr_inv_def new_runtime_def)
  then show ?thesis
    using rr_inv_stop [of k rt w] by (auto simp: rr_ready_def rr_inv_def split: prod.splits)
qed

definition good_kernel :: rkernel where
  "good_kernel = \<lparr>rk_unshare = True, rk_mkdir = (\<lambda>_. True), rk_mount = (\<lambda>_. True), rk_umount = (\<lambda>_. True),
     rk_getpid = 77, rk_exists = (\<lambda>_. Some False)\<rparr>"

definition fresh_world :: world where
  "fresh_world = \<lparr>w_mounts = [], w_namespaces = 0, w_root_private = False\<rparr>"

definition started :: "bool option \<times> root_runtime \<times> world" where
  "started = rr_start good_kernel new_runtime fresh_world"

lemma started_steps: "P good_kernel \<Longrightarrow> rr_steps P (new_runtime, fresh_world) (snd started)"
proof -
  assume p: "P good_kernel"
  obtain ok rt w where s: "rr_start good_kernel new_runtime fresh_world = (ok, rt, w)"
    by (cases "rr_start good_kernel new_runtime fresh_world") auto
  have "rr_steps P (new_runtime, fresh_world) (rt, w)"
    using rr_refl p s by (rule rr_strt)
  then show ?thesis by (simp add: started_def s)
qed

theorem runtime_lifecycle_witness:
  "rt_prepared (fst (snd started)) \<and> rt_ns (fst (snd started)) \<noteq> None \<and>
    rt_overlay (fst (snd started)) \<and> rt_boot (fst (snd started)) \<and>
    (case rr_stop good_kernel (fst (snd started)) (snd (snd started)) of (ok, rt', w') \<Rightarrow> ok \<and> \<not> rr_ready rt')"
proof -
  have "rr_ready (fst (snd started))" by code_simp
  moreover have "rr_steps (\<lambda>_. True) (new_runtime, fresh_world) (fst (snd started), snd (snd started))"
    by (simp add: started_steps)
  ultimately show ?thesis
    using runtime_lifecycle [of "\<lambda>_. True" fresh_world "fst (snd started)" "snd (snd started)" good_kernel] by simp
qed

lemma rr_steps_balanced:
  "rr_steps P s s' \<Longrightarrow> (\<And>k t. P k \<Longrightarrow> rk_umount k t \<and> boot_detect (rk_exists k) \<noteq> None) \<Longrightarrow> rr_inv (fst s) \<Longrightarrow> balanced s \<Longrightarrow> balanced s'"
proof (induction rule: rr_steps.induct)
  case (rr_prep s rt w ok rt')
  then show ?case by (auto simp: rr_prepare_def balanced_def split: if_splits)
next
  case (rr_strt s rt w k ok rt' w')
  then show ?case using balanced_start by blast
next
  case (rr_stp s rt w k ok rt' w')
  then have "rr_inv rt" using rr_steps_inv [OF rr_stp(1)] by simp
  then show ?case using balanced_stop [OF _ _ _ rr_stp(3)] rr_stp by blast
next
  case (rr_rec s rt w k1 k2 ok rt' w')
  then have inv: "rr_inv rt" using rr_steps_inv [OF rr_rec(1)] by simp
  obtain ok1 rt1 w1 where st: "rr_stop k1 rt w = (ok1, rt1, w1)" by (cases "rr_stop k1 rt w") auto
  have "balanced (rt1, w1)" using balanced_stop [OF _ inv _ st] rr_rec by blast
  moreover have "boot_detect (rk_exists k2) \<noteq> None" using rr_rec by blast
  moreover have "rr_start k2 rt1 w1 = (ok, rt', w')" using rr_rec(4) st by (simp add: rr_recover_def)
  ultimately show ?case by (rule balanced_start)
qed

text \<open>
  C33. The overlays over the life of the runtime. As long as \<open>umount\<close> of a mounted overlay succeeds and the detection
  of the boot image does not throw, after any sequence of calls from a fresh runtime the system and vendor views
  are mounted at most once each, and not at all when the runtime is not ready. A start that gets its namespace and
  whose detection throws leaves, on a kernel that mounts, both views mounted on a runtime that is not ready,
  and \<open>stop\<close> then does nothing.
\<close>

theorem overlays_balanced:
  assumes "rr_steps P (new_runtime, w0) (rt, w)" and "\<And>k t. P k \<Longrightarrow> rk_umount k t \<and> boot_detect (rk_exists k) \<noteq> None"
    and "mounted ''/mnt/astra/system'' w0 = 0" "mounted ''/mnt/astra/vendor'' w0 = 0"
  shows "mounted ''/mnt/astra/system'' w \<le> (if rr_ready rt then 1 else 0) \<and>
    mounted ''/mnt/astra/vendor'' w \<le> (if rr_ready rt then 1 else 0) \<and>
    (\<forall>q k' rt1 w1. rk_unshare q \<and> rk_mkdir q = (\<lambda>_. True) \<and> rk_mount q = (\<lambda>_. True) \<and> boot_detect (rk_exists q) = None \<longrightarrow>
       rr_start q new_runtime w0 = (None, rt1, w1) \<longrightarrow>
       \<not> rr_ready rt1 \<and> mounted ''/mnt/astra/system'' w1 = 1 \<and> mounted ''/mnt/astra/vendor'' w1 = 1 \<and>
       rr_stop k' rt1 w1 = (True, rt1, w1)) \<and>
    (\<forall>q. rk_unshare q \<longrightarrow> (fst (rr_start q new_runtime w0) = None) = (boot_detect (rk_exists q) = None))"
proof -
  have "balanced (rt, w)"
    using rr_steps_balanced [OF assms(1,2)] assms(3,4) by (auto simp: balanced_def new_runtime_def rr_inv_def)
  then have "mounted ''/mnt/astra/system'' w \<le> (if rr_ready rt then 1 else 0) \<and>
    mounted ''/mnt/astra/vendor'' w \<le> (if rr_ready rt then 1 else 0)" by (simp add: balanced_def rr_ready_def)
  then show ?thesis
    using assms(3,4)
    by (auto simp: rr_start_def new_runtime_def rr_prepare_def ns_create_def rr_ready_def rr_stop_def mount_partition_def
        overlay_mount_def mounted_do_mount build_overlay_config_def Let_def split: option.splits)
qed

definition failing_kernel :: rkernel where
  "failing_kernel = good_kernel\<lparr>rk_exists := (\<lambda>_. None)\<rparr>"

theorem overlays_balanced_witness:
  "mounted ''/mnt/astra/system'' (snd (snd started)) \<le> (if rr_ready (fst (snd started)) then 1 else 0) \<and>
    mounted ''/mnt/astra/vendor'' (snd (snd started)) \<le> (if rr_ready (fst (snd started)) then 1 else 0) \<and>
    fst (rr_start failing_kernel new_runtime fresh_world) = None \<and>
    mounted ''/mnt/astra/system'' (snd (snd (rr_start failing_kernel new_runtime fresh_world))) = 1"
proof -
  have s: "rr_steps (\<lambda>k. k = good_kernel) (new_runtime, fresh_world) (fst (snd started), snd (snd started))"
    by (simp add: started_steps)
  have q: "rk_unshare failing_kernel" "rk_mkdir failing_kernel = (\<lambda>_. True)" "rk_mount failing_kernel = (\<lambda>_. True)"
    "boot_detect (rk_exists failing_kernel) = None"
    by (simp_all add: failing_kernel_def good_kernel_def boot_detect_def)
  have "k = good_kernel \<Longrightarrow> rk_umount k t \<and> boot_detect (rk_exists k) \<noteq> None" for k t
    by (simp add: good_kernel_def boot_detect_def)
  note all = overlays_balanced [OF s this]
  obtain rt1 w1 where "rr_start failing_kernel new_runtime fresh_world = (None, rt1, w1)"
    using all q by (cases "rr_start failing_kernel new_runtime fresh_world") (auto simp: fresh_world_def mounted_def)
  with all q show ?thesis by (simp add: fresh_world_def mounted_def)
qed

text \<open>
  \<open>stop\<close> ignores a failed \<open>umount\<close> (a busy mount point): the recovery of a running runtime
  then stacks a second overlay on the first and still reports success.
\<close>

definition busy_kernel :: rkernel where
  "busy_kernel = good_kernel\<lparr>rk_umount := (\<lambda>_. False)\<rparr>"

lemma recover_leaks_when_busy:
  "(case rr_recover busy_kernel good_kernel (fst (snd started)) (snd (snd started)) of
     (ok, rt, w) \<Rightarrow> ok = Some True \<and> rr_ready rt \<and> mounted ''/mnt/astra/system'' w = 2)"
  by code_simp

end
