(* ===== verification/RootFacade.thy ===== *)
theory RootFacade
  imports RootRuntime
begin

text \<open>
  The operations behind the \<open>AstraRoot\<close> facade (daemon/src/root): \<open>CommandRuntime\<close> and
  \<open>NamespaceExecutor\<close>, \<open>FileManager\<close>, \<open>MountManager\<close>, the hooks, the holder process of
  \<open>NamespaceContext\<close>, and \<open>AstraRoot\<close> itself, which refuses every operation before
  \<open>initialize\<close>. Files are a map from paths to contents.
\<close>

section \<open>Commands\<close>

record command_result =
  cr_success :: bool
  cr_exit_code :: int
  cr_output :: string

definition default_result :: command_result where
  "default_result = \<lparr>cr_success = False, cr_exit_code = -1, cr_output = []\<rparr>"

definition command_execute :: "host \<Rightarrow> string \<Rightarrow> command_result" where
  "command_execute h command = (case h_popen h (c_str command) of
      None \<Rightarrow> default_result
    | Some (out, status) \<Rightarrow>
        \<lparr>cr_success = (status = 0), cr_exit_code = status, cr_output = fgets_all out\<rparr>)"

definition enter_namespace :: bool where
  "enter_namespace = True"

definition namespace_execute :: "host \<Rightarrow> string \<Rightarrow> command_result" where
  "namespace_execute h command =
    (if \<not> enter_namespace then default_result\<lparr>cr_output := ''namespace unavailable''\<rparr>
     else command_execute h command)"

section \<open>Files and mounts\<close>

type_synonym files = "string \<rightharpoonup> string"

text \<open>What the file system lets the daemon open, write completely, and remove.\<close>

record file_sys =
  fs_open_read :: "string \<Rightarrow> bool"
  fs_open_write :: "string \<Rightarrow> bool"
  fs_write_good :: "string \<Rightarrow> bool"
  fs_partial :: "string \<Rightarrow> nat"
  fs_remove :: "string \<Rightarrow> bool"

definition file_read :: "file_sys \<Rightarrow> files \<Rightarrow> string \<Rightarrow> string option" where
  "file_read sys fs path = (if fs_open_read sys path then fs path else None)"

text \<open>
  Opening truncates; a write that does not end good leaves the prefix the file system
  took.
\<close>

definition file_write :: "file_sys \<Rightarrow> files \<Rightarrow> string \<Rightarrow> string \<Rightarrow> bool \<times> files" where
  "file_write sys fs path data =
    (if \<not> fs_open_write sys path then (False, fs)
     else if fs_write_good sys path then (True, fs(path \<mapsto> data))
     else (False, fs(path \<mapsto> take (fs_partial sys path) data)))"

definition file_remove :: "file_sys \<Rightarrow> files \<Rightarrow> string \<Rightarrow> bool \<times> files" where
  "file_remove sys fs path =
    (if fs path \<noteq> None \<and> fs_remove sys path then (True, fs(path := None)) else (False, fs))"

definition bind_mount :: "rkernel \<Rightarrow> string \<Rightarrow> string \<Rightarrow> world \<Rightarrow> bool \<times> world" where
  "bind_mount k source target w = do_mount k target (''bind='' @ source) w"

definition bind_umount :: "rkernel \<Rightarrow> string \<Rightarrow> world \<Rightarrow> bool \<times> world" where
  "bind_umount k target w = do_umount k target w"

section \<open>The facade\<close>

record astra_root =
  ar_ready :: bool
  ar_files :: files
  ar_world :: world

definition ar_initialize :: "astra_root \<Rightarrow> bool \<times> astra_root" where
  "ar_initialize r = (True, r\<lparr>ar_ready := True\<rparr>)"

definition ar_execute :: "host \<Rightarrow> astra_root \<Rightarrow> string \<Rightarrow> command_result" where
  "ar_execute h r command =
    (if \<not> ar_ready r then default_result\<lparr>cr_output := ''AstraRoot not initialized''\<rparr>
     else command_execute h command)"

definition ar_mount :: "rkernel \<Rightarrow> astra_root \<Rightarrow> string \<Rightarrow> string \<Rightarrow> bool \<times> astra_root" where
  "ar_mount k r source target =
    (if \<not> ar_ready r then (False, r)
     else let (ok, w) = bind_mount k source target (ar_world r) in (ok, r\<lparr>ar_world := w\<rparr>))"

definition ar_umount :: "rkernel \<Rightarrow> astra_root \<Rightarrow> string \<Rightarrow> bool \<times> astra_root" where
  "ar_umount k r target =
    (if \<not> ar_ready r then (False, r)
     else let (ok, w) = bind_umount k target (ar_world r) in (ok, r\<lparr>ar_world := w\<rparr>))"

definition ar_read_file :: "file_sys \<Rightarrow> astra_root \<Rightarrow> string \<Rightarrow> string option" where
  "ar_read_file sys r path = (if \<not> ar_ready r then None else file_read sys (ar_files r) path)"

definition ar_write_file :: "file_sys \<Rightarrow> astra_root \<Rightarrow> string \<Rightarrow> string \<Rightarrow> bool \<times> astra_root" where
  "ar_write_file sys r path data =
    (if \<not> ar_ready r then (False, r)
     else let (ok, fs) = file_write sys (ar_files r) path data in (ok, r\<lparr>ar_files := fs\<rparr>))"

section \<open>The namespace holder\<close>

text \<open>
  The context and the daemon's children that were forked to hold a namespace. A child holds it until
  it is killed; one whose \<open>unshare\<close> fails has exited and waits to be reaped.
\<close>

datatype child_state = Holding | Exited

record ns_context =
  namespace_pid :: int
  holders :: "(int \<times> child_state) list"

definition ctx_init :: ns_context where
  "ctx_init = \<lparr>namespace_pid = -1, holders = []\<rparr>"

text \<open>
  \<open>fork\<close> gives the parent the child's pid, or fails. The child's own \<open>unshare\<close> is not
  awaited: \<open>create\<close> reports success as soon as the fork does.
\<close>

definition ctx_create :: "int option \<Rightarrow> bool \<Rightarrow> ns_context \<Rightarrow> bool \<times> ns_context" where
  "ctx_create fork_result unshare_ok ctx = (case fork_result of
      None \<Rightarrow> (False, ctx)
    | Some child \<Rightarrow> (True, ctx\<lparr>namespace_pid := child,
        holders := holders ctx @ [(child, if unshare_ok then Holding else Exited)]\<rparr>))"

definition ctx_isolate_mount :: "ns_context \<Rightarrow> bool" where
  "ctx_isolate_mount ctx = (if namespace_pid ctx < 0 then False else True)"

definition ctx_switch :: "ns_context \<Rightarrow> bool" where
  "ctx_switch ctx = (if namespace_pid ctx < 0 then False else True)"

text \<open>
  The destructor sends SIGTERM to the last child and reaps it; None when \<open>waitpid\<close> does not return.
  A child that was forked after the socket server installed its handler (\<open>trapped\<close>) runs the
  handler and goes on sleeping.
\<close>

definition ctx_destroy :: "bool \<Rightarrow> ns_context \<Rightarrow> ns_context option" where
  "ctx_destroy trapped ctx =
    (if namespace_pid ctx > 0 then
       (case map_of (holders ctx) (namespace_pid ctx) of
          Some Holding \<Rightarrow> if trapped then None
            else Some (ctx\<lparr>holders := filter (\<lambda>(p, _). p \<noteq> namespace_pid ctx) (holders ctx)\<rparr>)
        | _ \<Rightarrow> Some (ctx\<lparr>holders := filter (\<lambda>(p, _). p \<noteq> namespace_pid ctx) (holders ctx)\<rparr>))
     else Some ctx)"

section \<open>Properties\<close>

text \<open>
  Command output is captured whole: for a command the shell could start, whose output
  has no NUL byte, \<open>CommandRuntime\<close> returns exactly that output (whatever its length or
  lines), success exactly for status 0, and as \<open>exit_code\<close> the raw wait status (an exit
  code of 1 is reported as 256).
\<close>

theorem command_output_whole:
  assumes "h_popen h (c_str cmd) = Some (out, status)" and "CHR 0x00 \<notin> set out"
  shows "ar_execute h (snd (ar_initialize r)) cmd =
    \<lparr>cr_success = (status = 0), cr_exit_code = status, cr_output = out\<rparr>"
  using assms by (simp add: ar_execute_def ar_initialize_def command_execute_def fgets_all_id)

definition shell_host :: host where
  "shell_host = bare_host\<lparr>h_popen := (\<lambda>c. Some (''uid=0'' @ [nl], 256))\<rparr>"

theorem command_output_whole_witness:
  "ar_execute shell_host (snd (ar_initialize \<lparr>ar_ready = False, ar_files = Map.empty, ar_world = fresh_world\<rparr>)) ''id'' =
    \<lparr>cr_success = ((256::int) = 0), cr_exit_code = 256, cr_output = ''uid=0'' @ [nl]\<rparr>"
  by (rule command_output_whole) (simp_all add: shell_host_def nl_def)

text \<open>
  The facade's files: before \<open>initialize\<close> every operation fails and changes nothing;
  afterwards a successful write is what the next read of the path returns, and no other
  path is affected.
\<close>

theorem facade_files:
  "(\<not> ar_ready r \<longrightarrow> ar_write_file sys r p d = (False, r) \<and> ar_read_file sys r q = None \<and>
      ar_mount k r s t = (False, r) \<and> ar_umount k r t = (False, r) \<and> \<not> cr_success (ar_execute h r c)) \<and>
   (ar_write_file sys r p d = (True, r') \<longrightarrow> fs_open_read sys p \<longrightarrow>
      ar_read_file sys r' p = Some d \<and> (q \<noteq> p \<longrightarrow> ar_read_file sys r' q = ar_read_file sys r q))"
  by (auto simp: ar_write_file_def ar_read_file_def ar_mount_def ar_umount_def ar_execute_def
      default_result_def file_write_def file_read_def split: if_splits)

definition open_sys :: file_sys where
  "open_sys = \<lparr>fs_open_read = (\<lambda>_. True), fs_open_write = (\<lambda>_. True), fs_write_good = (\<lambda>_. True), fs_partial = (\<lambda>_. 0),
     fs_remove = (\<lambda>_. True)\<rparr>"

definition ready_root :: astra_root where
  "ready_root = \<lparr>ar_ready = True, ar_files = Map.empty, ar_world = fresh_world\<rparr>"

theorem facade_files_witness:
  "ar_read_file open_sys (snd (ar_write_file open_sys ready_root ''/f'' ''x'')) ''/f'' = Some ''x'' \<and>
   (''/g'' \<noteq> ''/f'' \<longrightarrow> ar_read_file open_sys (snd (ar_write_file open_sys ready_root ''/f'' ''x'')) ''/g'' =
      ar_read_file open_sys ready_root ''/g'')"
proof -
  have w: "ar_write_file open_sys ready_root ''/f'' ''x'' =
      (True, snd (ar_write_file open_sys ready_root ''/f'' ''x''))"
    by (simp add: ar_write_file_def file_write_def open_sys_def ready_root_def)
  have o: "fs_open_read open_sys ''/f''" by (simp add: open_sys_def)
  show ?thesis
    using facade_files [of ready_root open_sys "''/f''" "''x''" "''/g''"] w o by blast
qed

text \<open>
  The life of a holder: created once in a process without the server's signal handler it is reaped
  with the context, whether or not its \<open>unshare\<close> worked; a second \<open>create\<close> forgets the first
  child, which is never killed; and in the daemon, whose children inherit the handler, the
  destructor waits for ever.
\<close>

theorem holder_life:
  assumes "0 < c" "0 < c'" "c' \<noteq> c"
  shows "map_option holders (ctx_destroy False (snd (ctx_create (Some c) ok ctx_init))) = Some [] \<and>
    map_option holders (ctx_destroy False (snd (ctx_create (Some c') ok' (snd (ctx_create (Some c) True ctx_init))))) = Some [(c, Holding)] \<and>
    ctx_destroy True (snd (ctx_create (Some c) True ctx_init)) = None"
  using assms by (auto simp: ctx_create_def ctx_init_def ctx_destroy_def)

theorem holder_life_witness:
  "map_option holders (ctx_destroy False (snd (ctx_create (Some 7) False ctx_init))) = Some [] \<and>
    map_option holders (ctx_destroy False (snd (ctx_create (Some 8) True (snd (ctx_create (Some 7) True ctx_init))))) = Some [(7, Holding)] \<and>
    ctx_destroy True (snd (ctx_create (Some 7) True ctx_init)) = None"
  by (rule holder_life) simp_all

end
