(* ===== verification/Provider.thy ===== *)
theory Provider
  imports Capability RootRuntime
begin

text \<open>
  Root providers and what is built on them: the five \<open>RootProvider\<close> classes
  (daemon/src/provider), the priority order of \<open>ProviderManager::initialize\<close>, the
  \<open>ProviderRegistry\<close>, the \<open>PermissionService\<close>, the \<open>CapabilityDetector\<close>, the text
  protocol of \<open>RequestHandler\<close>, the policy bridge to the Rust engine
  (security_bridge/policy_bridge.cpp) and the \<open>ExecutionPipeline\<close>. The three marker providers and the detector
  call \<open>std::filesystem::exists\<close>, which can throw; an exception is None, and nothing here catches one.
\<close>

section \<open>Root providers\<close>

datatype root_type = NONE | MAGISK | KERNELSU | APATCH | ASTRA_ROOT_TYPE

text \<open>A provider object: the four stateless classes, or AstraRoot with its runtime.\<close>

datatype root_provider =
    NoRootProvider
  | MagiskProvider
  | KernelSUProvider
  | APatchProvider
  | AstraRootProvider bool root_runtime

text \<open>
  What a class implements of the interface: its virtual methods, one record value per class.
  \<open>pc_output\<close> is the output \<open>execute\<close> stores when the provider is available (each class
  checks \<open>available()\<close> first and fails otherwise).
\<close>

record provider_class =
  pc_type :: root_type
  pc_name :: string
  pc_available :: "host \<Rightarrow> bool option"
  pc_capabilities :: "capability list"
  pc_output :: string

definition no_root_class :: provider_class where
  "no_root_class = \<lparr>pc_type = NONE, pc_name = ''none'', pc_available = (\<lambda>h. Some False), pc_capabilities = [],
     pc_output = []\<rparr>"

definition magisk_class :: provider_class where
  "magisk_class = \<lparr>pc_type = MAGISK, pc_name = ''Magisk'', pc_available = (\<lambda>h. fs_exists h ''/sbin/.magisk''),
     pc_capabilities = [ROOT_ACCESS, SYSTEM_WRITE, MOUNT_NAMESPACE, BOOT_PATCH, SELINUX_CONTROL],
     pc_output = ''Magisk execution placeholder''\<rparr>"

definition kernelsu_class :: provider_class where
  "kernelsu_class = \<lparr>pc_type = KERNELSU, pc_name = ''KernelSU'', pc_available = (\<lambda>h. fs_exists h ''/data/adb/ksu''),
     pc_capabilities = [ROOT_ACCESS, MOUNT_NAMESPACE, KERNEL_INTERFACE, BOOT_PATCH, SELINUX_CONTROL],
     pc_output = ''KernelSU execution placeholder''\<rparr>"

definition apatch_class :: provider_class where
  "apatch_class = \<lparr>pc_type = APATCH, pc_name = ''APatch'', pc_available = (\<lambda>h. fs_exists h ''/data/adb/ap''),
     pc_capabilities = [ROOT_ACCESS, MOUNT_NAMESPACE, KERNEL_INTERFACE, BOOT_PATCH, SELINUX_CONTROL],
     pc_output = ''APatch execution placeholder''\<rparr>"

definition astra_root_class :: "bool \<Rightarrow> root_runtime \<Rightarrow> provider_class" where
  "astra_root_class initialized rt = \<lparr>pc_type = ASTRA_ROOT_TYPE, pc_name = ''AstraRoot'',
     pc_available = (\<lambda>h. Some (initialized \<and> rr_ready rt)),
     pc_capabilities = [ROOT_ACCESS, ASTRA_ROOT, MOUNT_NAMESPACE, NAMESPACE_ISOLATION, OVERLAYFS, BOOT_PATCH,
       SYSTEM_WRITE, SELINUX_CONTROL],
     pc_output = ''executed by AstraRoot''\<rparr>"

text \<open>Virtual dispatch.\<close>

fun class_of :: "root_provider \<Rightarrow> provider_class" where
  "class_of NoRootProvider = no_root_class"
| "class_of MagiskProvider = magisk_class"
| "class_of KernelSUProvider = kernelsu_class"
| "class_of APatchProvider = apatch_class"
| "class_of (AstraRootProvider i rt) = astra_root_class i rt"

definition provider_type :: "root_provider \<Rightarrow> root_type" where
  "provider_type p = pc_type (class_of p)"

definition provider_name :: "root_provider \<Rightarrow> string" where
  "provider_name p = pc_name (class_of p)"

definition provider_available :: "host \<Rightarrow> root_provider \<Rightarrow> bool option" where
  "provider_available h p = pc_available (class_of p) h"

definition provider_capabilities :: "root_provider \<Rightarrow> capability list" where
  "provider_capabilities p = pc_capabilities (class_of p)"

text \<open>\<open>execute\<close>: None when \<open>available\<close> throws, Some None when it returns false, else the output it stores.\<close>

definition provider_execute :: "host \<Rightarrow> root_provider \<Rightarrow> string \<Rightarrow> string option option" where
  "provider_execute h p command = (case provider_available h p of
      None \<Rightarrow> None
    | Some up \<Rightarrow> if \<not> up then Some None else Some (Some (pc_output (class_of p))))"

text \<open>\<open>AstraRootProvider::initialize\<close>: prepare and start the runtime.\<close>

definition astra_initialize :: "rkernel \<Rightarrow> bool \<Rightarrow> root_runtime \<Rightarrow> world \<Rightarrow> bool option \<times> root_provider \<times> world" where
  "astra_initialize k i rt w =
    (if i then (Some True, AstraRootProvider i rt, w)
     else
       (let (okp, rt1) = rr_prepare rt
        in if \<not> okp then (Some False, AstraRootProvider i rt1, w)
           else
             (case rr_start k rt1 w of
                (None, rt2, w2) \<Rightarrow> (None, AstraRootProvider i rt2, w2)
              | (Some oks, rt2, w2) \<Rightarrow>
                  if \<not> oks then (Some False, AstraRootProvider i rt2, w2)
                  else (Some True, AstraRootProvider True rt2, w2))))"

lemmas provider_classes = no_root_class_def magisk_class_def kernelsu_class_def apatch_class_def astra_root_class_def

lemma provider_type_simps [simp]:
  "provider_type NoRootProvider = NONE" "provider_type MagiskProvider = MAGISK"
  "provider_type KernelSUProvider = KERNELSU" "provider_type APatchProvider = APATCH"
  "provider_type (AstraRootProvider i rt) = ASTRA_ROOT_TYPE"
  by (simp_all add: provider_type_def provider_classes)

lemma provider_available_simps [simp]:
  "provider_available h NoRootProvider = Some False"
  "provider_available h MagiskProvider = fs_exists h ''/sbin/.magisk''"
  "provider_available h KernelSUProvider = fs_exists h ''/data/adb/ksu''"
  "provider_available h APatchProvider = fs_exists h ''/data/adb/ap''"
  "provider_available h (AstraRootProvider i rt) = Some (i \<and> rr_ready rt)"
  by (simp_all add: provider_available_def provider_classes)

lemma provider_capabilities_simps [simp]:
  "provider_capabilities NoRootProvider = []"
  "provider_capabilities MagiskProvider = [ROOT_ACCESS, SYSTEM_WRITE, MOUNT_NAMESPACE, BOOT_PATCH, SELINUX_CONTROL]"
  "provider_capabilities KernelSUProvider = [ROOT_ACCESS, MOUNT_NAMESPACE, KERNEL_INTERFACE, BOOT_PATCH, SELINUX_CONTROL]"
  "provider_capabilities APatchProvider = [ROOT_ACCESS, MOUNT_NAMESPACE, KERNEL_INTERFACE, BOOT_PATCH, SELINUX_CONTROL]"
  "provider_capabilities (AstraRootProvider i rt) = [ROOT_ACCESS, ASTRA_ROOT, MOUNT_NAMESPACE, NAMESPACE_ISOLATION,
     OVERLAYFS, BOOT_PATCH, SYSTEM_WRITE, SELINUX_CONTROL]"
  by (simp_all add: provider_capabilities_def provider_classes)

section \<open>The provider manager\<close>

text \<open>The first available provider of a list; the search ends with the first exception.\<close>

fun first_available :: "host \<Rightarrow> root_provider list \<Rightarrow> root_provider option" where
  "first_available h [] = Some NoRootProvider"
| "first_available h (p # ps) = (case provider_available h p of
      None \<Rightarrow> None
    | Some up \<Rightarrow> if up then Some p else first_available h ps)"

definition manager_initialize :: "host \<Rightarrow> rkernel \<Rightarrow> world \<Rightarrow> (root_provider \<times> world) option" where
  "manager_initialize h k w = (case astra_initialize k False new_runtime w of
      (None, astra, w1) \<Rightarrow> None
    | (Some ok, astra, w1) \<Rightarrow>
        map_option (\<lambda>p. (p, w1))
          (first_available h ((if ok then [astra] else []) @ [KernelSUProvider, APatchProvider, MagiskProvider])))"

text \<open>\<open>provider_\<close> is null until \<open>initialize\<close>.\<close>

definition manager_type :: "root_provider option \<Rightarrow> root_type" where
  "manager_type m = (case m of None \<Rightarrow> NONE | Some p \<Rightarrow> provider_type p)"

definition manager_capabilities :: "root_provider option \<Rightarrow> capability list" where
  "manager_capabilities m = (case m of None \<Rightarrow> [] | Some p \<Rightarrow> provider_capabilities p)"

text \<open>\<open>ProviderRegistry::resolve\<close>; the outer option is the attached manager.\<close>

definition registry_resolve :: "host \<Rightarrow> root_provider option option \<Rightarrow> capability \<Rightarrow> root_provider option option" where
  "registry_resolve h m cap = (case m of
      None \<Rightarrow> Some None
    | Some cur \<Rightarrow> (case cur of
          None \<Rightarrow> Some None
        | Some p \<Rightarrow> (case provider_available h p of
              None \<Rightarrow> None
            | Some up \<Rightarrow>
                if \<not> up then Some None
                else if cap \<notin> set (provider_capabilities p) then Some None
                else Some (Some p))))"

definition can_execute :: "host \<Rightarrow> root_provider option \<Rightarrow> string \<Rightarrow> bool option" where
  "can_execute h m command = (case m of None \<Rightarrow> Some False | Some p \<Rightarrow> provider_available h p)"

definition service_provider_name :: "root_provider option \<Rightarrow> string" where
  "service_provider_name m = (case m of None \<Rightarrow> ''none'' | Some p \<Rightarrow> provider_name p)"

section \<open>Capability detection\<close>

text \<open>The matrix is filled from the provider and from two probes of the device; each of the three can throw.\<close>

definition detect :: "host \<Rightarrow> root_provider option \<Rightarrow> capability_matrix option" where
  "detect h m =
    (case (case m of None \<Rightarrow> Some False | Some p \<Rightarrow> provider_available h p) of
       None \<Rightarrow> None
     | Some up \<Rightarrow>
         (let m1 = (if up then matrix_set_all (matrix_set Map.empty ROOT_ACCESS True) (manager_capabilities m)
                    else Map.empty)
          in case fs_exists h ''/sys/fs/selinux/enforce'' of
               None \<Rightarrow> None
             | Some se \<Rightarrow>
                 (let m2 = matrix_set m1 SELINUX_CONTROL se
                  in case fs_exists h ''/proc/self/ns/mnt'' of
                       None \<Rightarrow> None
                     | Some ns \<Rightarrow>
                         (let m3 = matrix_set m2 MOUNT_NAMESPACE ns
                          in Some (matrix_set m3 MODULE_RUNTIME True)))))"

section \<open>The text protocol\<close>

text \<open>\<open>RequestHandler::handle\<close> on the bytes \<open>CAPABILITY:COMMAND\<close>.\<close>

definition request_handle :: "host \<Rightarrow> root_provider option option \<Rightarrow> string \<Rightarrow> bool option" where
  "request_handle h m body =
    (if length body \<le> 0 then Some False
     else (case split_at_colon body of
         None \<Rightarrow> Some False
       | Some (cap_name, command) \<Rightarrow> (case resolve_capability cap_name of
             None \<Rightarrow> Some False
           | Some cap \<Rightarrow> (case registry_resolve h m cap of
                 None \<Rightarrow> None
               | Some None \<Rightarrow> Some False
               | Some (Some p) \<Rightarrow> (case provider_execute h p command of
                     None \<Rightarrow> None
                   | Some None \<Rightarrow> Some False
                   | Some (Some out) \<Rightarrow> Some True)))))"

section \<open>The policy bridge\<close>

datatype policy_result = ALLOW | DENY | APPROVAL

definition decode :: "int \<Rightarrow> policy_result" where
  "decode raw = (if raw = 0 then ALLOW else if raw = 1 then DENY else APPROVAL)"

text \<open>
  The C functions the Rust library exports; the weak definitions of policy_bridge.cpp stand
  in when it is not linked.
\<close>

record policy_ffi =
  policy_is_available :: int
  policy_check :: int
  policy_check_with :: "string \<Rightarrow> string \<Rightarrow> u32 \<Rightarrow> bool \<Rightarrow> int"

definition weak_ffi :: policy_ffi where
  "weak_ffi = \<lparr>policy_is_available = 0, policy_check = 1, policy_check_with = (\<lambda>_ _ _ _. 1)\<rparr>"

definition bridge_check :: "policy_ffi \<Rightarrow> policy_result" where
  "bridge_check ffi = (if policy_is_available ffi = 0 then DENY else decode (policy_check ffi))"

definition bridge_check_with :: "policy_ffi \<Rightarrow> string \<Rightarrow> string \<Rightarrow> u32 \<Rightarrow> bool \<Rightarrow> policy_result" where
  "bridge_check_with ffi module_id capability risk_level approved =
    (if policy_is_available ffi = 0 then DENY
     else decode (policy_check_with ffi (c_str module_id) (c_str capability) risk_level approved))"

definition pipeline_run :: "policy_ffi \<Rightarrow> host \<Rightarrow> root_provider option \<Rightarrow> string \<Rightarrow> string \<Rightarrow> bool option" where
  "pipeline_run ffi h m capability command =
    (if bridge_check ffi \<noteq> ALLOW then Some False
     else (case m of
         None \<Rightarrow> Some False
       | Some p \<Rightarrow> (case provider_available h p of
             None \<Rightarrow> None
           | Some up \<Rightarrow>
               if \<not> up then Some False
               else map_option (\<lambda>out. out \<noteq> None) (provider_execute h p command))))"

definition execution_handler :: "string \<Rightarrow> string \<Rightarrow> bool" where
  "execution_handler module capability = True"

section \<open>The provider contract\<close>

text \<open>
  What the pipeline, the registry and the permission service rely on: a provider throws, refuses or executes
  a command as \<open>available\<close> throws, is false or is true, and a provider that is available reports root access.
\<close>

locale provider_contract =
  fixes avail :: "'p \<Rightarrow> bool option"
    and exec :: "'p \<Rightarrow> string \<Rightarrow> string option option"
    and caps :: "'p \<Rightarrow> capability list"
  assumes exec_avail: "map_option (\<lambda>out. out \<noteq> None) (exec p c) = avail p"
    and avail_root: "avail p = Some True \<Longrightarrow> ROOT_ACCESS \<in> set (caps p)"
begin

lemma exec_iff_avail: "(\<exists>out. exec p c = Some (Some out)) \<longleftrightarrow> avail p = Some True"
  using exec_avail [of p c] by (auto simp: map_option_case split: option.splits)

lemma exec_throws: "exec p c = None \<longleftrightarrow> avail p = None"
  using exec_avail [of p c] by (metis map_option_is_None)

lemma avail_has_caps: "avail p = Some True \<Longrightarrow> caps p \<noteq> []"
  using avail_root by force

end

interpretation providers: provider_contract "provider_available h" "provider_execute h" provider_capabilities
proof
  show "map_option (\<lambda>out. out \<noteq> None) (provider_execute h p c) = provider_available h p" for p c
    by (auto simp: provider_execute_def split: option.splits)
  show "provider_available h p = Some True \<Longrightarrow> ROOT_ACCESS \<in> set (provider_capabilities p)" for p
    by (cases p) auto
qed

section \<open>Properties\<close>

text \<open>The path whose presence makes a provider available; AstraRoot and NoRoot look at none.\<close>

fun marker :: "root_provider \<Rightarrow> string option" where
  "marker MagiskProvider = Some ''/sbin/.magisk''"
| "marker KernelSUProvider = Some ''/data/adb/ksu''"
| "marker APatchProvider = Some ''/data/adb/ap''"
| "marker _ = None"

lemma available_None: "provider_available h p = None \<longleftrightarrow> (\<exists>path. marker p = Some path \<and> h_stat_error h path)"
  by (cases p) simp_all

lemma astra_initialize_new:
  "astra_initialize k False new_runtime w = (ok, p, w') \<Longrightarrow>
     ok = (if \<not> rk_unshare k then Some False else if boot_detect (rk_exists k) = None then None else Some True) \<and>
     (ok = Some True \<longrightarrow> provider_available h p = Some True) \<and> provider_type p = ASTRA_ROOT_TYPE"
  by (auto simp: astra_initialize_def rr_prepare_def rr_start_def ns_create_def new_runtime_def Let_def
      rr_ready_def split: if_splits option.splits)

text \<open>
  The provider the daemon selects: AstraRoot exactly when the kernel grants a mount
  namespace; otherwise the first of KernelSU, APatch and Magisk whose marker exists;
  otherwise NoRoot. The selected provider can execute commands at that moment exactly when
  it is not NoRoot.
\<close>

theorem provider_selection:
  assumes "manager_initialize h k w = Some (p, w')"
  shows "provider_type p =
       (if rk_unshare k then ASTRA_ROOT_TYPE
        else if h_exists h ''/data/adb/ksu'' then KERNELSU
        else if h_exists h ''/data/adb/ap'' then APATCH
        else if h_exists h ''/sbin/.magisk'' then MAGISK
        else NONE) \<and>
     can_execute h (Some p) c = Some (provider_type p \<noteq> NONE)"
proof -
  obtain ok q w1 where a: "astra_initialize k False new_runtime w = (ok, q, w1)"
    by (cases "astra_initialize k False new_runtime w") auto
  from astra_initialize_new [OF a, of h] a assms show ?thesis
    by (auto simp: manager_initialize_def can_execute_def split: if_splits option.splits)
qed

lemma capability_name_no_colon: "CHR '':'' \<notin> set (capability_name cap)"
  by (cases cap) simp_all

text \<open>
  The text protocol: a request is executed exactly when it has the form
  \<open>CAPABILITY:COMMAND\<close> where the text before the first colon names a capability that the
  active, available provider offers. In particular nothing is executed without an
  available provider.
\<close>

theorem request_handle_iff:
  "request_handle h (Some (Some p)) body = Some True \<longleftrightarrow>
     provider_available h p = Some True \<and>
     (\<exists>cap command. body = capability_name cap @ '':'' @ command \<and> cap \<in> set (provider_capabilities p))"
proof
  assume "request_handle h (Some (Some p)) body = Some True"
  then obtain n command cap where s: "split_at_colon body = Some (n, command)" "resolve_capability n = Some cap"
      "provider_available h p = Some True" "cap \<in> set (provider_capabilities p)"
    by (auto simp: request_handle_def registry_resolve_def provider_execute_def split: option.splits if_splits)
  from s(1) have "body = n @ CHR '':'' # command" using split_at_colon_Some by blast
  moreover have "n = capability_name cap" using s(2) by (simp add: resolve_capability_iff)
  ultimately show "provider_available h p = Some True \<and>
     (\<exists>cap command. body = capability_name cap @ '':'' @ command \<and> cap \<in> set (provider_capabilities p))"
    using s by auto
next
  assume "provider_available h p = Some True \<and>
     (\<exists>cap command. body = capability_name cap @ '':'' @ command \<and> cap \<in> set (provider_capabilities p))"
  then obtain cap command where b: "body = capability_name cap @ CHR '':'' # command"
      "provider_available h p = Some True" "cap \<in> set (provider_capabilities p)"
    by auto
  have "split_at_colon body = Some (capability_name cap, command)"
    using b capability_name_no_colon by (simp add: split_at_colon_append)
  moreover have "resolve_capability (capability_name cap) = Some cap" by (simp add: resolve_capability_iff)
  ultimately show "request_handle h (Some (Some p)) body = Some True"
    using b by (simp add: request_handle_def registry_resolve_def provider_execute_def)
qed

text \<open>
  The detected capability matrix: the detection throws exactly when \<open>stat\<close> fails on the marker of the active provider or on one of
  the two probed files; otherwise, with any provider, the SELinux
  and mount-namespace entries are what the device probes say (overriding the provider),
  the module runtime is always there, and every other capability is offered exactly when
  an available provider reports it.
\<close>

lemma detect_None:
  "detect h m = None \<longleftrightarrow>
    (\<exists>p path. m = Some p \<and> marker p = Some path \<and> h_stat_error h path) \<or>
    h_stat_error h ''/sys/fs/selinux/enforce'' \<or> h_stat_error h ''/proc/self/ns/mnt''"
proof -
  have "detect h m = None \<longleftrightarrow> (\<exists>p. m = Some p \<and> provider_available h p = None) \<or>
    h_stat_error h ''/sys/fs/selinux/enforce'' \<or> h_stat_error h ''/proc/self/ns/mnt''"
    by (auto simp: detect_def Let_def split: option.splits)
  then show ?thesis by (auto simp: available_None)
qed

theorem detect_matrix:
  assumes "detect h m = Some mx"
  shows "matrix_has mx c =
    (if c = MODULE_RUNTIME then True
     else if c = MOUNT_NAMESPACE then h_exists h ''/proc/self/ns/mnt''
     else if c = SELINUX_CONTROL then h_exists h ''/sys/fs/selinux/enforce''
     else (case m of None \<Rightarrow> False | Some p \<Rightarrow> provider_available h p = Some True \<and> c \<in> set (provider_capabilities p)))"
proof -
  obtain up where up: "(case m of None \<Rightarrow> Some False | Some p \<Rightarrow> provider_available h p) = Some up"
    and mx: "mx = matrix_set (matrix_set (matrix_set
        (if up then matrix_set_all (matrix_set Map.empty ROOT_ACCESS True) (manager_capabilities m) else Map.empty)
        SELINUX_CONTROL (h_exists h ''/sys/fs/selinux/enforce'')) MOUNT_NAMESPACE (h_exists h ''/proc/self/ns/mnt'')) MODULE_RUNTIME True"
    using assms by (auto simp: detect_def Let_def split: option.splits)
  show ?thesis
    unfolding mx using up providers.avail_root [of h] by (cases m) (auto simp: manager_capabilities_def)
qed

text \<open>
  The policy bridge fails closed: without the Rust library nothing is allowed, and the
  execution pipeline reaches a provider only when the library is linked, its decision is
  0, and the provider is available.
\<close>

lemma policy_fails_closed:
  "bridge_check_with weak_ffi a b r ok = DENY"
  "bridge_check_with ffi a b r ok = ALLOW \<longleftrightarrow>
      policy_is_available ffi \<noteq> 0 \<and> policy_check_with ffi (c_str a) (c_str b) r ok = 0"
  "pipeline_run ffi h (Some p) cap cmd = Some True \<longleftrightarrow>
      policy_is_available ffi \<noteq> 0 \<and> policy_check ffi = 0 \<and> provider_available h p = Some True"
  using providers.exec_avail [of h p cmd]
  by (auto simp: bridge_check_with_def bridge_check_def weak_ffi_def decode_def pipeline_run_def split: option.splits)

end
