(* ===== verification/JsonText.thy ===== *)
theory JsonText
  imports Prelude
begin

text \<open>
  The hand-written JSON string escaping of the daemon: \<open>json_escape\<close> of main.cpp and
  capability_service.cpp (one definition, the code is the same) and the shorter variant of
  provider_service.cpp. The reference is \<open>read_string\<close>, a reader of JSON string literals
  as RFC 8259 describes them (a literal ends at an unescaped quote and holds no raw control
  character; \<open>\\u\<close> escapes are read for the ASCII range, which is all the code emits).
\<close>

definition quote :: char where
  "quote = CHR 0x22"

definition backslash :: char where
  "backslash = CHR 0x5C"

definition hex_digit :: "nat \<Rightarrow> char" where
  "hex_digit d = (if d < 10 then char_of (48 + d) else char_of (87 + d))"

text \<open>\<open>snprintf(buf, 8, "\\u%04x", c)\<close> for a character below 0x20.\<close>

definition u_escape :: "char \<Rightarrow> string" where
  "u_escape c = [backslash, CHR ''u'', CHR ''0'', CHR ''0'',
     hex_digit (of_char c div 16), hex_digit (of_char c mod 16)]"

definition escape_char :: "char \<Rightarrow> string" where
  "escape_char c =
    (if c = quote then [backslash, quote]
     else if c = backslash then [backslash, backslash]
     else if c = CHR 0x0A then [backslash, CHR ''n'']
     else if c = CHR 0x0D then [backslash, CHR ''r'']
     else if c = CHR 0x09 then [backslash, CHR ''t'']
     else if (of_char c :: nat) < 0x20 then u_escape c
     else [c])"

fun json_escape :: "string \<Rightarrow> string" where
  "json_escape [] = []"
| "json_escape (c # s) = escape_char c @ json_escape s"

text \<open>provider_service.cpp has no case for the other control characters.\<close>

definition escape_char_basic :: "char \<Rightarrow> string" where
  "escape_char_basic c =
    (if c = quote then [backslash, quote]
     else if c = backslash then [backslash, backslash]
     else if c = CHR 0x0A then [backslash, CHR ''n'']
     else if c = CHR 0x0D then [backslash, CHR ''r'']
     else if c = CHR 0x09 then [backslash, CHR ''t'']
     else [c])"

fun json_escape_basic :: "string \<Rightarrow> string" where
  "json_escape_basic [] = []"
| "json_escape_basic (c # s) = escape_char_basic c @ json_escape_basic s"

section \<open>Reading a string literal\<close>

definition hex_value :: "char \<Rightarrow> nat option" where
  "hex_value c =
    (let v = (of_char c :: nat)
     in if 48 \<le> v \<and> v \<le> 57 then Some (v - 48)
        else if 97 \<le> v \<and> v \<le> 102 then Some (v - 87)
        else if 65 \<le> v \<and> v \<le> 70 then Some (v - 55)
        else None)"

definition hex4 :: "char \<Rightarrow> char \<Rightarrow> char \<Rightarrow> char \<Rightarrow> nat option" where
  "hex4 a b c d = (case (hex_value a, hex_value b, hex_value c, hex_value d) of
      (Some w, Some x, Some y, Some z) \<Rightarrow> Some (4096 * w + 256 * x + 16 * y + z)
    | _ \<Rightarrow> None)"

definition simple_escape :: "char \<Rightarrow> char option" where
  "simple_escape e =
    (if e = quote \<or> e = backslash \<or> e = CHR ''/'' then Some e
     else if e = CHR ''n'' then Some (CHR 0x0A)
     else if e = CHR ''r'' then Some (CHR 0x0D)
     else if e = CHR ''t'' then Some (CHR 0x09)
     else if e = CHR ''b'' then Some (CHR 0x08)
     else if e = CHR ''f'' then Some (CHR 0x0C)
     else None)"

text \<open>The contents of a literal after its opening quote, and what follows the closing one.\<close>

fun read_string :: "string \<Rightarrow> (string \<times> string) option" where
  "read_string [] = None"
| "read_string (c # s) =
    (if c = quote then Some ([], s)
     else if (of_char c :: nat) < 0x20 then None
     else if c = backslash then
       (case s of
          [] \<Rightarrow> None
        | e # s1 \<Rightarrow>
            if e = CHR ''u'' then
              (case s1 of
                 a # b # x # y # s2 \<Rightarrow> (case hex4 a b x y of
                     None \<Rightarrow> None
                   | Some v \<Rightarrow> if v < 0x80 then map_option (apfst (Cons (char_of v))) (read_string s2) else None)
               | _ \<Rightarrow> None)
            else (case simple_escape e of
                None \<Rightarrow> None
              | Some d \<Rightarrow> map_option (apfst (Cons d)) (read_string s1)))
     else map_option (apfst (Cons c)) (read_string s))"

lemma hex_value_digit: "d < 16 \<Longrightarrow> hex_value (hex_digit d) = Some d"
  by (simp add: hex_value_def hex_digit_def Let_def)

lemma hex4_escape: "(of_char c :: nat) < 32 \<Longrightarrow>
    hex4 (CHR ''0'') (CHR ''0'') (hex_digit (of_char c div 16)) (hex_digit (of_char c mod 16)) = Some (of_char c)"
  by (simp add: hex4_def hex_value_digit) (simp add: hex_value_def)

lemma read_escape_char:
  "read_string (escape_char c @ s) = map_option (apfst (Cons c)) (read_string s)"
proof (cases "c = quote \<or> c = backslash \<or> c = CHR 0x0A \<or> c = CHR 0x0D \<or> c = CHR 0x09")
  case True
  then show ?thesis
    by (auto simp: escape_char_def simple_escape_def quote_def backslash_def)
next
  case False
  show ?thesis
  proof (cases "(of_char c :: nat) < 0x20")
    case True
    then show ?thesis
      using False hex4_escape [OF True]
      by (simp add: escape_char_def u_escape_def) (simp add: backslash_def quote_def)
  next
    case big: False
    then show ?thesis using False by (simp add: escape_char_def)
  qed
qed

lemma read_json_escape: "read_string (json_escape s @ rest) = map_option (apfst (append s)) (read_string rest)"
proof (induction s)
  case Nil
  show ?case by (cases "read_string rest") auto
next
  case (Cons c s)
  then show ?case
    by (cases "read_string rest") (auto simp: read_escape_char)
qed

text \<open>
  JSON escaping is faithful: for every byte string, a reader of the literal that
  \<open>json_escape\<close> was put in recovers exactly that string and stops at the closing quote, so
  no content can break out of the literal.
\<close>

theorem json_escape_roundtrip:
  "read_string (json_escape s @ [CHR 0x22] @ rest) = Some (s, rest)"
  by (simp add: read_json_escape) (simp add: quote_def)

text \<open>
  The provider service's own escaping is not enough: a version string with a control
  character other than newline, carriage return and tab makes a literal no reader accepts.
\<close>

theorem json_escape_basic_control:
  "read_string (json_escape_basic ''ab'' @ [CHR 0x22]) = Some (''ab'', []) \<and>
   read_string (json_escape_basic [CHR 0x1B] @ [CHR 0x22]) = None"
  by (simp add: escape_char_basic_def quote_def backslash_def)

end
