(* ===== verification/Utf8.thy ===== *)
theory Utf8
  imports Prelude
begin

text \<open>
  UTF-8 in the JSON library (module-spoof/jni/include/json.hpp, the copy of
  nlohmann/json the repository carries; the daemon's own copy has the same code). The
  library has UTF-8 three times: the lexer checks the bytes of a string literal against
  byte ranges, it encodes the code points of \<open>\u\<close> escapes, and the serializer decodes
  strings with a table-driven automaton. The theory models the three and proves that they
  agree: the automaton and the range check accept exactly the concatenations of encoded
  code points.
\<close>

unbundle bit_operations_syntax

abbreviation byte_of :: "char \<Rightarrow> nat" where
  "byte_of c \<equiv> of_char c"

section \<open>The encoder and the range check of the lexer\<close>

text \<open>"translate codepoint into bytes" of \<open>scan_string\<close>.\<close>

definition utf8_bytes :: "nat \<Rightarrow> string" where
  "utf8_bytes cp =
    (if cp < 0x80 then [char_of cp]
     else if cp \<le> 0x7FF then
       [char_of (0xC0 OR drop_bit 6 cp), char_of (0x80 OR (cp AND 0x3F))]
     else if cp \<le> 0xFFFF then
       [char_of (0xE0 OR drop_bit 12 cp), char_of (0x80 OR (drop_bit 6 cp AND 0x3F)),
        char_of (0x80 OR (cp AND 0x3F))]
     else
       [char_of (0xF0 OR drop_bit 18 cp), char_of (0x80 OR (drop_bit 12 cp AND 0x3F)),
        char_of (0x80 OR (drop_bit 6 cp AND 0x3F)), char_of (0x80 OR (cp AND 0x3F))])"

text \<open>
  The ranges that the switch of \<open>scan_string\<close> demands of the bytes after a first byte;
  None for the bytes that cannot start a character.
\<close>

definition lead_ranges :: "nat \<Rightarrow> (nat \<times> nat) list option" where
  "lead_ranges b =
    (if 0x20 \<le> b \<and> b \<le> 0x7F then Some []
     else if 0xC2 \<le> b \<and> b \<le> 0xDF then Some [(0x80, 0xBF)]
     else if b = 0xE0 then Some [(0xA0, 0xBF), (0x80, 0xBF)]
     else if 0xE1 \<le> b \<and> b \<le> 0xEC \<or> b = 0xEE \<or> b = 0xEF then Some [(0x80, 0xBF), (0x80, 0xBF)]
     else if b = 0xED then Some [(0x80, 0x9F), (0x80, 0xBF)]
     else if b = 0xF0 then Some [(0x90, 0xBF), (0x80, 0xBF), (0x80, 0xBF)]
     else if 0xF1 \<le> b \<and> b \<le> 0xF3 then Some [(0x80, 0xBF), (0x80, 0xBF), (0x80, 0xBF)]
     else if b = 0xF4 then Some [(0x80, 0x8F), (0x80, 0xBF), (0x80, 0xBF)]
     else None)"

text \<open>
  \<open>next_byte_in_range\<close>, after its first \<open>add(current)\<close>: the token buffer grows by each
  byte that is in its range; None at the first that is not (or at the end of the input).
\<close>

fun next_byte_in_range :: "(nat \<times> nat) list \<Rightarrow> string \<Rightarrow> string \<Rightarrow> (string \<times> string) option" where
  "next_byte_in_range [] buf s = Some (buf, s)"
| "next_byte_in_range ((lo, hi) # rs) buf [] = None"
| "next_byte_in_range ((lo, hi) # rs) buf (c # s) =
     (if lo \<le> byte_of c \<and> byte_of c \<le> hi then next_byte_in_range rs (buf @ [c]) s else None)"

section \<open>The automaton of the serializer\<close>

text \<open>The table \<open>utf8d\<close>; a row of equal entries is written as a \<open>replicate\<close>.\<close>

definition utf8_types :: "nat list" where
  "utf8_types =
     replicate 32 0 @ replicate 32 0 @ replicate 32 0 @ replicate 32 0 @
     replicate 16 1 @ replicate 16 9 @
     replicate 32 7 @
     [8, 8] @ replicate 30 2 @
     [0xA] @ replicate 12 0x3 @ [0x4, 0x3, 0x3] @
     [0xB, 0x6, 0x6, 0x6, 0x5] @ replicate 11 0x8"

definition utf8_trans :: "nat list" where
  "utf8_trans =
    [0x0, 0x1, 0x2, 0x3, 0x5, 0x8, 0x7, 0x1, 0x1, 0x1, 0x4, 0x6, 0x1, 0x1, 0x1, 0x1,
     1, 1, 1, 1, 1, 1, 1, 1, 1, 1, 1, 1, 1, 1, 1, 1, 1, 0, 1, 1, 1, 1, 1, 0, 1, 0, 1, 1, 1, 1, 1, 1,
     1, 2, 1, 1, 1, 1, 1, 2, 1, 2, 1, 1, 1, 1, 1, 1, 1, 1, 1, 1, 1, 1, 1, 2, 1, 1, 1, 1, 1, 1, 1, 1,
     1, 2, 1, 1, 1, 1, 1, 1, 1, 2, 1, 1, 1, 1, 1, 1, 1, 1, 1, 1, 1, 1, 1, 3, 1, 3, 1, 1, 1, 1, 1, 1,
     1, 3, 1, 1, 1, 1, 1, 3, 1, 3, 1, 1, 1, 1, 1, 1, 1, 3, 1, 1, 1, 1, 1, 1, 1, 1, 1, 1, 1, 1, 1, 1]"

definition utf8d :: "nat list" where
  "utf8d = utf8_types @ utf8_trans"

definition UTF8_ACCEPT :: nat where
  "UTF8_ACCEPT = 0"

definition UTF8_REJECT :: nat where
  "UTF8_REJECT = 1"

text \<open>\<open>decode\<close>: the new state and code point; \<open>codep\<close> is 32 bits wide.\<close>

definition decode :: "nat \<times> nat \<Rightarrow> nat \<Rightarrow> nat \<times> nat" where
  "decode sc byte =
    (let (state, codep) = sc; type = utf8d ! byte
     in (utf8d ! (256 + state * 16 + type),
         if state \<noteq> UTF8_ACCEPT then (byte AND 0x3F) OR (push_bit 6 codep mod 2 ^ 32)
         else drop_bit type 0xFF AND byte))"

section \<open>Code points\<close>

text \<open>Unicode scalar values, and the texts that UTF-8 encodes.\<close>

definition scalar :: "nat \<Rightarrow> bool" where
  "scalar cp \<longleftrightarrow> cp < 0xD800 \<or> 0xE000 \<le> cp \<and> cp \<le> 0x10FFFF"

definition utf8 :: "string \<Rightarrow> bool" where
  "utf8 s \<longleftrightarrow> (\<exists>cps. list_all scalar cps \<and> s = concat (map utf8_bytes cps))"

lemma utf8_Nil [simp]: "utf8 []"
  unfolding utf8_def by (rule exI [of _ "[]"]) simp

lemma utf8_append: "utf8 a \<Longrightarrow> utf8 b \<Longrightarrow> utf8 (a @ b)"
  unfolding utf8_def by (metis concat_append list_all_append map_append)

lemma utf8_bytes_utf8: "scalar cp \<Longrightarrow> utf8 (utf8_bytes cp)"
  unfolding utf8_def by (rule exI [of _ "[cp]"]) simp

lemma or_disjoint: "(2 ^ k * a) OR x = 2 ^ k * a + x" if "x < 2 ^ k" for k a x :: nat
proof -
  have "bit (2 ^ k * a) n \<Longrightarrow> \<not> bit x n" for n
    using that by (metis bit_push_bit_iff_nat bit_take_bit_iff leD push_bit_eq_mult mult.commute
        take_bit_nat_eq_self_iff)
  then show ?thesis by (subst disjunctive_add) auto
qed

lemma or_low_bits:
  "x < 0x20 \<Longrightarrow> (0xC0 :: nat) OR x = 0xC0 + x"
  "x < 0x40 \<Longrightarrow> (0x80 :: nat) OR x = 0x80 + x"
  "x < 0x10 \<Longrightarrow> (0xE0 :: nat) OR x = 0xE0 + x"
  "x < 0x8 \<Longrightarrow> (0xF0 :: nat) OR x = 0xF0 + x"
  using or_disjoint [of x 5 6] or_disjoint [of x 6 2] or_disjoint [of x 4 14] or_disjoint [of x 3 30] by simp_all

lemma and_low_bits:
  "(x :: nat) AND 0x3F = x mod 0x40"
  "(0xFF :: nat) AND x = x mod 0x100"
  "(0x3F :: nat) AND x = x mod 0x40"
  "(0x1F :: nat) AND x = x mod 0x20"
  "(0xF :: nat) AND x = x mod 0x10"
  "(0x7 :: nat) AND x = x mod 0x8"
  "(0x3 :: nat) AND x = x mod 0x4"
proof -
  have *: "mask k AND (x :: nat) = x mod 2 ^ k" for k
    by (metis and.commute take_bit_eq_mask take_bit_eq_mod)
  show "x AND 0x3F = x mod 0x40" using * [of 6] by (simp add: mask_eq_exp_minus_1 and.commute)
  show "0xFF AND x = x mod 0x100" using * [of 8] by (simp add: mask_eq_exp_minus_1)
  show "0x3F AND x = x mod 0x40" using * [of 6] by (simp add: mask_eq_exp_minus_1)
  show "0x1F AND x = x mod 0x20" using * [of 5] by (simp add: mask_eq_exp_minus_1)
  show "0xF AND x = x mod 0x10" using * [of 4] by (simp add: mask_eq_exp_minus_1)
  show "0x7 AND x = x mod 0x8" using * [of 3] by (simp add: mask_eq_exp_minus_1)
  show "0x3 AND x = x mod 0x4" using * [of 2] by (simp add: mask_eq_exp_minus_1)
qed

lemma utf8_bytes_arith:
  assumes "cp \<le> 0x10FFFF"
  shows "utf8_bytes cp =
    (if cp < 0x80 then [char_of cp]
     else if cp \<le> 0x7FF then [char_of (0xC0 + cp div 0x40), char_of (0x80 + cp mod 0x40)]
     else if cp \<le> 0xFFFF then
       [char_of (0xE0 + cp div 0x1000), char_of (0x80 + cp div 0x40 mod 0x40), char_of (0x80 + cp mod 0x40)]
     else
       [char_of (0xF0 + cp div 0x40000), char_of (0x80 + cp div 0x1000 mod 0x40),
        char_of (0x80 + cp div 0x40 mod 0x40), char_of (0x80 + cp mod 0x40)])"
  using assms by (simp add: utf8_bytes_def drop_bit_eq_div and_low_bits or_low_bits)

text \<open>Conversely, bytes in the ranges of their first byte are an encoded code point.\<close>

definition in_ranges :: "(nat \<times> nat) list \<Rightarrow> nat list \<Rightarrow> bool" where
  "in_ranges rs bs \<longleftrightarrow> list_all2 (\<lambda>(lo, hi) b. lo \<le> b \<and> b \<le> hi) rs bs"

text \<open>The first bytes of the lexer, with the control characters it refuses elsewhere.\<close>

definition seq_ranges :: "nat \<Rightarrow> (nat \<times> nat) list option" where
  "seq_ranges b = (if b < 0x20 then Some [] else lead_ranges b)"

lemma in_ranges_Nil [simp]: "in_ranges [] bs \<longleftrightarrow> bs = []"
  by (simp add: in_ranges_def)

lemma in_ranges_Cons [simp]:
  "in_ranges ((lo, hi) # rs) bs \<longleftrightarrow> (\<exists>b bs'. bs = b # bs' \<and> lo \<le> b \<and> b \<le> hi \<and> in_ranges rs bs')"
  by (auto simp: in_ranges_def list_all2_Cons1)

lemma offset: "(k :: nat) \<le> b \<Longrightarrow> \<exists>w. b = k + w"
  by presburger

lemma base64_digit:
  fixes a b :: nat
  assumes "b < 0x40"
  shows "(a * 0x40 + b) div 0x40 = a" "(a * 0x40 + b) mod 0x40 = b"
  using assms by simp_all

lemma div_base64: "a div 0x1000 = a div 0x40 div 0x40" "a div 0x40000 = a div 0x40 div 0x40 div 0x40" for a :: nat
  by (simp_all add: div_mult2_eq [symmetric])

lemmas base64_digits = div_base64 base64_digit

lemma code_point2:
  fixes b c :: nat
  assumes "0xC2 \<le> b" "b \<le> 0xDF" "0x80 \<le> c" "c \<le> 0xBF"
  shows "\<exists>cp. scalar cp \<and> utf8_bytes cp = [char_of b, char_of c]"
proof -
  obtain w x where bc: "b = 0xC0 + w" "c = 0x80 + x"
    using offset [of "0xC0" b] offset [of "0x80" c] assms by auto
  define cp where "cp = w * 0x40 + x"
  have *: "x < 0x40" "w < 0x20" "2 \<le> w" using assms bc by simp_all
  have "cp div 0x40 = w" "cp mod 0x40 = x" by (simp_all only: cp_def base64_digits *)
  moreover have "0x80 \<le> cp" "cp \<le> 0x7FF" using * by (simp_all add: cp_def)
  ultimately have "scalar cp \<and> utf8_bytes cp = [char_of b, char_of c]"
    by (simp add: scalar_def utf8_bytes_arith bc)
  then show ?thesis by blast
qed

lemma code_point3:
  fixes b c d :: nat
  assumes "0xE0 \<le> b" "b \<le> 0xEF" "0x80 \<le> c" "c \<le> 0xBF" "0x80 \<le> d" "d \<le> 0xBF"
    and "b = 0xE0 \<Longrightarrow> 0xA0 \<le> c" and "b = 0xED \<Longrightarrow> c \<le> 0x9F"
  shows "\<exists>cp. scalar cp \<and> utf8_bytes cp = [char_of b, char_of c, char_of d]"
proof -
  obtain w x y where bcd: "b = 0xE0 + w" "c = 0x80 + x" "d = 0x80 + y"
    using offset [of "0xE0" b] offset [of "0x80" c] offset [of "0x80" d] assms by auto
  define cp where "cp = (w * 0x40 + x) * 0x40 + y"
  have *: "x < 0x40" "y < 0x40" "w < 0x10" "w = 0 \<Longrightarrow> 0x20 \<le> x" "w = 13 \<Longrightarrow> x < 0x20"
    using assms bcd by auto
  have d: "cp div 0x1000 = w" "cp div 0x40 mod 0x40 = x" "cp mod 0x40 = y"
    by (simp_all only: cp_def base64_digits *)
  have lo: "0x800 \<le> cp" using * by (cases "w = 0") (auto simp: cp_def)
  have hi: "cp \<le> 0xFFFF" using * by (simp add: cp_def)
  have "cp < 0xD800" if "w \<le> 13" using * that by (cases "w = 13") (auto simp: cp_def)
  moreover have "0xE000 \<le> cp" if "\<not> w \<le> 13" using that by (auto simp: cp_def)
  ultimately have "scalar cp" using hi by (auto simp: scalar_def)
  moreover have "utf8_bytes cp = [char_of b, char_of c, char_of d]"
    using lo hi d by (simp add: utf8_bytes_arith bcd)
  ultimately show ?thesis by blast
qed

lemma code_point4:
  fixes b c d e :: nat
  assumes "0xF0 \<le> b" "b \<le> 0xF4" "0x80 \<le> c" "c \<le> 0xBF" "0x80 \<le> d" "d \<le> 0xBF" "0x80 \<le> e" "e \<le> 0xBF"
    and "b = 0xF0 \<Longrightarrow> 0x90 \<le> c" and "b = 0xF4 \<Longrightarrow> c \<le> 0x8F"
  shows "\<exists>cp. scalar cp \<and> utf8_bytes cp = [char_of b, char_of c, char_of d, char_of e]"
proof -
  obtain w x y z where bcd: "b = 0xF0 + w" "c = 0x80 + x" "d = 0x80 + y" "e = 0x80 + z"
    using offset [of "0xF0" b] offset [of "0x80" c] offset [of "0x80" d] offset [of "0x80" e] assms by auto
  define cp where "cp = ((w * 0x40 + x) * 0x40 + y) * 0x40 + z"
  have *: "x < 0x40" "y < 0x40" "z < 0x40" "w < 5" "w = 0 \<Longrightarrow> 0x10 \<le> x" "w = 4 \<Longrightarrow> x < 0x10"
    using assms bcd by auto
  have d: "cp div 0x40000 = w" "cp div 0x1000 mod 0x40 = x" "cp div 0x40 mod 0x40 = y" "cp mod 0x40 = z"
    by (simp_all only: cp_def base64_digits *)
  have lo: "0x10000 \<le> cp" using * by (cases "w = 0") (auto simp: cp_def)
  have hi: "cp \<le> 0x10FFFF" using * by (cases "w = 4") (auto simp: cp_def)
  then have "scalar cp" using lo by (auto simp: scalar_def)
  moreover have "utf8_bytes cp = [char_of b, char_of c, char_of d, char_of e]"
    using lo hi d by (simp add: utf8_bytes_arith bcd)
  ultimately show ?thesis by blast
qed

lemma seq_ranges_code_point:
  assumes "seq_ranges b = Some rs" "in_ranges rs bs"
  shows "\<exists>cp. scalar cp \<and> utf8_bytes cp = map char_of (b # bs)"
proof -
  consider "b < 0x80" "rs = []" | "0xC2 \<le> b" "b \<le> 0xDF" "rs = [(0x80, 0xBF)]"
    | "0xE0 \<le> b" "b \<le> 0xEF" "rs = [(if b = 0xE0 then 0xA0 else 0x80, if b = 0xED then 0x9F else 0xBF), (0x80, 0xBF)]"
    | "0xF0 \<le> b" "b \<le> 0xF4" "rs = [(if b = 0xF0 then 0x90 else 0x80, if b = 0xF4 then 0x8F else 0xBF), (0x80, 0xBF), (0x80, 0xBF)]"
    using assms(1) by (auto simp: seq_ranges_def lead_ranges_def split: if_splits)
  then show ?thesis
  proof cases
    case 1
    then show ?thesis using assms(2) by (intro exI [of _ b]) (simp add: scalar_def utf8_bytes_def)
  next
    case 2
    then show ?thesis using assms(2) code_point2 [of b] by auto
  next
    case 3
    then obtain c d where bs: "bs = [c, d]"
      and cd: "(if b = 0xE0 then 0xA0 else 0x80) \<le> c" "c \<le> (if b = 0xED then 0x9F else 0xBF)" "0x80 \<le> d" "d \<le> 0xBF"
      using assms(2) by auto
    have "\<exists>cp. scalar cp \<and> utf8_bytes cp = [char_of b, char_of c, char_of d]"
      by (rule code_point3) (use 3 cd in \<open>auto split: if_splits\<close>)
    then show ?thesis by (simp add: bs)
  next
    case 4
    then obtain c d e where bs: "bs = [c, d, e]"
      and cde: "(if b = 0xF0 then 0x90 else 0x80) \<le> c" "c \<le> (if b = 0xF4 then 0x8F else 0xBF)"
        "0x80 \<le> d" "d \<le> 0xBF" "0x80 \<le> e" "e \<le> 0xBF"
      using assms(2) by auto
    have "\<exists>cp. scalar cp \<and> utf8_bytes cp = [char_of b, char_of c, char_of d, char_of e]"
      by (rule code_point4) (use 4 cde in \<open>auto split: if_splits\<close>)
    then show ?thesis by (simp add: bs)
  qed
qed

text \<open>Every encoded code point has that form.\<close>

lemma utf8_bytes_seq:
  assumes "scalar cp"
  shows "\<exists>b bs rs. map byte_of (utf8_bytes cp) = b # bs \<and> seq_ranges b = Some rs \<and> in_ranges rs bs"
proof -
  have hi: "cp \<le> 0x10FFFF" using assms by (auto simp: scalar_def)
  have m: "x mod 0x40 < 0x40" for x :: nat by simp
  consider "cp < 0x80" | "0x80 \<le> cp" "cp \<le> 0x7FF" | "0x800 \<le> cp" "cp \<le> 0xFFFF" | "0x10000 \<le> cp"
    by linarith
  then show ?thesis
  proof cases
    case 1
    then show ?thesis by (simp add: utf8_bytes_def seq_ranges_def lead_ranges_def)
  next
    case 2
    then have "2 \<le> cp div 0x40" "cp div 0x40 < 0x20" by auto
    then show ?thesis
      using 2 m [of cp] by (simp add: utf8_bytes_arith [OF hi] seq_ranges_def lead_ranges_def)
  next
    case 3
    then have w: "cp div 0x1000 < 0x10" by auto
    have E0: "0x20 \<le> cp div 0x40 mod 0x40" if "cp div 0x1000 = 0" using 3 that by auto
    have ED: "cp div 0x40 mod 0x40 < 0x20" if "cp div 0x1000 = 0xD"
    proof -
      have "cp div 0x40 < 0x360" using that assms by (auto simp: scalar_def)
      moreover have "cp div 0x40 div 0x40 = 0xD" using that by (simp only: div_base64)
      ultimately show ?thesis using div_mult_mod_eq [of "cp div 0x40" "0x40"] by linarith
    qed
    show ?thesis
      using 3 w E0 ED m [of cp] m [of "cp div 0x40"]
      by (simp add: utf8_bytes_arith [OF hi] seq_ranges_def lead_ranges_def) arith
  next
    case 4
    have w: "cp div 0x40000 < 5" using hi by auto
    have F0: "0x10 \<le> cp div 0x1000 mod 0x40" if "cp div 0x40000 = 0" using 4 that by auto
    have "cp div 0x1000 < 0x110" using hi by auto
    then have F4: "cp div 0x1000 mod 0x40 < 0x10" if "cp div 0x40000 = 4"
      using that div_mult_mod_eq [of "cp div 0x1000" "0x40"] by (simp add: div_mult2_eq [symmetric])
    show ?thesis
      using 4 w F0 F4 m [of cp] m [of "cp div 0x40"] m [of "cp div 0x1000"]
      by (simp add: utf8_bytes_arith [OF hi] seq_ranges_def lead_ranges_def) arith
  qed
qed

section \<open>The automaton follows the ranges\<close>

definition next_state :: "nat \<Rightarrow> nat \<Rightarrow> nat" where
  "next_state st b = utf8d ! (256 + st * 16 + utf8d ! b)"

lemma fst_decode: "fst (decode (st, cp) b) = next_state st b"
  by (simp add: decode_def next_state_def Let_def)

lemma fst_foldl_decode: "fst (foldl decode sc bs) = foldl next_state (fst sc) bs"
proof (induction bs arbitrary: sc)
  case (Cons b bs)
  then show ?case by (cases sc) (simp add: fst_decode)
qed simp

lemma length_utf8_types: "length utf8_types = 256"
  by (simp add: utf8_types_def)

lemma utf8d_byte: "b < 256 \<Longrightarrow> utf8d ! b = utf8_types ! b"
  by (simp add: utf8d_def nth_append length_utf8_types)

lemma utf8d_trans: "utf8d ! (256 + k) = utf8_trans ! k"
  by (simp add: utf8d_def nth_append length_utf8_types)

lemma utf8_types_runs:
  "utf8_types = replicate 128 0 @ replicate 16 1 @ replicate 16 9 @ replicate 32 7 @ replicate 2 8 @
     replicate 30 2 @ [0xA] @ replicate 12 3 @ [4] @ replicate 2 3 @ [0xB] @ replicate 3 6 @ [5] @ replicate 11 8"
proof -
  have "replicate 128 x = replicate 32 x @ replicate 32 x @ replicate 32 x @ replicate 32 x" for x :: nat
    by (simp flip: replicate_add)
  moreover have "replicate 2 x = [x, x]" "replicate 3 x = [x, x, x]" for x :: nat
    by (simp_all add: numeral_2_eq_2 numeral_3_eq_3)
  ultimately show ?thesis by (simp add: utf8_types_def)
qed

lemma utf8_types_nth:
  assumes "b < 256"
  shows "utf8_types ! b =
    (if b < 0x80 then 0 else if b < 0x90 then 1 else if b < 0xA0 then 9 else if b < 0xC0 then 7
     else if b < 0xC2 then 8 else if b < 0xE0 then 2 else if b = 0xE0 then 0xA else if b = 0xED then 4
     else if b < 0xF0 then 3 else if b = 0xF0 then 0xB else if b < 0xF4 then 6 else if b = 0xF4 then 5 else 8)"
proof -
  have "b < 0x80 \<or> 0x80 \<le> b \<and> b < 0x90 \<or> 0x90 \<le> b \<and> b < 0xA0 \<or> 0xA0 \<le> b \<and> b < 0xC0 \<or>
      0xC0 \<le> b \<and> b < 0xC2 \<or> 0xC2 \<le> b \<and> b < 0xE0 \<or> b = 0xE0 \<or> 0xE1 \<le> b \<and> b < 0xED \<or>
      b = 0xED \<or> 0xEE \<le> b \<and> b < 0xF0 \<or> b = 0xF0 \<or> 0xF1 \<le> b \<and> b < 0xF4 \<or> b = 0xF4 \<or> 0xF5 \<le> b"
    by presburger
  then show ?thesis
    using assms by (elim disjE conjE) (simp_all add: utf8_types_runs nth_append nth_Cons' less_diff_conv2)
qed

lemma next_state_nth: "b < 256 \<Longrightarrow> next_state st b = utf8_trans ! (st * 16 + utf8_types ! b)"
  by (simp add: next_state_def utf8d_byte utf8d_trans [symmetric] add.assoc)

lemma byte_classes:
  assumes "b < 256"
  shows "utf8_types ! b < 12"
    "utf8_types ! b \<in> {1, 7, 9} \<longleftrightarrow> 0x80 \<le> b \<and> b \<le> 0xBF"
    "utf8_types ! b = 7 \<longleftrightarrow> 0xA0 \<le> b \<and> b \<le> 0xBF"
    "utf8_types ! b \<in> {1, 9} \<longleftrightarrow> 0x80 \<le> b \<and> b \<le> 0x9F"
    "utf8_types ! b \<in> {7, 9} \<longleftrightarrow> 0x90 \<le> b \<and> b \<le> 0xBF"
    "utf8_types ! b = 1 \<longleftrightarrow> 0x80 \<le> b \<and> b \<le> 0x8F"
  by (simp_all add: utf8_types_nth [OF assms])

lemma less_12: "t < 12 \<longleftrightarrow> t \<in> {0, 1, 2, 3, 4, 5, 6, 7, 8, 9, 10, 11 :: nat}"
  by (simp, presburger)

lemma trans_rows:
  assumes "t < 12"
  shows "utf8_trans ! (16 + t) = 1"
    "utf8_trans ! (32 + t) = (if t \<in> {1, 7, 9} then 0 else 1)"
    "utf8_trans ! (48 + t) = (if t \<in> {1, 7, 9} then 2 else 1)"
    "utf8_trans ! (64 + t) = (if t = 7 then 2 else 1)"
    "utf8_trans ! (80 + t) = (if t \<in> {1, 9} then 2 else 1)"
    "utf8_trans ! (96 + t) = (if t \<in> {7, 9} then 3 else 1)"
    "utf8_trans ! (112 + t) = (if t \<in> {1, 7, 9} then 3 else 1)"
    "utf8_trans ! (128 + t) = (if t = 1 then 3 else 1)"
  using assms unfolding less_12 by (auto simp: utf8_trans_def)

text \<open>What each state still expects.\<close>

definition state_ranges :: "nat \<Rightarrow> (nat \<times> nat) list option" where
  "state_ranges st =
    (if st = 0 then Some []
     else if st = 2 then Some [(0x80, 0xBF)]
     else if st = 3 then Some [(0x80, 0xBF), (0x80, 0xBF)]
     else if st = 4 then Some [(0xA0, 0xBF), (0x80, 0xBF)]
     else if st = 5 then Some [(0x80, 0x9F), (0x80, 0xBF)]
     else if st = 6 then Some [(0x90, 0xBF), (0x80, 0xBF), (0x80, 0xBF)]
     else if st = 7 then Some [(0x80, 0xBF), (0x80, 0xBF), (0x80, 0xBF)]
     else if st = 8 then Some [(0x80, 0x8F), (0x80, 0xBF), (0x80, 0xBF)]
     else None)"

lemma first_state:
  assumes "b < 256"
  shows "next_state 0 b =
    (if b < 0x80 then 0 else if b < 0xC2 then 1 else if b < 0xE0 then 2 else if b = 0xE0 then 4
     else if b = 0xED then 5 else if b < 0xF0 then 3 else if b = 0xF0 then 6 else if b < 0xF4 then 7
     else if b = 0xF4 then 8 else 1)"
  using assms by (simp add: next_state_nth utf8_types_nth utf8_trans_def)

lemma state_ranges_first: "b < 256 \<Longrightarrow> state_ranges (next_state 0 b) = seq_ranges b"
  by (simp add: first_state state_ranges_def seq_ranges_def lead_ranges_def)

lemma next_rows:
  assumes b: "b < 256"
  shows "next_state 1 b = 1"
    "next_state 2 b = (if 0x80 \<le> b \<and> b \<le> 0xBF then 0 else 1)"
    "next_state 3 b = (if 0x80 \<le> b \<and> b \<le> 0xBF then 2 else 1)"
    "next_state 4 b = (if 0xA0 \<le> b \<and> b \<le> 0xBF then 2 else 1)"
    "next_state 5 b = (if 0x80 \<le> b \<and> b \<le> 0x9F then 2 else 1)"
    "next_state 6 b = (if 0x90 \<le> b \<and> b \<le> 0xBF then 3 else 1)"
    "next_state 7 b = (if 0x80 \<le> b \<and> b \<le> 0xBF then 3 else 1)"
    "next_state 8 b = (if 0x80 \<le> b \<and> b \<le> 0x8F then 3 else 1)"
proof -
  note rows = trans_rows [OF byte_classes(1) [OF b]] and cls = byte_classes(2-) [OF b]
  have st: "next_state 1 b = utf8_trans ! (16 + utf8_types ! b)" "next_state 2 b = utf8_trans ! (32 + utf8_types ! b)"
    "next_state 3 b = utf8_trans ! (48 + utf8_types ! b)" "next_state 4 b = utf8_trans ! (64 + utf8_types ! b)"
    "next_state 5 b = utf8_trans ! (80 + utf8_types ! b)" "next_state 6 b = utf8_trans ! (96 + utf8_types ! b)"
    "next_state 7 b = utf8_trans ! (112 + utf8_types ! b)" "next_state 8 b = utf8_trans ! (128 + utf8_types ! b)"
    by (simp_all add: next_state_nth [OF b])
  show "next_state 1 b = 1" by (simp only: st rows)
  show "next_state 2 b = (if 0x80 \<le> b \<and> b \<le> 0xBF then 0 else 1)"
    "next_state 3 b = (if 0x80 \<le> b \<and> b \<le> 0xBF then 2 else 1)"
    "next_state 4 b = (if 0xA0 \<le> b \<and> b \<le> 0xBF then 2 else 1)"
    "next_state 5 b = (if 0x80 \<le> b \<and> b \<le> 0x9F then 2 else 1)"
    "next_state 6 b = (if 0x90 \<le> b \<and> b \<le> 0xBF then 3 else 1)"
    "next_state 7 b = (if 0x80 \<le> b \<and> b \<le> 0xBF then 3 else 1)"
    "next_state 8 b = (if 0x80 \<le> b \<and> b \<le> 0x8F then 3 else 1)"
    by (simp_all only: st rows cls)
qed

lemma state_ranges_next:
  assumes b: "b < 256" and "state_ranges st = Some ((lo, hi) # rs)"
  shows "state_ranges (next_state st b) = (if lo \<le> b \<and> b \<le> hi then Some rs else None)"
proof -
  have "st = 2 \<or> st = 3 \<or> st = 4 \<or> st = 5 \<or> st = 6 \<or> st = 7 \<or> st = 8"
    using assms(2) by (auto simp: state_ranges_def split: if_splits)
  then show ?thesis
    using assms(2) by (elim disjE) (auto simp: next_rows [OF b] state_ranges_def)
qed

lemma state_ranges_None: "st < 9 \<Longrightarrow> state_ranges st = None \<longleftrightarrow> st = 1"
  by (auto simp: state_ranges_def)

lemma run_ranges:
  "state_ranges st = Some rs \<Longrightarrow> in_ranges rs bs \<Longrightarrow> \<forall>b\<in>set bs. b < 256 \<Longrightarrow> foldl next_state st bs = 0"
proof (induction bs arbitrary: st rs)
  case Nil
  then show ?case by (auto simp: in_ranges_def state_ranges_def split: if_splits)
next
  case (Cons b bs)
  then obtain lo hi rs' where rs: "rs = (lo, hi) # rs'" by (cases rs) auto
  with Cons.prems have "state_ranges (next_state st b) = Some rs'" "in_ranges rs' bs"
    by (simp_all add: state_ranges_next)
  then show ?case using Cons by simp
qed

lemma run_reject: "\<forall>b\<in>set bs. b < 256 \<Longrightarrow> foldl next_state (Suc 0) bs = Suc 0"
  using next_rows(1) by (induction bs) auto

lemma next_state_less:
  assumes b: "b < 256" and "st < 9"
  shows "next_state st b < 9"
proof -
  have "st = 0 \<or> st = 1 \<or> st = 2 \<or> st = 3 \<or> st = 4 \<or> st = 5 \<or> st = 6 \<or> st = 7 \<or> st = 8"
    using assms(2) by presburger
  then show ?thesis
    by (elim disjE) (simp_all only: first_state [OF b] next_rows [OF b], simp_all)
qed

lemma accepted_ranges:
  assumes "foldl next_state st bs = 0" "state_ranges st = Some rs" "\<forall>b\<in>set bs. b < 256"
  shows "\<exists>xs ys. bs = xs @ ys \<and> in_ranges rs xs \<and> foldl next_state 0 ys = 0"
  using assms
proof (induction bs arbitrary: st rs)
  case Nil
  then show ?case by (auto simp: state_ranges_def)
next
  case (Cons b bs)
  show ?case
  proof (cases rs)
    case Nil
    then have "st = 0" using Cons.prems(2) by (auto simp: state_ranges_def split: if_splits)
    with Nil Cons.prems(1) show ?thesis by (metis append_Nil in_ranges_Nil foldl_Cons)
  next
    case r: (Cons r rs')
    obtain lo hi where rs: "rs = (lo, hi) # rs'" using r by (cases r) auto
    have b: "b < 256" and bs: "\<forall>b\<in>set bs. b < 256" using Cons.prems(3) by auto
    have next_st: "state_ranges (next_state st b) = (if lo \<le> b \<and> b \<le> hi then Some rs' else None)"
      by (rule state_ranges_next) (use Cons.prems rs b in auto)
    have "lo \<le> b \<and> b \<le> hi"
    proof (rule ccontr)
      assume "\<not> (lo \<le> b \<and> b \<le> hi)"
      moreover have "next_state st b < 9"
        using Cons.prems(2) b by (intro next_state_less) (auto simp: state_ranges_def split: if_splits)
      ultimately have "next_state st b = 1" using next_st state_ranges_None [of "next_state st b"] by auto
      then show False using Cons.prems(1) run_reject [OF bs] by simp
    qed
    moreover from this obtain xs ys where "bs = xs @ ys" "in_ranges rs' xs" "foldl next_state 0 ys = 0"
      using Cons.IH [of "next_state st b" rs'] Cons.prems(1) next_st bs by auto
    ultimately have "b # bs = (b # xs) @ ys \<and> in_ranges rs (b # xs) \<and> foldl next_state 0 ys = 0"
      using rs by simp
    then show ?thesis by blast
  qed
qed

lemma map_char_of_byte_of: "map char_of (map byte_of s) = s"
  by (induction s) auto

lemma byte_of_less: "\<forall>b\<in>set (map byte_of s). b < 256"
  by auto

lemma accepted_first:
  assumes "foldl next_state 0 (map byte_of s) = 0" "s \<noteq> []"
  shows "\<exists>cp r. scalar cp \<and> s = utf8_bytes cp @ r \<and> foldl next_state 0 (map byte_of r) = 0"
proof -
  obtain c t where s: "s = c # t" using assms(2) by (cases s) auto
  let ?b = "byte_of c"
  have b: "?b < 256" by simp
  have run: "foldl next_state (next_state 0 ?b) (map byte_of t) = 0" using assms(1) s by simp
  then have "next_state 0 ?b \<noteq> 1" using run_reject [OF byte_of_less, of t] by auto
  then obtain rs where rs: "seq_ranges ?b = Some rs"
    using state_ranges_first [OF b] state_ranges_None [OF next_state_less [OF b, of 0]] by force
  then obtain xs ys where xy: "map byte_of t = xs @ ys" "in_ranges rs xs" "foldl next_state 0 ys = 0"
    using accepted_ranges [OF run] state_ranges_first [OF b] byte_of_less by metis
  obtain cp where cp: "scalar cp" "utf8_bytes cp = map char_of (?b # xs)"
    using seq_ranges_code_point [OF rs xy(2)] by blast
  obtain x y where t: "t = x @ y" "map byte_of x = xs" "map byte_of y = ys"
    using xy(1) by (auto simp: map_eq_append_conv)
  have "s = utf8_bytes cp @ y" using s t cp(2) by (simp flip: t(2) add: comp_def)
  then show ?thesis using cp(1) xy(3) t(3) by blast
qed

lemma run_utf8_bytes: "scalar cp \<Longrightarrow> foldl next_state 0 (map byte_of (utf8_bytes cp)) = 0"
proof -
  assume "scalar cp"
  then obtain b bs rs where *: "map byte_of (utf8_bytes cp) = b # bs" "seq_ranges b = Some rs" "in_ranges rs bs"
    by (metis utf8_bytes_seq)
  then have "\<forall>x\<in>set (b # bs). x < 256" using byte_of_less [of "utf8_bytes cp"] by simp
  then show ?thesis using * run_ranges [of "next_state 0 b" rs bs] state_ranges_first [of b] by simp
qed

text \<open>
  The serializer's automaton, started in \<open>UTF8_ACCEPT\<close>, is back in it exactly at the end of
  the byte strings that are the concatenation of encoded Unicode scalar values.
\<close>

lemma decode_accepts:
  "fst (foldl decode (UTF8_ACCEPT, cp0) (map byte_of s)) = UTF8_ACCEPT \<longleftrightarrow> utf8 s"
proof -
  have "foldl next_state 0 (map byte_of s) = 0 \<Longrightarrow> utf8 s"
  proof (induction "length s" arbitrary: s rule: less_induct)
    case less
    show ?case
    proof (cases "s = []")
      case False
      then obtain cp r where *: "scalar cp" "s = utf8_bytes cp @ r" "foldl next_state 0 (map byte_of r) = 0"
        using accepted_first less.prems by blast
      have "length r < length s" using * by (simp add: utf8_bytes_def)
      then show ?thesis using less.hyps * by (simp add: utf8_append utf8_bytes_utf8)
    qed simp
  qed
  moreover have "foldl next_state 0 (map byte_of (concat (map utf8_bytes cps))) = 0" if "list_all scalar cps" for cps
    using that by (induction cps) (simp_all add: run_utf8_bytes)
  ultimately show ?thesis
    by (auto simp: fst_foldl_decode UTF8_ACCEPT_def utf8_def)
qed

lemma next_byte_in_range_Some:
  "next_byte_in_range rs buf s = Some (buf', r) \<longleftrightarrow>
     (\<exists>xs. s = xs @ r \<and> buf' = buf @ xs \<and> in_ranges rs (map byte_of xs))"
proof (induction rs buf s rule: next_byte_in_range.induct)
  case (3 lo hi rs buf c s)
  then show ?case by (auto simp: Cons_eq_append_conv)
qed auto

section \<open>The code point the automaton delivers\<close>

lemma decode_next:
  assumes "st \<noteq> 0" "x < 0x40" "cp < 2 ^ 26"
  shows "decode (st, cp) (0x80 + x) = (next_state st (0x80 + x), cp * 0x40 + x)"
proof -
  have "(0x80 + x) AND 0x3F = x" using assms(2) by (simp add: and_low_bits mod_add_left_eq [symmetric])
  moreover have "push_bit 6 cp mod 2 ^ 32 = 2 ^ 6 * cp" using assms(3) by (simp add: push_bit_eq_mult)
  moreover have "x OR (2 ^ 6 * cp) = cp * 0x40 + x"
    using or_disjoint [of x 6 cp] assms(2) by (simp add: or.commute)
  ultimately show ?thesis using assms(1) by (simp add: decode_def next_state_def UTF8_ACCEPT_def Let_def)
qed

lemma decode_first:
  assumes "b < 256"
  shows "decode (0, c) b = (next_state 0 b, drop_bit (utf8_types ! b) 0xFF AND b)"
  using assms by (simp add: decode_def next_state_def UTF8_ACCEPT_def Let_def utf8d_byte)

lemma mod_shift: "a mod m = 0 \<Longrightarrow> x < m \<Longrightarrow> (a + x) mod m = x" for a m x :: nat
  by (metis add_0 mod_add_left_eq mod_less)

lemma decode_lead:
  "x < 0x80 \<Longrightarrow> decode (0, c) x = (0, x)"
  "2 \<le> x \<Longrightarrow> x < 0x20 \<Longrightarrow> decode (0, c) (0xC0 + x) = (2, x)"
  "x < 0x10 \<Longrightarrow> decode (0, c) (0xE0 + x) = (if x = 0 then 4 else if x = 0xD then 5 else 3, x)"
  "x < 5 \<Longrightarrow> decode (0, c) (0xF0 + x) = (if x = 0 then 6 else if x = 4 then 8 else 7, x)"
proof -
  have d: "drop_bit 10 (0xFF :: nat) = 0" "drop_bit 11 (0xFF :: nat) = 0" "drop_bit 2 (0xFF :: nat) = 0x3F"
    "drop_bit 3 (0xFF :: nat) = 0x1F" "drop_bit 4 (0xFF :: nat) = 0xF" "drop_bit 5 (0xFF :: nat) = 7"
    "drop_bit 6 (0xFF :: nat) = 3" by (simp_all add: drop_bit_eq_div)
  have m: "x < 0x20 \<Longrightarrow> (0xC0 + x) mod 0x40 = x" "x < 0x10 \<Longrightarrow> (0xE0 + x) mod 0x20 = x"
    "x < 0x10 \<Longrightarrow> (0xE0 + x) mod 0x10 = x" "x < 5 \<Longrightarrow> (0xF0 + x) mod 8 = x" "x < 4 \<Longrightarrow> (0xF0 + x) mod 4 = x"
    by (rule mod_shift; simp)+
  show "x < 0x80 \<Longrightarrow> decode (0, c) x = (0, x)"
    by (simp add: decode_first first_state utf8_types_nth and_low_bits)
  show "2 \<le> x \<Longrightarrow> x < 0x20 \<Longrightarrow> decode (0, c) (0xC0 + x) = (2, x)"
    by (simp add: decode_first first_state utf8_types_nth d and_low_bits m)
  show "x < 0x10 \<Longrightarrow> decode (0, c) (0xE0 + x) = (if x = 0 then 4 else if x = 0xD then 5 else 3, x)"
    by (simp add: decode_first first_state utf8_types_nth d and_low_bits m)
  show "x < 5 \<Longrightarrow> decode (0, c) (0xF0 + x) = (if x = 0 then 6 else if x = 4 then 8 else 7, x)"
    by (simp add: decode_first first_state utf8_types_nth d and_low_bits m)
qed

lemma decode_utf8_bytes:
  assumes "scalar cp"
  shows "foldl decode (0, c) (map byte_of (utf8_bytes cp)) = (0, cp)"
proof -
  have hi: "cp \<le> 0x10FFFF" using assms by (auto simp: scalar_def)
  have m: "x mod 0x40 < 0x40" for x :: nat by simp
  have ne: "(if b then 4 else if d then 5 else 3 :: nat) \<noteq> 0" "(if b then 6 else if d then 8 else 7 :: nat) \<noteq> 0" for b d
    by auto
  have fst: "fst (foldl decode (0, c) (map byte_of (utf8_bytes cp))) = 0"
    by (simp add: fst_foldl_decode run_utf8_bytes [OF assms])
  consider "cp < 0x80" | "0x80 \<le> cp" "cp \<le> 0x7FF" | "0x800 \<le> cp" "cp \<le> 0xFFFF" | "0x10000 \<le> cp"
    by linarith
  then have "snd (foldl decode (0, c) (map byte_of (utf8_bytes cp))) = cp"
  proof cases
    case 1
    then show ?thesis by (simp add: utf8_bytes_def decode_lead)
  next
    case 2
    define w where "w = cp div 0x40"
    have w: "2 \<le> w" "w < 0x20" using 2 by (auto simp: w_def)
    have bytes: "map byte_of (utf8_bytes cp) = [0xC0 + w, 0x80 + cp mod 0x40]"
      using 2 w by (simp add: utf8_bytes_arith [OF hi] w_def)
    have "w * 0x40 + cp mod 0x40 = cp" unfolding w_def by (rule div_mult_mod_eq)
    then show ?thesis using w m [of cp] unfolding bytes by (simp add: decode_lead decode_next)
  next
    case 3
    define w where "w = cp div 0x1000"
    define x where "x = cp div 0x40 mod 0x40"
    have w: "w < 0x10" "x < 0x40" using 3 by (auto simp: w_def x_def)
    have bytes: "map byte_of (utf8_bytes cp) = [0xE0 + w, 0x80 + x, 0x80 + cp mod 0x40]"
      using 3 w by (simp add: utf8_bytes_arith [OF hi] w_def x_def)
    have "w * 0x40 + x = cp div 0x40" unfolding w_def x_def div_base64 by (rule div_mult_mod_eq)
    then have "(w * 0x40 + x) * 0x40 + cp mod 0x40 = cp" by (simp only: div_mult_mod_eq)
    moreover have "next_state (if w = 0 then 4 else if w = 0xD then 5 else 3) (0x80 + x) \<noteq> 0"
      using w by (simp add: next_rows)
    ultimately show ?thesis
      using w m [of cp] ne unfolding bytes by (simp add: decode_lead decode_next split del: if_split)
  next
    case 4
    define w where "w = cp div 0x40000"
    define x where "x = cp div 0x1000 mod 0x40"
    define y where "y = cp div 0x40 mod 0x40"
    have w: "w < 5" "x < 0x40" "y < 0x40" using hi by (auto simp: w_def x_def y_def)
    have bytes: "map byte_of (utf8_bytes cp) = [0xF0 + w, 0x80 + x, 0x80 + y, 0x80 + cp mod 0x40]"
      using 4 w by (simp add: utf8_bytes_arith [OF hi] w_def x_def y_def)
    have "w * 0x40 + x = cp div 0x1000" unfolding w_def x_def div_base64 by (rule div_mult_mod_eq)
    then have "(w * 0x40 + x) * 0x40 + y = cp div 0x40"
      unfolding y_def div_base64 by (simp only: div_mult_mod_eq)
    then have "((w * 0x40 + x) * 0x40 + y) * 0x40 + cp mod 0x40 = cp" by (simp only: div_mult_mod_eq)
    moreover have "next_state (if w = 0 then 6 else if w = 4 then 8 else 7) (0x80 + x) \<in> {1, 3}"
      using w by (simp add: next_rows)
    moreover from this
    have "next_state (next_state (if w = 0 then 6 else if w = 4 then 8 else 7) (0x80 + x)) (0x80 + y) \<noteq> 0"
      using w next_rows(1,3) [of "0x80 + y"] by (elim insertE) simp_all
    ultimately show ?thesis
      using w m [of cp] ne unfolding bytes
      by (elim insertE) (simp_all add: decode_lead decode_next split del: if_split)
  qed
  then show ?thesis using fst by (simp add: prod_eq_iff)
qed


text \<open>
  C24. The serializer's UTF-8 automaton is exact: run over any bytes from its initial state, whatever code
  point it held before, it is back in the accepting state exactly when the bytes are the
  concatenation of encodings of Unicode scalar values, with the encoding that the lexer produces
  for escapes; overlong forms, surrogates, values above 10FFFF and truncated sequences all lead elsewhere.
\<close>

theorem utf8_automaton_exact:
  "fst (foldl decode (UTF8_ACCEPT, cp0) (map byte_of s)) = UTF8_ACCEPT \<longleftrightarrow>
    (\<exists>cps. list_all scalar cps \<and> s = concat (map utf8_bytes cps))"
  unfolding decode_accepts utf8_def ..

end
