(* ===== verification/JsonValue.thy ===== *)
theory JsonValue
  imports Utf8 "HOL-Library.Char_ord" "HOL-Library.List_Lexorder"
begin

text \<open>
  The values of the JSON library (\<open>basic_json\<close> of module-spoof/jni/include/json.hpp with the
  default \<open>std::map\<close> for objects). An object is an association list sorted by key, the order in which the map is iterated:
  keys are compared byte by byte, as \<open>std::less<std::string>\<close> does. A floating-point number is
  kept as the literal it was read from; what becomes of it as a \<open>double\<close> is a parameter.
\<close>

datatype json =
    JNull
  | JBool bool
  | JInt int
  | JFloat string
  | JString string
  | JArray "json list"
  | JObject "(string \<times> json) list"

text \<open>\<open>object[key] = value\<close> on the map.\<close>

fun obj_set :: "(string \<times> json) list \<Rightarrow> string \<Rightarrow> json \<Rightarrow> (string \<times> json) list" where
  "obj_set [] k v = [(k, v)]"
| "obj_set ((k', v') # ob) k v =
     (if k < k' then (k, v) # (k', v') # ob
      else if k = k' then (k, v) # ob
      else (k', v') # obj_set ob k v)"

text \<open>\<open>operator[]\<close> alone inserts null at a key that is absent.\<close>

definition obj_touch :: "(string \<times> json) list \<Rightarrow> string \<Rightarrow> (string \<times> json) list" where
  "obj_touch ob k = (if map_of ob k = None then obj_set ob k JNull else ob)"

text \<open>An object built by successive assignments \<open>j[key] = value\<close>.\<close>

definition mk_obj :: "(string \<times> json) list \<Rightarrow> (string \<times> json) list" where
  "mk_obj kvs = foldl (\<lambda>ob (k, v). obj_set ob k v) [] kvs"

definition obj_sorted :: "(string \<times> json) list \<Rightarrow> bool" where
  "obj_sorted ob \<longleftrightarrow> sorted_wrt (<) (map fst ob)"

lemma map_of_obj_set [simp]: "map_of (obj_set ob k v) k' = (if k' = k then Some v else map_of ob k')"
  by (induction ob k v rule: obj_set.induct) auto

text \<open>Reading \<open>object[key]\<close> after an assignment: null for a key that was never set.\<close>

interpretation objects: keyed_store "\<lambda>ob k. case map_of ob k of None \<Rightarrow> JNull | Some j \<Rightarrow> j" obj_set
  by unfold_locales simp

lemma obj_set_keys: "set (map fst (obj_set ob k v)) = insert k (set (map fst ob))"
  by (induction ob k v rule: obj_set.induct) auto

lemma obj_set_set: "set (obj_set ob k v) \<subseteq> insert (k, v) (set ob)"
  by (induction ob k v rule: obj_set.induct) auto

lemma obj_sorted_Nil [simp]: "obj_sorted []"
  by (simp add: obj_sorted_def)

lemma obj_sorted_Cons: "obj_sorted (e # ob) \<longleftrightarrow> (\<forall>k\<in>set (map fst ob). fst e < k) \<and> obj_sorted ob"
  by (simp add: obj_sorted_def)

lemma obj_sorted_set: "obj_sorted ob \<Longrightarrow> obj_sorted (obj_set ob k v)"
proof (induction ob k v rule: obj_set.induct)
  case (2 k' v' ob k v)
  show ?case
  proof (cases "k < k'")
    case True
    with 2(2) show ?thesis by (auto simp: obj_sorted_Cons)
  next
    case False
    then consider "k = k'" | "k' < k" by fastforce
    then show ?thesis
    proof cases
      case 1
      with 2(2) show ?thesis by (auto simp: obj_sorted_Cons)
    next
      case 2
      then have n: "\<not> k < k'" "k \<noteq> k'" by auto
      have "obj_sorted (obj_set ob k v)" using "2.IH" n "2.prems" by (simp add: obj_sorted_Cons)
      moreover have "\<forall>x\<in>set (map fst (obj_set ob k v)). k' < x"
        unfolding obj_set_keys using "2.prems" 2 by (auto simp: obj_sorted_Cons)
      ultimately show ?thesis using n by (simp add: obj_sorted_Cons)
    qed
  qed
qed (simp add: obj_sorted_def)

lemma obj_set_touch: "obj_set (obj_touch ob k) k v = obj_set ob k v"
proof -
  have "obj_set (obj_set ob k w) k v = obj_set ob k v" for w
    by (induction ob k w rule: obj_set.induct) auto
  then show ?thesis by (simp add: obj_touch_def)
qed

text \<open>Setting a key above all others appends it.\<close>

lemma obj_set_last: "\<forall>k'\<in>set (map fst ob). k' < k \<Longrightarrow> obj_set ob k v = ob @ [(k, v)]"
  by (induction ob k v rule: obj_set.induct) (auto dest: order.asym)

section \<open>Well-formed values\<close>

lemma size_member_value [termination_simp]:
  "kv \<in> set ob \<Longrightarrow> size (snd kv) < Suc (size_list (size_prod (\<lambda>x. 0) size) ob)"
  by (induction ob) auto

text \<open>
  What the library's types and its reader guarantee: integers fit in 64 bits (signed when
  negative), strings and keys are UTF-8, keys are sorted and unique.
\<close>

fun json_ok :: "json \<Rightarrow> bool" where
  "json_ok JNull = True"
| "json_ok (JBool b) = True"
| "json_ok (JInt i) = (- (2 ^ 63) \<le> i \<and> i < 2 ^ 64)"
| "json_ok (JFloat f) = True"
| "json_ok (JString s) = utf8 s"
| "json_ok (JArray xs) = (\<forall>x\<in>set xs. json_ok x)"
| "json_ok (JObject ob) = (obj_sorted ob \<and> (\<forall>kv\<in>set ob. utf8 (fst kv) \<and> json_ok (snd kv)))"

fun has_float :: "json \<Rightarrow> bool" where
  "has_float (JFloat f) = True"
| "has_float (JArray xs) = (\<exists>x\<in>set xs. has_float x)"
| "has_float (JObject ob) = (\<exists>kv\<in>set ob. has_float (snd kv))"
| "has_float _ = False"

lemma json_ok_set: "json_ok (JObject ob) \<Longrightarrow> utf8 k \<Longrightarrow> json_ok v \<Longrightarrow> json_ok (JObject (obj_set ob k v))"
  using obj_set_set [of ob k v] by (auto simp: obj_sorted_set)

lemma mk_obj_ok:
  assumes "\<forall>kv\<in>set kvs. utf8 (fst kv) \<and> json_ok (snd kv)"
  shows "json_ok (JObject (mk_obj kvs))"
proof -
  have "json_ok (JObject (foldl (\<lambda>ob (k, v). obj_set ob k v) ob kvs))" if "json_ok (JObject ob)" for ob
    using assms that
  proof (induction kvs arbitrary: ob)
    case (Cons kv kvs)
    then have "json_ok (JObject (obj_set ob (fst kv) (snd kv)))"
      by (intro json_ok_set) (simp_all del: json_ok.simps)
    moreover have "\<forall>kv\<in>set kvs. utf8 (fst kv) \<and> json_ok (snd kv)" using Cons.prems(1) by simp
    ultimately show ?case using Cons.IH by (simp add: case_prod_beta del: json_ok.simps)
  qed (simp del: json_ok.simps)
  moreover have "json_ok (JObject [])" by simp
  ultimately show ?thesis unfolding mk_obj_def by blast
qed

lemma utf8_code [code]: "utf8 s \<longleftrightarrow> foldl next_state 0 (map byte_of s) = 0"
  using decode_accepts [of 0 s] by (simp add: fst_foldl_decode UTF8_ACCEPT_def)

end
