(* ===== verification/JsonLexer.thy ===== *)
theory JsonLexer
  imports JsonValue JsonText
begin

text \<open>
  The lexer of the JSON library (class \<open>lexer\<close> of module-spoof/jni/include/json.hpp). The
  first part models the character source, with the one-character \<open>unget\<close> and the position
  counters, and shows that it presents the input as a list of characters that can be put
  back; the scanning functions are then written on the input that is left. A failed scan
  gives \<open>Parse_error\<close> with the lexer's message; what remains of the input is then
  irrelevant, since the parser stops, and is given as empty. The C locale is assumed (the
  programs never call \<open>setlocale\<close>), so the decimal point is a dot.
\<close>

section \<open>The character source\<close>

record lexer_input =
  ia :: string
  current :: "char option"
  next_unget :: bool
  chars_read_total :: nat
  chars_read_current_line :: nat
  lines_read :: nat

definition lexer_init :: "string \<Rightarrow> lexer_input" where
  "lexer_init s = \<lparr>ia = s, current = None, next_unget = False, chars_read_total = 0,
     chars_read_current_line = 0, lines_read = 0\<rparr>"

text \<open>\<open>ia.get_character()\<close>: the next character, end of file again and again at the end.\<close>

definition get_character :: "lexer_input \<Rightarrow> lexer_input" where
  "get_character l = (case ia l of
      [] \<Rightarrow> l\<lparr>current := None\<rparr>
    | c # s \<Rightarrow> l\<lparr>current := Some c, ia := s\<rparr>)"

definition lexer_get :: "lexer_input \<Rightarrow> char option \<times> lexer_input" where
  "lexer_get l =
    (let l1 = l\<lparr>chars_read_total := chars_read_total l + 1,
               chars_read_current_line := chars_read_current_line l + 1\<rparr>;
         l2 = (if next_unget l1 then l1\<lparr>next_unget := False\<rparr> else get_character l1);
         l3 = (if current l2 = Some nl
               then l2\<lparr>lines_read := lines_read l2 + 1, chars_read_current_line := 0\<rparr> else l2)
     in (current l3, l3))"

definition lexer_unget :: "lexer_input \<Rightarrow> lexer_input" where
  "lexer_unget l =
    (let l1 = l\<lparr>next_unget := True, chars_read_total := chars_read_total l - 1\<rparr>
     in if chars_read_current_line l1 = 0 then
          (if lines_read l1 > 0 then l1\<lparr>lines_read := lines_read l1 - 1\<rparr> else l1)
        else l1\<lparr>chars_read_current_line := chars_read_current_line l1 - 1\<rparr>)"

text \<open>The input the source still presents.\<close>

definition pending :: "lexer_input \<Rightarrow> string" where
  "pending l = (if next_unget l then (case current l of None \<Rightarrow> [] | Some c \<Rightarrow> [c]) else []) @ ia l"

text \<open>End of file is only current when nothing is left; an unget follows a get.\<close>

definition source_ok :: "lexer_input \<Rightarrow> bool" where
  "source_ok l \<longleftrightarrow> (next_unget l \<and> current l = None \<longrightarrow> ia l = [])"

lemma pending_init [simp]: "pending (lexer_init s) = s"
  by (simp add: pending_def lexer_init_def)

text \<open>
  The contract the scanning functions use: a get takes the first pending character, an
  unget straight after it puts it back.
\<close>

locale char_source =
  fixes get :: "'l \<Rightarrow> char option \<times> 'l"
    and unget :: "'l \<Rightarrow> 'l"
    and view :: "'l \<Rightarrow> string"
    and ok :: "'l \<Rightarrow> bool"
  assumes get_Cons: "ok l \<Longrightarrow> view l = c # s \<Longrightarrow> fst (get l) = Some c \<and> view (snd (get l)) = s"
    and get_Nil: "ok l \<Longrightarrow> view l = [] \<Longrightarrow> fst (get l) = None \<and> view (snd (get l)) = []"
    and get_ok: "ok l \<Longrightarrow> ok (snd (get l))"
    and unget_get: "ok l \<Longrightarrow> ok (unget (snd (get l))) \<and> view (unget (snd (get l))) = view l"
begin

fun read_all :: "nat \<Rightarrow> 'l \<Rightarrow> char option list" where
  "read_all 0 l = []"
| "read_all (Suc n) l = fst (get l) # read_all n (snd (get l))"

lemma read_all_view:
  "ok l \<Longrightarrow> read_all n l = map Some (take n (view l)) @ replicate (n - length (view l)) None"
proof (induction n arbitrary: l)
  case (Suc n)
  show ?case
  proof (cases "view l")
    case Nil
    then show ?thesis using get_Nil [OF Suc.prems Nil] Suc.IH [OF get_ok [OF Suc.prems]] by simp
  next
    case (Cons c s)
    then show ?thesis using get_Cons [OF Suc.prems Cons] Suc.IH [OF get_ok [OF Suc.prems]] by simp
  qed
qed simp

lemma reread: "ok l \<Longrightarrow> fst (get (unget (snd (get l)))) = fst (get l)"
  using get_Cons get_Nil unget_get by (metis list.exhaust)

end

lemma lexer_get_result:
  "lexer_get l =
     (if next_unget l then current l else (case ia l of [] \<Rightarrow> None | c # s \<Rightarrow> Some c), snd (lexer_get l))"
  "ia (snd (lexer_get l)) = (if next_unget l then ia l else tl (ia l))"
  "current (snd (lexer_get l)) = fst (lexer_get l)"
  "\<not> next_unget (snd (lexer_get l))"
  by (simp_all add: lexer_get_def Let_def get_character_def split: list.split)

lemma lexer_unget_frame [simp]:
  "ia (lexer_unget l) = ia l" "current (lexer_unget l) = current l" "next_unget (lexer_unget l)"
  by (simp_all add: lexer_unget_def Let_def)

lemma fst_lexer_get: "fst (lexer_get l) = (if next_unget l then current l else (case ia l of [] \<Rightarrow> None | c # s \<Rightarrow> Some c))"
  using lexer_get_result(1) [of l] by (metis fst_conv)

interpretation source: char_source lexer_get lexer_unget pending source_ok
proof
  note defs = pending_def source_ok_def fst_lexer_get lexer_get_result(2-4)
  show "source_ok l \<Longrightarrow> pending l = c # s \<Longrightarrow>
      fst (lexer_get l) = Some c \<and> pending (snd (lexer_get l)) = s" for l c s
    by (cases "next_unget l"; cases "current l"; cases "ia l") (simp_all add: defs)
  show "source_ok l \<Longrightarrow> pending l = [] \<Longrightarrow>
      fst (lexer_get l) = None \<and> pending (snd (lexer_get l)) = []" for l
    by (cases "next_unget l"; cases "current l"; cases "ia l") (simp_all add: defs)
  show "source_ok l \<Longrightarrow> source_ok (snd (lexer_get l))" for l
    by (simp add: defs)
  show "source_ok l \<Longrightarrow> source_ok (lexer_unget (snd (lexer_get l))) \<and>
      pending (lexer_unget (snd (lexer_get l))) = pending l" for l
    by (cases "next_unget l"; cases "current l"; cases "ia l") (simp_all add: defs)
qed

text \<open>Reading from a fresh lexer gives the characters of the text, then end of file.\<close>

lemma lexer_reads_text:
  "source.read_all (Suc (length s)) (lexer_init s) = map Some s @ [None]"
proof -
  have "source_ok (lexer_init s)" by (simp add: source_ok_def lexer_init_def)
  from source.read_all_view [OF this] show ?thesis by simp
qed

section \<open>Tokens\<close>

datatype token =
    Literal_true
  | Literal_false
  | Literal_null
  | Value_string string
  | Value_unsigned nat
  | Value_integer int
  | Value_float string
  | Begin_array
  | Begin_object
  | End_array
  | End_object
  | Name_separator
  | Value_separator
  | Parse_error string
  | End_of_input

section \<open>String literals\<close>

text \<open>The loop over the shift counts 12, 8, 4, 0; None stands for the result -1.\<close>

fun get_codepoint_loop :: "nat list \<Rightarrow> nat \<Rightarrow> string \<Rightarrow> (nat \<times> string) option" where
  "get_codepoint_loop [] codepoint s = Some (codepoint, s)"
| "get_codepoint_loop (factor # factors) codepoint [] = None"
| "get_codepoint_loop (factor # factors) codepoint (c # s) = (case hex_value c of
      None \<Rightarrow> None
    | Some d \<Rightarrow> get_codepoint_loop factors (codepoint + push_bit factor d) s)"

definition get_codepoint :: "string \<Rightarrow> (nat \<times> string) option" where
  "get_codepoint s = get_codepoint_loop [12, 8, 4, 0] 0 s"

definition msg_hex_digits :: string where
  "msg_hex_digits = ''invalid string: '' @ [CHR 0x27, backslash] @ ''u'' @ [CHR 0x27] @ '' must be followed by 4 hex digits''"

definition msg_high_surrogate :: string where
  "msg_high_surrogate = ''invalid string: surrogate U+D800..U+DBFF must be followed by U+DC00..U+DFFF''"

definition msg_low_surrogate :: string where
  "msg_low_surrogate = ''invalid string: surrogate U+DC00..U+DFFF must follow U+D800..U+DBFF''"

text \<open>The \<open>case 'u'\<close> of \<open>scan_string\<close>: the bytes to add, or the message.\<close>

definition scan_unicode :: "string \<Rightarrow> string + (string \<times> string)" where
  "scan_unicode s = (case get_codepoint s of
      None \<Rightarrow> Inl msg_hex_digits
    | Some (codepoint1, s1) \<Rightarrow>
        if 0xD800 \<le> codepoint1 \<and> codepoint1 \<le> 0xDBFF then
          (case s1 of
             c1 # c2 # s2 \<Rightarrow>
               if c1 = backslash \<and> c2 = CHR ''u'' then
                 (case get_codepoint s2 of
                    None \<Rightarrow> Inl msg_hex_digits
                  | Some (codepoint2, s3) \<Rightarrow>
                      if 0xDC00 \<le> codepoint2 \<and> codepoint2 \<le> 0xDFFF then
                        Inr (utf8_bytes (push_bit 10 codepoint1 + codepoint2 - 0x35FDC00), s3)
                      else Inl msg_high_surrogate)
               else Inl msg_high_surrogate
           | _ \<Rightarrow> Inl msg_high_surrogate)
        else if 0xDC00 \<le> codepoint1 \<and> codepoint1 \<le> 0xDFFF then Inl msg_low_surrogate
        else Inr (utf8_bytes codepoint1, s1))"

text \<open>The switch on the character after a backslash.\<close>

definition scan_escape :: "char \<Rightarrow> string \<Rightarrow> string + (string \<times> string)" where
  "scan_escape e s =
    (if e = quote then Inr ([quote], s)
     else if e = backslash then Inr ([backslash], s)
     else if e = CHR ''/'' then Inr (''/'', s)
     else if e = CHR ''b'' then Inr ([CHR 0x08], s)
     else if e = CHR ''f'' then Inr ([CHR 0x0C], s)
     else if e = CHR ''n'' then Inr ([CHR 0x0A], s)
     else if e = CHR ''r'' then Inr ([CHR 0x0D], s)
     else if e = CHR ''t'' then Inr ([CHR 0x09], s)
     else if e = CHR ''u'' then scan_unicode s
     else Inl ''invalid string: forbidden character after backslash'')"

text \<open>The messages of the 32 cases for control characters.\<close>

definition control_names :: "string list" where
  "control_names =
    [''NUL'', ''SOH'', ''STX'', ''ETX'', ''EOT'', ''ENQ'', ''ACK'', ''BEL'',
     ''BS'', ''HT'', ''LF'', ''VT'', ''FF'', ''CR'', ''SO'', ''SI'',
     ''DLE'', ''DC1'', ''DC2'', ''DC3'', ''DC4'', ''NAK'', ''SYN'', ''ETB'',
     ''CAN'', ''EM'', ''SUB'', ''ESC'', ''FS'', ''GS'', ''RS'', ''US'']"

definition upper_hex :: "nat \<Rightarrow> char" where
  "upper_hex d = (if d < 10 then char_of (48 + d) else char_of (55 + d))"

definition control_short :: "nat \<Rightarrow> string" where
  "control_short b =
    (if b = 0x08 then '' or '' @ [backslash, CHR ''b'']
     else if b = 0x09 then '' or '' @ [backslash, CHR ''t'']
     else if b = 0x0A then '' or '' @ [backslash, CHR ''n'']
     else if b = 0x0C then '' or '' @ [backslash, CHR ''f'']
     else if b = 0x0D then '' or '' @ [backslash, CHR ''r'']
     else [])"

definition control_message :: "nat \<Rightarrow> string" where
  "control_message b =
    (let code = ''00'' @ [upper_hex (b div 16), upper_hex (b mod 16)]
     in ''invalid string: control character U+'' @ code @ '' ('' @ control_names ! b @
        '') must be escaped to '' @ [backslash, CHR ''u''] @ code @ control_short b)"

lemma get_codepoint_loop_length:
  "get_codepoint_loop fs cp s = Some (cp', s') \<Longrightarrow> length s = length fs + length s'"
  by (induction fs cp s rule: get_codepoint_loop.induct) (auto split: option.splits)

lemma get_codepoint_length: "get_codepoint s = Some (cp, s') \<Longrightarrow> length s' \<le> length s"
  by (auto simp: get_codepoint_def dest: get_codepoint_loop_length)

lemma scan_unicode_length: "scan_unicode s = Inr (bs, s') \<Longrightarrow> length s' \<le> length s"
  by (auto simp: scan_unicode_def split: option.splits if_splits list.splits prod.splits
      dest!: get_codepoint_length)

lemma scan_escape_length: "scan_escape e s = Inr (bs, s') \<Longrightarrow> length s' \<le> length s"
  by (auto simp: scan_escape_def scan_unicode_length split: if_splits)

lemma next_byte_length: "next_byte_in_range rs buf s = Some (buf', s') \<Longrightarrow> length s' \<le> length s"
  by (auto simp: next_byte_in_range_Some)

text \<open>\<open>scan_string\<close> after the opening quote; \<open>buf\<close> is the token buffer.\<close>

function scan_string :: "string \<Rightarrow> string \<Rightarrow> token \<times> string" where
  "scan_string buf [] = (Parse_error ''invalid string: missing closing quote'', [])"
| "scan_string buf (c # s) =
    (if c = quote then (Value_string buf, s)
     else if c = backslash then
       (case s of
          [] \<Rightarrow> (Parse_error ''invalid string: forbidden character after backslash'', [])
        | e # s1 \<Rightarrow> (case scan_escape e s1 of
            Inl msg \<Rightarrow> (Parse_error msg, [])
          | Inr (bytes, s2) \<Rightarrow> scan_string (buf @ bytes) s2))
     else if byte_of c < 0x20 then (Parse_error (control_message (byte_of c)), [])
     else (case lead_ranges (byte_of c) of
         None \<Rightarrow> (Parse_error ''invalid string: ill-formed UTF-8 byte'', [])
       | Some ranges \<Rightarrow> (case next_byte_in_range ranges (buf @ [c]) s of
             None \<Rightarrow> (Parse_error ''invalid string: ill-formed UTF-8 byte'', [])
           | Some (buf', s') \<Rightarrow> scan_string buf' s')))"
  by pat_completeness auto
termination
  by (relation "measure (length \<circ> snd)") (auto dest!: scan_escape_length next_byte_length)

section \<open>Numbers\<close>

text \<open>The states of \<open>scan_number\<close>, one for each of its labels.\<close>

datatype num_state = Minus | Zero | Any1 | Decimal1 | Decimal2 | Exponent | Sign | Any2

datatype num_type = N_unsigned | N_integer | N_float

text \<open>The switches: where a state goes on a character; None where it stops.\<close>

definition num_step :: "num_state \<Rightarrow> char \<Rightarrow> num_state option" where
  "num_step st c =
    (case st of
       Minus \<Rightarrow> if c = CHR ''0'' then Some Zero else if is_digit c then Some Any1 else None
     | Zero \<Rightarrow> if c = CHR ''.'' then Some Decimal1
              else if c = CHR ''e'' \<or> c = CHR ''E'' then Some Exponent else None
     | Any1 \<Rightarrow> if is_digit c then Some Any1 else if c = CHR ''.'' then Some Decimal1
              else if c = CHR ''e'' \<or> c = CHR ''E'' then Some Exponent else None
     | Decimal1 \<Rightarrow> if is_digit c then Some Decimal2 else None
     | Decimal2 \<Rightarrow> if is_digit c then Some Decimal2
                  else if c = CHR ''e'' \<or> c = CHR ''E'' then Some Exponent else None
     | Exponent \<Rightarrow> if c = CHR ''+'' \<or> c = CHR ''-'' then Some Sign else if is_digit c then Some Any2 else None
     | Sign \<Rightarrow> if is_digit c then Some Any2 else None
     | Any2 \<Rightarrow> if is_digit c then Some Any2 else None)"

text \<open>The states that cannot end a number, with their messages.\<close>

definition num_error :: "num_state \<Rightarrow> string option" where
  "num_error st =
    (case st of
       Minus \<Rightarrow> Some (''invalid number; expected digit after '' @ [CHR 0x27] @ ''-'' @ [CHR 0x27])
     | Decimal1 \<Rightarrow> Some (''invalid number; expected digit after '' @ [CHR 0x27] @ ''.'' @ [CHR 0x27])
     | Exponent \<Rightarrow> Some (''invalid number; expected '' @ [CHR 0x27] @ ''+'' @ [CHR 0x27] @ '', '' @ [CHR 0x27] @
         ''-'' @ [CHR 0x27] @ '', or digit after exponent'')
     | Sign \<Rightarrow> Some ''invalid number; expected digit after exponent sign''
     | _ \<Rightarrow> None)"

text \<open>The assignments to \<open>number_type\<close> at the labels.\<close>

definition num_enter :: "num_state \<Rightarrow> num_type \<Rightarrow> num_type" where
  "num_enter st ty = (case st of Minus \<Rightarrow> N_integer | Decimal1 \<Rightarrow> N_float | Exponent \<Rightarrow> N_float | _ \<Rightarrow> ty)"

text \<open>
  \<open>scan_number_done\<close>: \<open>strtoull\<close> and \<open>strtoll\<close> with their range errors, after which the
  number is a floating-point one.
\<close>

definition number_token :: "num_type \<Rightarrow> string \<Rightarrow> token" where
  "number_token ty buf =
    (case ty of
       N_unsigned \<Rightarrow> (let x = digits_value buf in if x < 2 ^ 64 then Value_unsigned x else Value_float buf)
     | N_integer \<Rightarrow> (let x = - int (digits_value (tl buf)) in
         if - (2 ^ 63) \<le> x then Value_integer x else Value_float buf)
     | N_float \<Rightarrow> Value_float buf)"

fun scan_number_loop :: "num_state \<Rightarrow> num_type \<Rightarrow> string \<Rightarrow> string \<Rightarrow> token \<times> string" where
  "scan_number_loop st ty buf [] = (case num_error st of
      Some msg \<Rightarrow> (Parse_error msg, [])
    | None \<Rightarrow> (number_token ty buf, []))"
| "scan_number_loop st ty buf (c # s) = (case num_step st c of
      Some st' \<Rightarrow> scan_number_loop st' (num_enter st' ty) (buf @ [c]) s
    | None \<Rightarrow> (case num_error st of
        Some msg \<Rightarrow> (Parse_error msg, [])
      | None \<Rightarrow> (number_token ty buf, c # s)))"

text \<open>State \<open>init\<close>: \<open>c\<close> is the current character, a minus sign or a digit.\<close>

definition scan_number :: "char \<Rightarrow> string \<Rightarrow> token \<times> string" where
  "scan_number c s =
    (if c = CHR ''-'' then scan_number_loop Minus (num_enter Minus N_unsigned) [c] s
     else if c = CHR ''0'' then scan_number_loop Zero N_unsigned [c] s
     else scan_number_loop Any1 N_unsigned [c] s)"

section \<open>The scanner\<close>

fun scan_literal :: "string \<Rightarrow> token \<Rightarrow> string \<Rightarrow> token \<times> string" where
  "scan_literal [] return_type s = (return_type, s)"
| "scan_literal (x # xs) return_type [] = (Parse_error ''invalid literal'', [])"
| "scan_literal (x # xs) return_type (c # s) =
     (if c \<noteq> x then (Parse_error ''invalid literal'', []) else scan_literal xs return_type s)"

definition json_ws :: "char \<Rightarrow> bool" where
  "json_ws c \<longleftrightarrow> c = CHR '' '' \<or> c = CHR 0x09 \<or> c = CHR 0x0A \<or> c = CHR 0x0D"

definition skip_whitespace :: "string \<Rightarrow> string" where
  "skip_whitespace s = dropWhile json_ws s"

text \<open>\<open>scan_comment\<close>, after the slash; NUL ends a comment like the end of the input.\<close>

fun line_comment :: "string \<Rightarrow> string" where
  "line_comment [] = []"
| "line_comment (c # s) = (if c = CHR 0x0A \<or> c = CHR 0x0D \<or> c = CHR 0x00 then s else line_comment s)"

definition msg_comment_open :: string where
  "msg_comment_open = ''invalid comment; missing closing '' @ [CHR 0x27] @ ''*/'' @ [CHR 0x27]"

fun block_comment :: "string \<Rightarrow> string + string" where
  "block_comment [] = Inl msg_comment_open"
| "block_comment (c # s) =
    (if c = CHR 0x00 then Inl msg_comment_open
     else if c = CHR ''*'' then
       (case s of [] \<Rightarrow> Inl msg_comment_open | d # s' \<Rightarrow> if d = CHR ''/'' then Inr s' else block_comment s)
     else block_comment s)"

definition scan_comment :: "string \<Rightarrow> string + string" where
  "scan_comment s =
    (case s of
       c # s' \<Rightarrow>
         if c = CHR ''/'' then Inr (line_comment s')
         else if c = CHR ''*'' then block_comment s'
         else Inl (''invalid comment; expecting '' @ [CHR 0x27] @ ''/'' @ [CHR 0x27] @ '' or '' @ [CHR 0x27] @ ''*'' @
                [CHR 0x27] @ '' after '' @ [CHR 0x27] @ ''/'' @ [CHR 0x27])
     | [] \<Rightarrow> Inl (''invalid comment; expecting '' @ [CHR 0x27] @ ''/'' @ [CHR 0x27] @ '' or '' @ [CHR 0x27] @ ''*'' @
                [CHR 0x27] @ '' after '' @ [CHR 0x27] @ ''/'' @ [CHR 0x27]))"

lemma line_comment_length: "length (line_comment s) \<le> length s"
  by (induction s) auto

lemma block_comment_length: "block_comment s = Inr s' \<Longrightarrow> length s' \<le> length s"
  by (induction s) (auto split: if_splits list.splits)

lemma scan_comment_length: "scan_comment s = Inr s' \<Longrightarrow> length s' \<le> length s"
  using line_comment_length block_comment_length
  by (auto simp: scan_comment_def le_SucI split: list.splits if_splits)

lemma skip_whitespace_length: "length (skip_whitespace s) \<le> length s"
  by (simp add: skip_whitespace_def length_dropWhile_le)

text \<open>The loop \<open>while (ignore_comments && current == '/')\<close>.\<close>

function skip_comments :: "bool \<Rightarrow> string \<Rightarrow> string + string" where
  "skip_comments ignore_comments s =
    (case s of
       [] \<Rightarrow> Inr s
     | c # s1 \<Rightarrow>
         if ignore_comments \<and> c = CHR ''/'' then
           (case scan_comment s1 of
              Inl msg \<Rightarrow> Inl msg
            | Inr s2 \<Rightarrow> skip_comments ignore_comments (skip_whitespace s2))
         else Inr s)"
  by pat_completeness auto
termination
proof (relation "measure (length \<circ> snd)")
  fix i s c s1 s2
  assume "s = c # s1" "scan_comment s1 = Inr s2"
  then show "((i, skip_whitespace s2), (i, s)) \<in> measure (length \<circ> snd)"
    using scan_comment_length [of s1 s2] skip_whitespace_length [of s2] by simp
qed simp

declare skip_comments.simps [simp del]

definition skip_bom :: "string \<Rightarrow> string option" where
  "skip_bom s = (case s of
      [] \<Rightarrow> Some s
    | c # s1 \<Rightarrow>
        if c = CHR 0xEF then
          (case s1 of c2 # c3 # s3 \<Rightarrow> if c2 = CHR 0xBB \<and> c3 = CHR 0xBF then Some s3 else None | _ \<Rightarrow> None)
        else Some s)"

text \<open>The final switch of \<open>scan\<close> on the current character.\<close>

definition scan_current :: "char \<Rightarrow> string \<Rightarrow> token \<times> string" where
  "scan_current c s =
    (if c = CHR ''['' then (Begin_array, s)
     else if c = CHR '']'' then (End_array, s)
     else if c = CHR ''{'' then (Begin_object, s)
     else if c = CHR ''}'' then (End_object, s)
     else if c = CHR '':'' then (Name_separator, s)
     else if c = CHR '','' then (Value_separator, s)
     else if c = CHR ''t'' then scan_literal ''rue'' Literal_true s
     else if c = CHR ''f'' then scan_literal ''alse'' Literal_false s
     else if c = CHR ''n'' then scan_literal ''ull'' Literal_null s
     else if c = quote then scan_string [] s
     else if c = CHR ''-'' \<or> is_digit c then scan_number c s
     else if c = CHR 0x00 then (End_of_input, s)
     else (Parse_error ''invalid literal'', []))"

definition scan :: "bool \<Rightarrow> string \<Rightarrow> token \<times> string" where
  "scan ignore_comments s = (case skip_comments ignore_comments (skip_whitespace s) of
      Inl msg \<Rightarrow> (Parse_error msg, [])
    | Inr [] \<Rightarrow> (End_of_input, [])
    | Inr (c # s') \<Rightarrow> scan_current c s')"

text \<open>The first call, which also skips the byte order mark.\<close>

definition scan_first :: "bool \<Rightarrow> string \<Rightarrow> token \<times> string" where
  "scan_first ignore_comments s = (case skip_bom s of
      None \<Rightarrow> (Parse_error ''invalid BOM; must be 0xEF 0xBB 0xBF if given'', [])
    | Some s' \<Rightarrow> scan ignore_comments s')"

section \<open>What the tokens carry\<close>

lemma hex_value_less: "hex_value c = Some d \<Longrightarrow> d < 16"
  by (auto simp: hex_value_def Let_def split: if_splits)

lemma get_codepoint_hex4:
  "get_codepoint (a # b # c # d # s) = map_option (\<lambda>v. (v, s)) (hex4 a b c d)"
  by (simp add: get_codepoint_def hex4_def push_bit_eq_mult mult.commute split: option.split)

lemma get_codepoint_Some:
  assumes "get_codepoint s = Some (cp, s')"
  shows "\<exists>a b c d. s = a # b # c # d # s' \<and> hex4 a b c d = Some cp"
proof -
  have "length s = Suc (Suc (Suc (Suc (length s'))))"
    using assms get_codepoint_loop_length [of "[12, 8, 4, 0]" 0 s] by (simp add: get_codepoint_def)
  then obtain a b c d r where "s = a # b # c # d # r"
    by (auto simp: length_Suc_conv)
  then show ?thesis using assms by (auto simp: get_codepoint_hex4)
qed

lemma get_codepoint_bound: "get_codepoint s = Some (cp, s') \<Longrightarrow> cp \<le> 0xFFFF"
  by (auto simp: hex4_def split: option.splits dest!: get_codepoint_Some hex_value_less)

lemma scan_unicode_utf8:
  assumes "scan_unicode s = Inr (bs, s')"
  shows "utf8 bs"
proof -
  obtain cp1 s1 where cp1: "get_codepoint s = Some (cp1, s1)"
    using assms by (auto simp: scan_unicode_def split: option.splits)
  have b1: "cp1 \<le> 0xFFFF" by (rule get_codepoint_bound [OF cp1])
  show ?thesis
  proof (cases "0xD800 \<le> cp1 \<and> cp1 \<le> 0xDBFF")
    case True
    then obtain cp2 where cp2: "0xDC00 \<le> cp2" "cp2 \<le> 0xDFFF" "bs = utf8_bytes (push_bit 10 cp1 + cp2 - 0x35FDC00)"
      using assms cp1 by (auto simp: scan_unicode_def split: list.splits if_splits option.splits)
    moreover have "scalar (push_bit 10 cp1 + cp2 - 0x35FDC00)"
      using True cp2 by (auto simp: scalar_def push_bit_eq_mult)
    ultimately show ?thesis by (simp add: utf8_bytes_utf8)
  next
    case False
    then have "bs = utf8_bytes cp1" "\<not> (0xDC00 \<le> cp1 \<and> cp1 \<le> 0xDFFF)"
      using assms cp1 by (auto simp: scan_unicode_def split: if_splits)
    moreover from this False have "scalar cp1" using b1 by (auto simp: scalar_def)
    ultimately show ?thesis by (simp add: utf8_bytes_utf8)
  qed
qed

lemma utf8_ascii: "byte_of c < 0x80 \<Longrightarrow> utf8 [c]"
  using utf8_bytes_utf8 [of "byte_of c"] by (simp add: utf8_bytes_def scalar_def)

lemma scan_escape_utf8: "scan_escape e s = Inr (bs, s') \<Longrightarrow> utf8 bs"
  by (auto simp: scan_escape_def utf8_ascii scan_unicode_utf8 quote_def backslash_def split: if_splits)

lemma lead_utf8:
  assumes "lead_ranges (byte_of c) = Some rs" "next_byte_in_range rs (buf @ [c]) s = Some (buf', s')"
  shows "\<exists>bs. utf8 bs \<and> buf' = buf @ bs \<and> c # s = bs @ s'"
proof -
  obtain xs where xs: "s = xs @ s'" "buf' = (buf @ [c]) @ xs" "in_ranges rs (map byte_of xs)"
    using assms(2) by (auto simp: next_byte_in_range_Some)
  have "seq_ranges (byte_of c) = Some rs"
    using assms(1) by (cases "byte_of c < 0x20") (simp_all add: seq_ranges_def lead_ranges_def)
  then obtain cp where "scalar cp" "utf8_bytes cp = map char_of (byte_of c # map byte_of xs)"
    using seq_ranges_code_point xs(3) by blast
  then have "scalar cp" "utf8_bytes cp = c # xs" by (simp_all add: map_char_of_byte_of comp_def)
  then have "utf8 (c # xs)" by (metis utf8_bytes_utf8)
  then show ?thesis using xs by (intro exI [of _ "c # xs"]) simp
qed

text \<open>One round of the loop of \<open>scan_string\<close>: it ends, fails, or adds UTF-8 to the buffer.\<close>

lemma scan_string_round:
  "c = quote \<and> scan_string buf (c # s) = (Value_string buf, s) \<or>
   (\<exists>m. scan_string buf (c # s) = (Parse_error m, [])) \<or>
   (\<exists>bs s'. utf8 bs \<and> length s' \<le> length s \<and> scan_string buf (c # s) = scan_string (buf @ bs) s')"
proof -
  consider "c = quote" | "c \<noteq> quote" "c = backslash" | "c \<noteq> quote" "c \<noteq> backslash" "byte_of c < 0x20"
    | "c \<noteq> quote" "c \<noteq> backslash" "\<not> byte_of c < 0x20" by blast
  then show ?thesis
  proof cases
    case 2
    show ?thesis
    proof (cases s)
      case (Cons e s1)
      show ?thesis
      proof (cases "scan_escape e s1")
        case (Inr p)
        then obtain bs s2 where r: "scan_escape e s1 = Inr (bs, s2)" by (cases p) auto
        then have "scan_string buf (c # s) = scan_string (buf @ bs) s2" using 2 Cons by simp
        moreover have "utf8 bs" "length s2 \<le> length s"
          using scan_escape_utf8 [OF r] scan_escape_length [OF r] Cons by auto
        ultimately show ?thesis by blast
      qed (use 2 Cons in simp)
    qed (use 2 in simp)
  next
    case 4
    show ?thesis
    proof (cases "lead_ranges (byte_of c)")
      case (Some rs)
      show ?thesis
      proof (cases "next_byte_in_range rs (buf @ [c]) s")
        case n: (Some p)
        then obtain buf' s' where p: "next_byte_in_range rs (buf @ [c]) s = Some (buf', s')" by (cases p) auto
        obtain bs where "utf8 bs" "buf' = buf @ bs" using lead_utf8 [OF Some p] by blast
        moreover from this have "scan_string buf (c # s) = scan_string (buf @ bs) s'" using 4 Some p by simp
        ultimately show ?thesis using next_byte_length [OF p] by blast
      qed (use 4 Some in simp)
    qed (use 4 in simp)
  qed simp_all
qed

lemma scan_string_utf8:
  "utf8 buf \<Longrightarrow> length (snd (scan_string buf s)) \<le> length s \<and>
     (\<forall>v r. scan_string buf s = (Value_string v, r) \<longrightarrow> utf8 v)"
proof (induction "length s" arbitrary: buf s rule: less_induct)
  case less
  show ?case
  proof (cases s)
    case (Cons c t)
    consider "scan_string buf s = (Value_string buf, t)" | m where "scan_string buf s = (Parse_error m, [])"
      | bs s' where "utf8 bs" "length s' \<le> length t" "scan_string buf s = scan_string (buf @ bs) s'"
      using scan_string_round [of c buf t] Cons by blast
    then show ?thesis
    proof cases
      case 3
      have "length (snd (scan_string (buf @ bs) s')) \<le> length s' \<and>
          (\<forall>v r. scan_string (buf @ bs) s' = (Value_string v, r) \<longrightarrow> utf8 v)"
        by (rule less.hyps) (use 3(1,2) Cons less.prems in \<open>simp_all add: utf8_append\<close>)
      then show ?thesis unfolding 3(3) using 3(2) Cons by auto
    qed (use less.prems Cons in simp_all)
  qed simp
qed

lemma scan_string_length: "length (snd (scan_string [] s)) \<le> length s"
  using scan_string_utf8 [of "[]" s] by simp

section \<open>Every token consumes input\<close>

lemma scan_number_length: "length (snd (scan_number_loop st ty buf s)) \<le> length s"
  by (induction st ty buf s rule: scan_number_loop.induct) (auto split: option.split intro: le_SucI)

lemma scan_literal_length: "length (snd (scan_literal xs t s)) \<le> length s"
  by (induction xs t s rule: scan_literal.induct) auto

lemma scan_current_length: "length (snd (scan_current c s)) \<le> length s"
  using scan_string_length scan_number_length scan_literal_length
  by (simp add: scan_current_def scan_number_def)

lemma skip_comments_length: "skip_comments i s = Inr s' \<Longrightarrow> length s' \<le> length s"
proof (induction i s rule: skip_comments.induct)
  case (1 i s)
  show ?case
  proof (cases s)
    case (Cons c s1)
    show ?thesis
    proof (cases "i \<and> c = CHR ''/''")
      case True
      then obtain s2 where s2: "scan_comment s1 = Inr s2" "skip_comments i (skip_whitespace s2) = Inr s'"
        using 1(2) Cons by (auto simp: skip_comments.simps [of _ "_ # _"] split: sum.splits)
      then have "length s' \<le> length (skip_whitespace s2)" using 1(1) Cons True by blast
      then show ?thesis
        using scan_comment_length [OF s2(1)] skip_whitespace_length [of s2] Cons by simp
    qed (use 1(2) Cons in \<open>auto simp: skip_comments.simps [of _ "_ # _"]\<close>)
  qed (use 1(2) in \<open>simp add: skip_comments.simps [of _ "[]"]\<close>)
qed

definition stops :: "token \<Rightarrow> bool" where
  "stops t \<longleftrightarrow> t = End_of_input \<or> (\<exists>m. t = Parse_error m)"

lemma stops_simps [simp]:
  "stops End_of_input" "stops (Parse_error m)" "\<not> stops Literal_true" "\<not> stops Literal_false" "\<not> stops Literal_null"
  "\<not> stops (Value_string v)" "\<not> stops (Value_unsigned n)" "\<not> stops (Value_integer i)" "\<not> stops (Value_float f)"
  "\<not> stops Begin_array" "\<not> stops Begin_object" "\<not> stops End_array" "\<not> stops End_object"
  "\<not> stops Name_separator" "\<not> stops Value_separator"
  by (simp_all add: stops_def)

lemma scan_shrinks:
  assumes "scan i s = (t, r)"
  shows "length r \<le> length s" "stops t \<or> length r < length s"
proof -
  obtain x where x: "skip_comments i (skip_whitespace s) = x" by blast
  have "length r \<le> length s \<and> (stops t \<or> length r < length s)"
  proof (cases x)
    case (Inr s1)
    then have "length s1 \<le> length s"
      using x skip_comments_length skip_whitespace_length le_trans by blast
    then show ?thesis
      using assms x Inr scan_current_length [of "hd s1" "tl s1"] by (cases s1) (auto simp: scan_def)
  qed (use assms x in \<open>auto simp: scan_def\<close>)
  then show "length r \<le> length s" "stops t \<or> length r < length s" by auto
qed

text \<open>Strings are UTF-8, integers are in the range of their type.\<close>

fun token_ok :: "token \<Rightarrow> bool" where
  "token_ok (Value_string v) = utf8 v"
| "token_ok (Value_unsigned n) = (n < 2 ^ 64)"
| "token_ok (Value_integer i) = (- (2 ^ 63) \<le> i \<and> i \<le> 0)"
| "token_ok _ = True"

lemma number_token_ok: "token_ok (number_token ty buf)"
  by (simp add: number_token_def Let_def split: num_type.split)

lemma scan_number_loop_ok: "token_ok (fst (scan_number_loop st ty buf s))"
  by (induction st ty buf s rule: scan_number_loop.induct) (simp_all add: number_token_ok split: option.split)

lemma scan_literal_ok: "token_ok t \<Longrightarrow> token_ok (fst (scan_literal xs t s))"
  by (induction xs t s rule: scan_literal.induct) auto

lemma scan_string_result: "(\<exists>v. fst (scan_string buf s) = Value_string v) \<or> (\<exists>m. fst (scan_string buf s) = Parse_error m)"
proof (induction "length s" arbitrary: buf s rule: less_induct)
  case less
  show ?case
  proof (cases s)
    case (Cons c t)
    consider "scan_string buf s = (Value_string buf, t)" | m where "scan_string buf s = (Parse_error m, [])"
      | bs s' where "length s' \<le> length t" "scan_string buf s = scan_string (buf @ bs) s'"
      using scan_string_round [of c buf t] Cons by blast
    then show ?thesis
    proof cases
      case 3
      then show ?thesis using less.hyps [of s' "buf @ bs"] Cons by (simp only: 3(2) length_Cons le_imp_less_Suc)
    qed simp_all
  qed simp
qed

lemma scan_string_ok: "token_ok (fst (scan_string [] s))"
proof -
  have "utf8 v" if "fst (scan_string [] s) = Value_string v" for v
    using scan_string_utf8 [of "[]" s] that by (metis prod.collapse utf8_Nil)
  then show ?thesis using scan_string_result [of "[]" s] by auto
qed

lemma scan_current_ok: "token_ok (fst (scan_current c s))"
  by (simp add: scan_current_def scan_number_def scan_string_ok scan_number_loop_ok scan_literal_ok)

lemma scan_ok: "token_ok (fst (scan i s))"
  by (simp add: scan_def scan_current_ok split: sum.split list.split)

section \<open>Scanning what the serializer writes\<close>

lemma scan_no_ws:
  assumes "\<not> json_ws c" "c \<noteq> CHR ''/''"
  shows "scan i (c # s) = scan_current c s"
  using assms by (simp add: scan_def skip_whitespace_def skip_comments.simps [of _ "_ # _"])

text \<open>What may follow a number without being read as part of it.\<close>

definition ends_number :: "string \<Rightarrow> bool" where
  "ends_number r \<longleftrightarrow> r = [] \<or> \<not> is_digit (hd r) \<and> hd r \<notin> {CHR ''.'', CHR ''e'', CHR ''E''}"

lemma any1_digits:
  "list_all is_digit ds \<Longrightarrow> ends_number r \<Longrightarrow>
     scan_number_loop Any1 ty buf (ds @ r) = (number_token ty (buf @ ds), r)"
proof (induction ds arbitrary: buf)
  case Nil
  then show ?case by (cases r) (auto simp: ends_number_def num_step_def num_error_def)
next
  case (Cons d ds)
  then show ?case by (simp add: num_step_def num_enter_def)
qed

lemma zero_end: "ends_number r \<Longrightarrow> scan_number_loop Zero ty buf r = (number_token ty buf, r)"
  by (cases r) (auto simp: ends_number_def num_step_def num_error_def)

lemma dec_hd:
  shows "dec n \<noteq> [] \<and> list_all is_digit (dec n) \<and> (hd (dec n) = CHR ''0'' \<longleftrightarrow> n = 0)"
proof (induction n rule: dec.induct)
  case (1 n)
  show ?case
  proof (cases "n < 10")
    case True
    have "n = 0" if "digit n = CHR ''0''"
    proof -
      have "byte_of (digit n) = 48" by (simp add: that)
      then show ?thesis using True by simp
    qed
    moreover have "digit 0 = CHR ''0''"
      using of_char_digit [of 0] by (simp add: of_char_eq_iff [where 'a = nat, symmetric] del: of_char_eq_iff)
    ultimately have "digit n = CHR ''0'' \<longleftrightarrow> n = 0" by auto
    then show ?thesis using True dec_digits [of _ n] by (simp add: dec.simps [of n] is_digit_def)
  next
    case False
    then have "0 < n div 10" by auto
    then show ?thesis using 1 False by (simp add: dec.simps [of n] is_digit_def)
  qed
qed

lemma scan_dec:
  assumes "ends_number r"
  shows "dec n = d # ds \<Longrightarrow> scan_number d (ds @ r) = (number_token N_unsigned (dec n), r)"
    and "0 < n \<Longrightarrow> scan_number (CHR ''-'') (dec n @ r) = (number_token N_integer (CHR ''-'' # dec n), r)"
proof -
  obtain d ds where n: "dec n = d # ds" using dec_hd [of n] by (cases "dec n") auto
  have d: "is_digit d" "list_all is_digit ds" "d = CHR ''0'' \<longleftrightarrow> n = 0" using dec_hd [of n] n by auto
  have m: "d \<noteq> CHR ''-''" using d(1) by (auto simp: is_digit_def)
  have z: "n = 0 \<Longrightarrow> ds = []" using n by (simp add: dec.simps)
  show "scan_number d' (ds' @ r) = (number_token N_unsigned (dec n), r)" if "dec n = d' # ds'" for d' ds'
  proof (cases "n = 0")
    case True
    then show ?thesis using that n m d z zero_end [OF assms] by (simp add: scan_number_def)
  next
    case False
    then show ?thesis using that n m d any1_digits [OF d(2) assms] by (simp add: scan_number_def)
  qed
  show "scan_number (CHR ''-'') (dec n @ r) = (number_token N_integer (CHR ''-'' # dec n), r)" if "0 < n"
    using that n d any1_digits [OF d(2) assms] by (simp add: scan_number_def num_step_def num_enter_def)
qed

lemma not_digits:
  "\<not> is_digit (CHR ''['')" "\<not> is_digit (CHR '']'')" "\<not> is_digit (CHR ''{'')" "\<not> is_digit (CHR ''}'')"
  "\<not> is_digit (CHR '':'')" "\<not> is_digit (CHR '','')" "\<not> is_digit (CHR ''t'')" "\<not> is_digit (CHR ''f'')"
  "\<not> is_digit (CHR ''n'')" "\<not> is_digit quote"
  by (simp_all add: is_digit_def quote_def)

text \<open>Printed integers are read back, as unsigned or (below zero) as signed numbers.\<close>

lemma scan_dec_int:
  assumes "- (2 ^ 63) \<le> i" "i < 2 ^ 64" "ends_number r" "dec_int i = c # s"
  shows "scan_current c (s @ r) = (if i < 0 then Value_integer i else Value_unsigned (nat i), r)"
proof (cases "i < 0")
  case True
  then have "c = CHR ''-''" "s = dec (nat (- i))" using assms(4) by (auto simp: dec_int_def)
  moreover have "number_token N_integer (CHR ''-'' # dec (nat (- i))) = Value_integer i"
    using True assms(1) by (simp add: number_token_def digits_value_dec)
  ultimately show ?thesis
    using True scan_dec(2) [OF assms(3), of "nat (- i)"] by (simp add: scan_current_def quote_def)
next
  case False
  then have n: "dec (nat i) = c # s" using assms(4) by (simp add: dec_int_def)
  then have "is_digit c" using dec_hd [of "nat i"] by auto
  then have "c \<noteq> k" if "\<not> is_digit k" for k using that by blast
  then have "c \<noteq> CHR ''[''" "c \<noteq> CHR '']''" "c \<noteq> CHR ''{''" "c \<noteq> CHR ''}''" "c \<noteq> CHR '':''" "c \<noteq> CHR '',''"
    "c \<noteq> CHR ''t''" "c \<noteq> CHR ''f''" "c \<noteq> CHR ''n''" "c \<noteq> quote"
    using not_digits by blast+
  then have "scan_current c (s @ r) = scan_number c (s @ r)"
    using \<open>is_digit c\<close> by (simp add: scan_current_def)
  moreover have "number_token N_unsigned (dec (nat i)) = Value_unsigned (nat i)"
    using False assms(2) by (simp add: number_token_def digits_value_dec Let_def nat_less_iff)
  ultimately show ?thesis using False scan_dec(1) [OF assms(3) n] by simp
qed

end
