(* ===== verification/JsonParser.thy ===== *)
theory JsonParser
  imports JsonLexer
begin

text \<open>
  The parser of the JSON library: the stack machine \<open>sax_parse_internal\<close> and the handler
  \<open>json_sax_dom_parser\<close> that builds the value (module-spoof/jni/include/json.hpp). The
  reference is the grammar of RFC 8259 on tokens, \<open>is_value\<close>; the machine accepts exactly
  the texts whose tokens are a value of the grammar, and builds that value.
\<close>

section \<open>The handler\<close>

text \<open>
  The stack of references to open containers. A frame holds the contents of its
  container so far; an object's frame also holds the key of \<open>object_element\<close>. The
  container is entered into its parent when it is closed.
\<close>

datatype frame = F_array "json list" | F_object "(string \<times> json) list" string

record dom =
  root :: json
  ref_stack :: "frame list"

definition dom_init :: dom where
  "dom_init = \<lparr>root = JNull, ref_stack = []\<rparr>"

definition handle_value :: "dom \<Rightarrow> json \<Rightarrow> dom" where
  "handle_value d v = (case ref_stack d of
      [] \<Rightarrow> d\<lparr>root := v\<rparr>
    | F_array xs # fs \<Rightarrow> d\<lparr>ref_stack := F_array (xs @ [v]) # fs\<rparr>
    | F_object ob k # fs \<Rightarrow> d\<lparr>ref_stack := F_object (obj_set ob k v) k # fs\<rparr>)"

definition start_array :: "dom \<Rightarrow> dom" where
  "start_array d = d\<lparr>ref_stack := F_array [] # ref_stack d\<rparr>"

definition start_object :: "dom \<Rightarrow> dom" where
  "start_object d = d\<lparr>ref_stack := F_object [] [] # ref_stack d\<rparr>"

definition sax_key :: "dom \<Rightarrow> string \<Rightarrow> dom" where
  "sax_key d k = (case ref_stack d of
      F_object ob k0 # fs \<Rightarrow> d\<lparr>ref_stack := F_object (obj_touch ob k) k # fs\<rparr>
    | _ \<Rightarrow> d)"

definition end_array :: "dom \<Rightarrow> dom" where
  "end_array d = (case ref_stack d of
      F_array xs # fs \<Rightarrow> handle_value (d\<lparr>ref_stack := fs\<rparr>) (JArray xs)
    | _ \<Rightarrow> d)"

definition end_object :: "dom \<Rightarrow> dom" where
  "end_object d = (case ref_stack d of
      F_object ob k # fs \<Rightarrow> handle_value (d\<lparr>ref_stack := fs\<rparr>) (JObject ob)
    | _ \<Rightarrow> d)"

section \<open>Errors\<close>

text \<open>
  \<open>parse_error.101\<close> with its context, the offending token and the name of what was
  expected (None where no expectation is reported), and \<open>out_of_range.406\<close>.
\<close>

datatype parse_exn = Syntax_error string token "string option" | Number_overflow string

fun token_type_name :: "token \<Rightarrow> string" where
  "token_type_name Literal_true = ''true literal''"
| "token_type_name Literal_false = ''false literal''"
| "token_type_name Literal_null = ''null literal''"
| "token_type_name (Value_string v) = ''string literal''"
| "token_type_name (Value_unsigned n) = ''number literal''"
| "token_type_name (Value_integer i) = ''number literal''"
| "token_type_name (Value_float f) = ''number literal''"
| "token_type_name Begin_array = [CHR 0x27, CHR ''['', CHR 0x27]"
| "token_type_name Begin_object = [CHR 0x27, CHR ''{'', CHR 0x27]"
| "token_type_name End_array = [CHR 0x27, CHR '']'', CHR 0x27]"
| "token_type_name End_object = [CHR 0x27, CHR ''}'', CHR 0x27]"
| "token_type_name Name_separator = [CHR 0x27, CHR '':'', CHR 0x27]"
| "token_type_name Value_separator = [CHR 0x27, CHR '','', CHR 0x27]"
| "token_type_name (Parse_error m) = ''<parse error>''"
| "token_type_name End_of_input = ''end of input''"

definition literal_or_value :: string where
  "literal_or_value = [CHR 0x27, CHR ''['', CHR 0x27] @ '', '' @ [CHR 0x27, CHR ''{'', CHR 0x27] @ '', or a literal''"

text \<open>\<open>exception_message\<close>; \<open>last_read\<close> is the text of the offending token.\<close>

definition exception_message :: "string \<Rightarrow> parse_exn \<Rightarrow> string" where
  "exception_message last_read e = (case e of
      Number_overflow f \<Rightarrow> ''number overflow parsing '' @ [CHR 0x27] @ last_read @ [CHR 0x27]
    | Syntax_error context t expected \<Rightarrow>
        ''syntax error '' @ (if context \<noteq> [] then ''while parsing '' @ context @ '' '' else []) @ ''- '' @
        (case t of
           Parse_error m \<Rightarrow> m @ ''; last read: '' @ [CHR 0x27] @ last_read @ [CHR 0x27]
         | _ \<Rightarrow> ''unexpected '' @ token_type_name t) @
        (case expected of None \<Rightarrow> [] | Some x \<Rightarrow> ''; expected '' @ x))"

section \<open>Floating-point literals\<close>

text \<open>
  \<open>strtod\<close> rounds to the nearest double, so the result is infinite exactly when the
  literal's magnitude reaches 2^1024 - 2^970, half a unit above the largest double.
\<close>

definition exponent_part :: "string \<Rightarrow> int" where
  "exponent_part t = (case dropWhile (\<lambda>c. c \<noteq> CHR ''e'' \<and> c \<noteq> CHR ''E'') t of
      [] \<Rightarrow> 0
    | _ # e \<Rightarrow> decimal_int e)"

definition mantissa_part :: "string \<Rightarrow> string" where
  "mantissa_part t = takeWhile (\<lambda>c. c \<noteq> CHR ''e'' \<and> c \<noteq> CHR ''E'') t"

definition fraction_part :: "string \<Rightarrow> string" where
  "fraction_part t = tl (dropWhile (\<lambda>c. c \<noteq> CHR ''.'') (mantissa_part t))"

definition finite_literal :: "string \<Rightarrow> bool" where
  "finite_literal t =
    (let m = digits_value (filter is_digit (mantissa_part t));
         e = exponent_part t - int (length (fraction_part t));
         limit = 2 ^ 1024 - 2 ^ 970
     in if e \<ge> 0 then m * 10 ^ nat e < limit else m < limit * 10 ^ nat (- e))"

section \<open>The stack machine\<close>

text \<open>The key of a member, its separator and the first token of its value.\<close>

definition parse_key :: "bool \<Rightarrow> token \<Rightarrow> string \<Rightarrow> dom \<Rightarrow> parse_exn + (token \<times> string \<times> dom)" where
  "parse_key ic tok s d = (case tok of
      Value_string k \<Rightarrow>
        (case scan ic s of (tok1, s1) \<Rightarrow>
           if tok1 \<noteq> Name_separator
           then Inl (Syntax_error ''object separator'' tok1 (Some (token_type_name Name_separator)))
           else (case scan ic s1 of (tok2, s2) \<Rightarrow> Inr (tok2, s2, sax_key d k)))
    | _ \<Rightarrow> Inl (Syntax_error ''object key'' tok (Some ''string literal'')))"

lemma scan_pair: "(t, r) = scan ic s \<Longrightarrow> length r \<le> length s \<and> (stops t \<or> length r < length s)"
  using scan_shrinks [of ic s t r] by simp

lemma parse_key_shrinks: "parse_key ic tok s d = Inr (tok', s', d') \<Longrightarrow> length s' < length s"
  by (auto simp: parse_key_def split: token.splits prod.splits if_splits dest!: sym [of "scan _ _"] scan_pair)

text \<open>
  \<open>sax_parse_internal\<close>. The stack \<open>states\<close> (true for arrays) has its top first.
  \<open>sax_loop\<close> is an iteration that starts with the switch on \<open>last_token\<close>,
  \<open>after_value\<close> the part below it, which an iteration with
  \<open>skip_to_state_evaluation\<close> enters directly.
\<close>

function sax_loop :: "bool \<Rightarrow> bool \<Rightarrow> token \<Rightarrow> string \<Rightarrow> bool list \<Rightarrow> dom \<Rightarrow> parse_exn + (dom \<times> string)"
  and after_value :: "bool \<Rightarrow> bool \<Rightarrow> string \<Rightarrow> bool list \<Rightarrow> dom \<Rightarrow> parse_exn + (dom \<times> string)" where
  "sax_loop ic tc tok s states d =
    (case tok of
       Begin_object \<Rightarrow>
         (case scan ic s of (tok1, s1) \<Rightarrow>
            if tok1 = End_object then after_value ic tc s1 states (end_object (start_object d))
            else (case parse_key ic tok1 s1 (start_object d) of
                Inl e \<Rightarrow> Inl e
              | Inr (tok2, s2, d2) \<Rightarrow> sax_loop ic tc tok2 s2 (False # states) d2))
     | Begin_array \<Rightarrow>
         (case scan ic s of (tok1, s1) \<Rightarrow>
            if tok1 = End_array then after_value ic tc s1 states (end_array (start_array d))
            else sax_loop ic tc tok1 s1 (True # states) (start_array d))
     | Value_float f \<Rightarrow>
         if finite_literal f then after_value ic tc s states (handle_value d (JFloat f))
         else Inl (Number_overflow f)
     | Literal_false \<Rightarrow> after_value ic tc s states (handle_value d (JBool False))
     | Literal_null \<Rightarrow> after_value ic tc s states (handle_value d JNull)
     | Literal_true \<Rightarrow> after_value ic tc s states (handle_value d (JBool True))
     | Value_integer i \<Rightarrow> after_value ic tc s states (handle_value d (JInt i))
     | Value_string v \<Rightarrow> after_value ic tc s states (handle_value d (JString v))
     | Value_unsigned n \<Rightarrow> after_value ic tc s states (handle_value d (JInt (int n)))
     | Parse_error m \<Rightarrow> Inl (Syntax_error ''value'' tok None)
     | _ \<Rightarrow> Inl (Syntax_error ''value'' tok (Some literal_or_value)))"
| "after_value ic tc s states d =
    (case states of
       [] \<Rightarrow> Inr (d, s)
     | in_array # states' \<Rightarrow>
         (case scan ic s of (tok1, s1) \<Rightarrow>
            if in_array then
              if tok1 = Value_separator then
                (case scan ic s1 of (tok2, s2) \<Rightarrow>
                   if tc \<and> tok2 = End_array then after_value ic tc s2 states' (end_array d)
                   else sax_loop ic tc tok2 s2 states d)
              else if tok1 = End_array then after_value ic tc s1 states' (end_array d)
              else Inl (Syntax_error ''array'' tok1 (Some (token_type_name End_array)))
            else
              if tok1 = Value_separator then
                (case scan ic s1 of (tok2, s2) \<Rightarrow>
                   if tc \<and> tok2 = End_object then after_value ic tc s2 states' (end_object d)
                   else (case parse_key ic tok2 s2 d of
                       Inl e \<Rightarrow> Inl e
                     | Inr (tok3, s3, d3) \<Rightarrow> sax_loop ic tc tok3 s3 states d3))
              else if tok1 = End_object then after_value ic tc s1 states' (end_object d)
              else Inl (Syntax_error ''object'' tok1 (Some (token_type_name End_object)))))"
  by pat_completeness auto
termination
proof (relation "measure (\<lambda>x. case x of
      Inl (ic, tc, tok, s, st, d) \<Rightarrow> 2 * length s + (if stops tok then 0 else 1)
    | Inr (ic, tc, s, st, d) \<Rightarrow> 2 * length s)")
qed (auto dest!: scan_pair parse_key_shrinks)

declare sax_loop.simps [simp del] after_value.simps [simp del]

definition json_parse_with :: "bool \<Rightarrow> bool \<Rightarrow> string \<Rightarrow> parse_exn + json" where
  "json_parse_with ic tc s = (case scan_first ic s of (tok, s1) \<Rightarrow>
     (case sax_loop ic tc tok s1 [] dom_init of
        Inl e \<Rightarrow> Inl e
      | Inr (d, s2) \<Rightarrow> (case scan ic s2 of (tok2, s3) \<Rightarrow>
          if tok2 \<noteq> End_of_input then Inl (Syntax_error ''value'' tok2 (Some ''end of input''))
          else Inr (root d))))"

text \<open>\<open>json::parse(text)\<close> with its default arguments.\<close>

definition json_parse :: "string \<Rightarrow> parse_exn + json" where
  "json_parse s = json_parse_with False False s"

section \<open>The grammar\<close>

function tokens :: "bool \<Rightarrow> string \<Rightarrow> token list" where
  "tokens ic s = (case scan ic s of (t, r) \<Rightarrow> if stops t then [t] else t # tokens ic r)"
  by pat_completeness auto
termination
  by (relation "measure (length \<circ> snd)") (auto dest!: scan_pair)

declare tokens.simps [simp del]

definition toks :: "bool \<Rightarrow> token \<Rightarrow> string \<Rightarrow> token list" where
  "toks ic t s = (if stops t then [t] else t # tokens ic s)"

lemma tokens_scan: "scan ic s = (t, r) \<Longrightarrow> tokens ic s = toks ic t r"
  by (simp add: tokens.simps [of ic s] toks_def)

lemma toks_Cons: "toks ic tok s = t # rest \<Longrightarrow> rest \<noteq> [] \<Longrightarrow> tok = t \<and> tokens ic s = rest \<and> \<not> stops t"
  by (auto simp: toks_def split: if_splits)

lemma tokens_Cons:
  assumes "tokens ic s = t # rest" "rest \<noteq> []"
  shows "\<exists>r. scan ic s = (t, r) \<and> tokens ic r = rest"
  using assms tokens_scan [of ic s "fst (scan ic s)" "snd (scan ic s)"] by (auto dest!: toks_Cons) (metis prod.collapse)

text \<open>RFC 8259 on tokens.\<close>

inductive is_value :: "token list \<Rightarrow> json \<Rightarrow> bool"
  and is_elements :: "token list \<Rightarrow> json list \<Rightarrow> bool"
  and is_members :: "token list \<Rightarrow> (string \<times> json) list \<Rightarrow> bool" where
  v_null: "is_value [Literal_null] JNull"
| v_true: "is_value [Literal_true] (JBool True)"
| v_false: "is_value [Literal_false] (JBool False)"
| v_unsigned: "is_value [Value_unsigned n] (JInt (int n))"
| v_integer: "is_value [Value_integer i] (JInt i)"
| v_float: "finite_literal f \<Longrightarrow> is_value [Value_float f] (JFloat f)"
| v_string: "is_value [Value_string v] (JString v)"
| v_array_empty: "is_value [Begin_array, End_array] (JArray [])"
| v_array: "is_elements ts xs \<Longrightarrow> is_value (Begin_array # ts @ [End_array]) (JArray xs)"
| v_object_empty: "is_value [Begin_object, End_object] (JObject [])"
| v_object: "is_members ts kvs \<Longrightarrow> is_value (Begin_object # ts @ [End_object]) (JObject (mk_obj kvs))"
| e_one: "is_value ts x \<Longrightarrow> is_elements ts [x]"
| e_more: "is_value ts x \<Longrightarrow> is_elements ts' xs \<Longrightarrow> is_elements (ts @ Value_separator # ts') (x # xs)"
| m_one: "is_value ts v \<Longrightarrow> is_members (Value_string k # Name_separator # ts) [(k, v)]"
| m_more: "is_value ts v \<Longrightarrow> is_members ts' kvs \<Longrightarrow>
    is_members (Value_string k # Name_separator # ts @ Value_separator # ts') ((k, v) # kvs)"

lemma grammar_first:
  "is_value ts v \<Longrightarrow> \<exists>t us. ts = t # us \<and> t \<noteq> End_array \<and> t \<noteq> End_object"
  "is_elements ts xs \<Longrightarrow> \<exists>t us. ts = t # us \<and> t \<noteq> End_array"
  "is_members ts kvs \<Longrightarrow> \<exists>t us. ts = t # us \<and> t \<noteq> End_object"
  by (induction rule: is_value_is_elements_is_members.inducts) auto

section \<open>The machine accepts the grammar\<close>

text \<open>A member: its key and separator, then the value.\<close>

definition sax_member :: "bool \<Rightarrow> token \<Rightarrow> string \<Rightarrow> bool list \<Rightarrow> dom \<Rightarrow> parse_exn + (dom \<times> string)" where
  "sax_member ic tok s states d = (case parse_key ic tok s d of
      Inl e \<Rightarrow> Inl e
    | Inr (tok', s', d') \<Rightarrow> sax_loop ic False tok' s' states d')"

definition add_members :: "(string \<times> json) list \<Rightarrow> (string \<times> json) list \<Rightarrow> (string \<times> json) list" where
  "add_members ob kvs = foldl (\<lambda>ob (k, v). obj_set ob k v) ob kvs"

lemma add_members_simps [simp]:
  "add_members ob [] = ob" "add_members ob ((k, v) # kvs) = add_members (obj_set ob k v) kvs"
  by (simp_all add: add_members_def)

lemma mk_obj_add: "mk_obj kvs = add_members [] kvs"
  by (simp add: mk_obj_def add_members_def)

lemma dom_simps [simp]:
  "end_array (start_array d) = handle_value d (JArray [])"
  "end_object (start_object d) = handle_value d (JObject [])"
  "ref_stack d = F_array xs # fs \<Longrightarrow> end_array d = handle_value (d\<lparr>ref_stack := fs\<rparr>) (JArray xs)"
  "ref_stack d = F_object ob k # fs \<Longrightarrow> end_object d = handle_value (d\<lparr>ref_stack := fs\<rparr>) (JObject ob)"
  by (simp_all add: end_array_def end_object_def start_array_def start_object_def)

lemma handle_in_array [simp]:
  "ref_stack d = F_array xs # fs \<Longrightarrow> handle_value d v = d\<lparr>ref_stack := F_array (xs @ [v]) # fs\<rparr>"
  by (simp add: handle_value_def)

lemma handle_in_object [simp]:
  "ref_stack d = F_object ob k # fs \<Longrightarrow> handle_value d v = d\<lparr>ref_stack := F_object (obj_set ob k v) k # fs\<rparr>"
  by (simp add: handle_value_def)

lemma sax_key_object [simp]:
  "ref_stack d = F_object ob k0 # fs \<Longrightarrow> sax_key d k = d\<lparr>ref_stack := F_object (obj_touch ob k) k # fs\<rparr>"
  by (simp add: sax_key_def)

lemma parse_key_tokens:
  assumes "toks ic tok s = Value_string k # Name_separator # ts" "ts \<noteq> []"
  shows "\<exists>tok' s'. parse_key ic tok s d = Inr (tok', s', sax_key d k) \<and> toks ic tok' s' = ts"
proof -
  have tok: "tok = Value_string k" "tokens ic s = Name_separator # ts" using toks_Cons [OF assms(1)] by auto
  obtain s1 where s1: "scan ic s = (Name_separator, s1)" "tokens ic s1 = ts"
    using tokens_Cons [OF tok(2) assms(2)] by blast
  obtain tok' s' where "scan ic s1 = (tok', s')" by (cases "scan ic s1")
  then show ?thesis using tok s1 tokens_scan [of ic s1] by (auto simp: parse_key_def)
qed

lemma machine_accepts:
  "is_value ts v \<Longrightarrow> toks ic tok s = ts @ rest \<Longrightarrow> rest \<noteq> [] \<Longrightarrow>
     \<exists>r. tokens ic r = rest \<and> sax_loop ic False tok s states d = after_value ic False r states (handle_value d v)"
  "is_elements ts xs \<Longrightarrow> toks ic tok s = ts @ End_array # rest \<Longrightarrow> rest \<noteq> [] \<Longrightarrow> ref_stack d = F_array ys # fs \<Longrightarrow>
     \<exists>r. tokens ic r = rest \<and> sax_loop ic False tok s (True # states) d =
       after_value ic False r states (handle_value (d\<lparr>ref_stack := fs\<rparr>) (JArray (ys @ xs)))"
  "is_members ts kvs \<Longrightarrow> toks ic tok s = ts @ End_object # rest \<Longrightarrow> rest \<noteq> [] \<Longrightarrow> ref_stack d = F_object ob k0 # fs \<Longrightarrow>
     \<exists>r. tokens ic r = rest \<and> sax_member ic tok s (False # states) d =
       after_value ic False r states (handle_value (d\<lparr>ref_stack := fs\<rparr>) (JObject (add_members ob kvs)))"
proof (induction arbitrary: tok s rest states d and tok s rest states d ys fs and tok s rest states d ob k0 fs
    rule: is_value_is_elements_is_members.inducts)
  case v_array_empty
  then obtain s1 where "tok = Begin_array" "scan ic s = (End_array, s1)" "tokens ic s1 = rest"
    by (auto dest!: toks_Cons tokens_Cons)
  then show ?case by (auto simp: sax_loop.simps)
next
  case v_object_empty
  then obtain s1 where "tok = Begin_object" "scan ic s = (End_object, s1)" "tokens ic s1 = rest"
    by (auto dest!: toks_Cons tokens_Cons)
  then show ?case by (auto simp: sax_loop.simps)
next
  case (v_array ts xs)
  then have t: "tok = Begin_array" "tokens ic s = ts @ End_array # rest" by (auto dest!: toks_Cons)
  obtain tok1 s1 where s1: "scan ic s = (tok1, s1)" "toks ic tok1 s1 = ts @ End_array # rest"
    using t(2) tokens_scan by (metis prod.collapse)
  then have "tok1 \<noteq> End_array" using grammar_first(2) [OF v_array(1)] by (auto simp: toks_def split: if_splits)
  moreover obtain r where "tokens ic r = rest"
    "sax_loop ic False tok1 s1 (True # states) (start_array d) = after_value ic False r states (handle_value d (JArray xs))"
    using v_array(2) [OF s1(2) v_array(4), of "start_array d" "[]" "ref_stack d"] by (auto simp: start_array_def)
  ultimately show ?case using t(1) s1(1) by (auto simp: sax_loop.simps [of _ _ Begin_array])
next
  case (v_object ts kvs)
  then have t: "tok = Begin_object" "tokens ic s = ts @ End_object # rest" by (auto dest!: toks_Cons)
  obtain tok1 s1 where s1: "scan ic s = (tok1, s1)" "toks ic tok1 s1 = ts @ End_object # rest"
    using t(2) tokens_scan by (metis prod.collapse)
  then have "tok1 \<noteq> End_object" using grammar_first(3) [OF v_object(1)] by (auto simp: toks_def split: if_splits)
  moreover obtain r where "tokens ic r = rest"
    "sax_member ic tok1 s1 (False # states) (start_object d) = after_value ic False r states (handle_value d (JObject (mk_obj kvs)))"
    using v_object(2) [OF s1(2) v_object(4), of "start_object d" "[]" "[]" "ref_stack d"]
    by (auto simp: start_object_def mk_obj_add)
  ultimately show ?case using t(1) s1(1) by (auto simp: sax_loop.simps [of _ _ Begin_object] sax_member_def)
next
  case (e_one ts x)
  then obtain r where r: "tokens ic r = End_array # rest"
    "sax_loop ic False tok s (True # states) d = after_value ic False r (True # states) (handle_value d x)"
    by blast
  then obtain r1 where "scan ic r = (End_array, r1)" "tokens ic r1 = rest" using tokens_Cons e_one(4) by blast
  then show ?case using r e_one(5) by (auto simp: after_value.simps [of _ _ r])
next
  case (e_more ts x ts' xs)
  then obtain r where r: "tokens ic r = Value_separator # ts' @ End_array # rest"
    "sax_loop ic False tok s (True # states) d = after_value ic False r (True # states) (handle_value d x)"
    by (metis append.assoc append_Cons list.distinct(1))
  then obtain r1 where r1: "scan ic r = (Value_separator, r1)" "tokens ic r1 = ts' @ End_array # rest"
    using tokens_Cons by blast
  obtain tok2 r2 where r2: "scan ic r1 = (tok2, r2)" "toks ic tok2 r2 = ts' @ End_array # rest"
    using r1(2) tokens_scan by (metis prod.collapse)
  then obtain r3 where "tokens ic r3 = rest"
    "sax_loop ic False tok2 r2 (True # states) (handle_value d x) =
       after_value ic False r3 states (handle_value (d\<lparr>ref_stack := fs\<rparr>) (JArray (ys @ x # xs)))"
    using e_more.IH(2) [OF r2(2) e_more.prems(2), of "handle_value d x" "ys @ [x]" fs] e_more.prems(3) by auto
  then show ?case using r r1 r2 by (auto simp: after_value.simps [of _ _ r])
next
  case (m_one ts v k)
  then obtain tok' s' where k: "parse_key ic tok s d = Inr (tok', s', sax_key d k)" "toks ic tok' s' = ts @ End_object # rest"
    using parse_key_tokens [of ic tok s k "ts @ End_object # rest" d] by auto
  then obtain r where r: "tokens ic r = End_object # rest"
    "sax_loop ic False tok' s' (False # states) (sax_key d k) = after_value ic False r (False # states) (handle_value (sax_key d k) v)"
    using m_one(2) [OF k(2)] by blast
  then obtain r1 where "scan ic r = (End_object, r1)" "tokens ic r1 = rest" using tokens_Cons m_one by blast
  then show ?case using k r m_one by (auto simp: after_value.simps [of _ _ r] sax_member_def obj_set_touch)
next
  case (m_more ts v ts' kvs k)
  obtain tok' s' where k: "parse_key ic tok s d = Inr (tok', s', sax_key d k)"
    "toks ic tok' s' = ts @ Value_separator # ts' @ End_object # rest"
    using m_more.prems parse_key_tokens [of ic tok s k "ts @ Value_separator # ts' @ End_object # rest" d] by auto
  then obtain r where r: "tokens ic r = Value_separator # ts' @ End_object # rest"
    "sax_loop ic False tok' s' (False # states) (sax_key d k) = after_value ic False r (False # states) (handle_value (sax_key d k) v)"
    using m_more.IH(1) [OF k(2)] by blast
  then obtain r1 where r1: "scan ic r = (Value_separator, r1)" "tokens ic r1 = ts' @ End_object # rest"
    using tokens_Cons by blast
  obtain tok2 r2 where r2: "scan ic r1 = (tok2, r2)" "toks ic tok2 r2 = ts' @ End_object # rest"
    using r1(2) tokens_scan by (metis prod.collapse)
  let ?d = "handle_value (sax_key d k) v"
  have "ref_stack ?d = F_object (obj_set ob k v) k # fs" using m_more.prems(3) by (simp add: obj_set_touch)
  then obtain r3 where "tokens ic r3 = rest" "sax_member ic tok2 r2 (False # states) ?d =
      after_value ic False r3 states (handle_value (d\<lparr>ref_stack := fs\<rparr>) (JObject (add_members ob ((k, v) # kvs))))"
    using m_more.IH(2) [OF r2(2) m_more.prems(2)] m_more.prems(3) by fastforce
  then show ?case using k r r1 r2 by (auto simp: after_value.simps [of _ _ r] sax_member_def)
qed (auto dest!: toks_Cons simp: sax_loop.simps)

section \<open>What the machine accepts is in the grammar\<close>

definition elements_tail :: "token list \<Rightarrow> json list \<Rightarrow> bool" where
  "elements_tail ts xs \<longleftrightarrow> (\<forall>t0 x. is_value t0 x \<longrightarrow> is_elements (t0 @ ts) (x # xs))"

definition members_tail :: "token list \<Rightarrow> (string \<times> json) list \<Rightarrow> bool" where
  "members_tail ts kvs \<longleftrightarrow>
    (\<forall>k t0 v. is_value t0 v \<longrightarrow> is_members (Value_string k # Name_separator # t0 @ ts) ((k, v) # kvs))"

lemma tail_Nil: "elements_tail [] []" "members_tail [] []"
  by (simp_all add: elements_tail_def members_tail_def e_one m_one)

lemma elements_tail_Cons: "is_value t x \<Longrightarrow> elements_tail ts xs \<Longrightarrow> elements_tail (Value_separator # t @ ts) (x # xs)"
  by (simp add: elements_tail_def e_more)

lemma members_tail_Cons:
  "is_value t v \<Longrightarrow> members_tail ts kvs \<Longrightarrow>
     members_tail (Value_separator # Value_string k # Name_separator # t @ ts) ((k, v) # kvs)"
  by (simp add: members_tail_def m_more)

definition token_measure :: "token \<Rightarrow> string \<Rightarrow> nat" where
  "token_measure tok s = 2 * length s + (if stops tok then 0 else 1)"

lemma token_measure_scan: "scan ic s = (tok, r) \<Longrightarrow> token_measure tok r \<le> 2 * length s"
  using scan_shrinks [of ic s tok r] by (auto simp: token_measure_def)

definition value_sound :: "bool \<Rightarrow> nat \<Rightarrow> bool" where
  "value_sound ic n \<longleftrightarrow> (\<forall>tok s states d X. token_measure tok s < n \<longrightarrow> sax_loop ic False tok s states d = Inr X \<longrightarrow>
     (\<exists>ts v r. toks ic tok s = ts @ tokens ic r \<and> is_value ts v \<and> length r \<le> length s \<and>
        after_value ic False r states (handle_value d v) = Inr X))"

definition elements_sound :: "bool \<Rightarrow> nat \<Rightarrow> bool" where
  "elements_sound ic n \<longleftrightarrow> (\<forall>s states d ys fs X. 2 * length s < n \<longrightarrow> ref_stack d = F_array ys # fs \<longrightarrow>
     after_value ic False s (True # states) d = Inr X \<longrightarrow>
     (\<exists>ts xs r. tokens ic s = ts @ End_array # tokens ic r \<and> elements_tail ts xs \<and> length r \<le> length s \<and>
        after_value ic False r states (handle_value (d\<lparr>ref_stack := fs\<rparr>) (JArray (ys @ xs))) = Inr X))"

definition members_sound :: "bool \<Rightarrow> nat \<Rightarrow> bool" where
  "members_sound ic n \<longleftrightarrow> (\<forall>s states d ob k fs X. 2 * length s < n \<longrightarrow> ref_stack d = F_object ob k # fs \<longrightarrow>
     after_value ic False s (False # states) d = Inr X \<longrightarrow>
     (\<exists>ts kvs r. tokens ic s = ts @ End_object # tokens ic r \<and> members_tail ts kvs \<and> length r \<le> length s \<and>
        after_value ic False r states (handle_value (d\<lparr>ref_stack := fs\<rparr>) (JObject (add_members ob kvs))) = Inr X))"

lemma toks_live [simp]: "\<not> stops tok \<Longrightarrow> toks ic tok s = tok # tokens ic s"
  by (simp add: toks_def)

lemma parse_key_Inr:
  assumes "parse_key ic tok s d = Inr (tok', s', d')"
  obtains k where "tok = Value_string k" "tokens ic s = Name_separator # toks ic tok' s'" "d' = sax_key d k"
    "token_measure tok' s' < 2 * length s" "length s' \<le> length s"
proof -
  obtain k s1 where k: "tok = Value_string k" "scan ic s = (Name_separator, s1)" "scan ic s1 = (tok', s')" "d' = sax_key d k"
    using assms by (auto simp: parse_key_def split: token.splits prod.splits if_splits)
  moreover have "token_measure tok' s' < 2 * length s" "length s' \<le> length s"
    using scan_shrinks [OF k(2)] scan_shrinks [OF k(3)] token_measure_scan [OF k(3)] by auto
  ultimately show ?thesis using that tokens_scan [OF k(2)] tokens_scan [OF k(3)] by simp
qed

lemma elements_step:
  assumes "value_sound ic n" "elements_sound ic n"
  shows "elements_sound ic (Suc n)"
  unfolding elements_sound_def
proof (intro allI impI)
  fix s states d ys fs X
  assume n: "2 * length s < Suc n" and d: "ref_stack d = F_array ys # fs"
    and run: "after_value ic False s (True # states) d = Inr X"
  obtain tok1 s1 where s1: "scan ic s = (tok1, s1)" by (cases "scan ic s")
  from run s1 consider "tok1 = End_array" | "tok1 = Value_separator"
    by (auto simp: after_value.simps [of _ _ s] split: if_splits)
  then show "\<exists>ts xs r. tokens ic s = ts @ End_array # tokens ic r \<and> elements_tail ts xs \<and> length r \<le> length s \<and>
        after_value ic False r states (handle_value (d\<lparr>ref_stack := fs\<rparr>) (JArray (ys @ xs))) = Inr X"
  proof cases
    case 1
    then have "tokens ic s = [] @ End_array # tokens ic s1" using tokens_scan [OF s1] by simp
    moreover have "after_value ic False s1 states (handle_value (d\<lparr>ref_stack := fs\<rparr>) (JArray (ys @ []))) = Inr X"
      using run s1 1 d by (simp add: after_value.simps [of _ _ s])
    ultimately show ?thesis using tail_Nil(1) scan_shrinks [OF s1] by blast
  next
    case 2
    obtain tok2 s2 where s2: "scan ic s1 = (tok2, s2)" by (cases "scan ic s1")
    have len: "length s1 < length s" using scan_shrinks [OF s1] 2 by simp
    have "sax_loop ic False tok2 s2 (True # states) d = Inr X"
      using run s1 s2 2 by (simp add: after_value.simps [of _ _ s])
    moreover have "token_measure tok2 s2 < n" using token_measure_scan [OF s2] len n by simp
    ultimately obtain ts v r where v: "toks ic tok2 s2 = ts @ tokens ic r" "is_value ts v" "length r \<le> length s2"
      "after_value ic False r (True # states) (handle_value d v) = Inr X"
      using assms(1) unfolding value_sound_def by blast
    have r: "length r < length s" using v(3) scan_shrinks [OF s2] len by simp
    obtain ts' xs r' where e: "tokens ic r = ts' @ End_array # tokens ic r'" "elements_tail ts' xs" "length r' \<le> length r"
      "after_value ic False r' states (handle_value (d\<lparr>ref_stack := fs\<rparr>) (JArray ((ys @ [v]) @ xs))) = Inr X"
      using assms(2) [unfolded elements_sound_def, rule_format, of r "handle_value d v" "ys @ [v]" fs states X]
        v(4) d r n by auto
    have "tokens ic s = (Value_separator # ts @ ts') @ End_array # tokens ic r'"
      using tokens_scan [OF s1] tokens_scan [OF s2] 2 v(1) e(1) by simp
    moreover have "elements_tail (Value_separator # ts @ ts') (v # xs)" using v(2) e(2) by (rule elements_tail_Cons)
    ultimately show ?thesis using e(3,4) r by (intro exI [of _ "Value_separator # ts @ ts'"] exI [of _ "v # xs"] exI [of _ r']) simp
  qed
qed

lemma members_step:
  assumes "value_sound ic n" "members_sound ic n"
  shows "members_sound ic (Suc n)"
  unfolding members_sound_def
proof (intro allI impI)
  fix s states d ob k0 fs X
  assume n: "2 * length s < Suc n" and d: "ref_stack d = F_object ob k0 # fs"
    and run: "after_value ic False s (False # states) d = Inr X"
  obtain tok1 s1 where s1: "scan ic s = (tok1, s1)" by (cases "scan ic s")
  from run s1 consider "tok1 = End_object" | "tok1 = Value_separator"
    by (auto simp: after_value.simps [of _ _ s] split: if_splits)
  then show "\<exists>ts kvs r. tokens ic s = ts @ End_object # tokens ic r \<and> members_tail ts kvs \<and> length r \<le> length s \<and>
        after_value ic False r states (handle_value (d\<lparr>ref_stack := fs\<rparr>) (JObject (add_members ob kvs))) = Inr X"
  proof cases
    case 1
    then have "tokens ic s = [] @ End_object # tokens ic s1" using tokens_scan [OF s1] by simp
    moreover have "after_value ic False s1 states (handle_value (d\<lparr>ref_stack := fs\<rparr>) (JObject (add_members ob []))) = Inr X"
      using run s1 1 d by (simp add: after_value.simps [of _ _ s])
    ultimately show ?thesis using tail_Nil(2) scan_shrinks [OF s1] by blast
  next
    case 2
    obtain tok2 s2 where s2: "scan ic s1 = (tok2, s2)" by (cases "scan ic s1")
    have len: "length s2 \<le> length s1" "length s1 < length s"
      using scan_shrinks [OF s1] scan_shrinks [OF s2] 2 by simp_all
    obtain tok3 s3 d3 where k3: "parse_key ic tok2 s2 d = Inr (tok3, s3, d3)"
      "sax_loop ic False tok3 s3 (False # states) d3 = Inr X"
      using run s1 s2 2 by (auto simp: after_value.simps [of _ _ s] split: sum.splits prod.splits)
    obtain k where k: "tok2 = Value_string k" "tokens ic s2 = Name_separator # toks ic tok3 s3" "d3 = sax_key d k"
      "token_measure tok3 s3 < 2 * length s2" "length s3 \<le> length s2"
      using k3(1) by (rule parse_key_Inr)
    have "token_measure tok3 s3 < n" using k(4) len n by simp
    then obtain ts v r where v: "toks ic tok3 s3 = ts @ tokens ic r" "is_value ts v" "length r \<le> length s3"
      "after_value ic False r (False # states) (handle_value d3 v) = Inr X"
      using assms(1) k3(2) unfolding value_sound_def by blast
    have r: "length r < length s" using v(3) k(5) len by simp
    obtain ts' kvs r' where e: "tokens ic r = ts' @ End_object # tokens ic r'" "members_tail ts' kvs" "length r' \<le> length r"
      "after_value ic False r' states (handle_value (d\<lparr>ref_stack := fs\<rparr>) (JObject (add_members (obj_set ob k v) kvs))) = Inr X"
      using assms(2) [unfolded members_sound_def, rule_format, of r "handle_value d3 v" "obj_set ob k v" k fs states X]
        v(4) d r n k(3) by (auto simp: obj_set_touch)
    let ?ts = "Value_separator # Value_string k # Name_separator # ts @ ts'"
    have "tokens ic s = ?ts @ End_object # tokens ic r'"
      using tokens_scan [OF s1] tokens_scan [OF s2] 2 v(1) e(1) k(1,2) by simp
    moreover have "members_tail ?ts ((k, v) # kvs)" using v(2) e(2) by (rule members_tail_Cons)
    ultimately show ?thesis using e(3,4) r by (intro exI [of _ ?ts] exI [of _ "(k, v) # kvs"] exI [of _ r']) simp
  qed
qed

lemma value_step_array:
  assumes "value_sound ic n" "elements_sound ic n" "2 * length s < n"
    and run: "sax_loop ic False Begin_array s states d = Inr X"
  shows "\<exists>ts v r. toks ic Begin_array s = ts @ tokens ic r \<and> is_value ts v \<and> length r \<le> length s \<and>
    after_value ic False r states (handle_value d v) = Inr X"
proof -
  obtain tok1 s1 where s1: "scan ic s = (tok1, s1)" by (cases "scan ic s")
  note len = scan_shrinks(1) [OF s1]
  show ?thesis
  proof (cases "tok1 = End_array")
    case True
    then have "toks ic Begin_array s = [Begin_array, End_array] @ tokens ic s1" using tokens_scan [OF s1] by simp
    moreover have "after_value ic False s1 states (handle_value d (JArray [])) = Inr X"
      using run s1 True by (simp add: sax_loop.simps [of _ _ Begin_array])
    ultimately show ?thesis using v_array_empty len by blast
  next
    case False
    then have "sax_loop ic False tok1 s1 (True # states) (start_array d) = Inr X"
      using run s1 by (simp add: sax_loop.simps [of _ _ Begin_array])
    moreover have "token_measure tok1 s1 < n" using token_measure_scan [OF s1] assms(3) by simp
    ultimately obtain ts v r where v: "toks ic tok1 s1 = ts @ tokens ic r" "is_value ts v" "length r \<le> length s1"
      "after_value ic False r (True # states) (handle_value (start_array d) v) = Inr X"
      using assms(1) unfolding value_sound_def by blast
    obtain ts' xs r' where e: "tokens ic r = ts' @ End_array # tokens ic r'" "elements_tail ts' xs" "length r' \<le> length r"
      "after_value ic False r' states (handle_value d (JArray (v # xs))) = Inr X"
      using assms(2) [unfolded elements_sound_def, rule_format, of r "handle_value (start_array d) v" "[v]" "ref_stack d" states X]
        v(3,4) len assms(3) by (auto simp: start_array_def)
    have "toks ic Begin_array s = (Begin_array # (ts @ ts') @ [End_array]) @ tokens ic r'"
      using tokens_scan [OF s1] v(1) e(1) by simp
    moreover have "is_value (Begin_array # (ts @ ts') @ [End_array]) (JArray (v # xs))"
      using v(2) e(2) by (intro v_array) (simp add: elements_tail_def)
    ultimately show ?thesis using e(3,4) v(3) len by (meson le_trans)
  qed
qed

lemma value_step_object:
  assumes "value_sound ic n" "members_sound ic n" "2 * length s < n"
    and run: "sax_loop ic False Begin_object s states d = Inr X"
  shows "\<exists>ts v r. toks ic Begin_object s = ts @ tokens ic r \<and> is_value ts v \<and> length r \<le> length s \<and>
    after_value ic False r states (handle_value d v) = Inr X"
proof -
  obtain tok1 s1 where s1: "scan ic s = (tok1, s1)" by (cases "scan ic s")
  note len = scan_shrinks(1) [OF s1]
  show ?thesis
  proof (cases "tok1 = End_object")
    case True
    then have "toks ic Begin_object s = [Begin_object, End_object] @ tokens ic s1" using tokens_scan [OF s1] by simp
    moreover have "after_value ic False s1 states (handle_value d (JObject [])) = Inr X"
      using run s1 True by (simp add: sax_loop.simps [of _ _ Begin_object])
    ultimately show ?thesis using v_object_empty len by blast
  next
    case False
    then obtain tok2 s2 d2 where k2: "parse_key ic tok1 s1 (start_object d) = Inr (tok2, s2, d2)"
      "sax_loop ic False tok2 s2 (False # states) d2 = Inr X"
      using run s1 by (auto simp: sax_loop.simps [of _ _ Begin_object] split: sum.splits)
    obtain k where k: "tok1 = Value_string k" "tokens ic s1 = Name_separator # toks ic tok2 s2" "d2 = sax_key (start_object d) k"
      "token_measure tok2 s2 < 2 * length s1" "length s2 \<le> length s1"
      using k2(1) by (rule parse_key_Inr)
    have "token_measure tok2 s2 < n" using k(4) len assms(3) by simp
    then obtain ts v r where v: "toks ic tok2 s2 = ts @ tokens ic r" "is_value ts v" "length r \<le> length s2"
      "after_value ic False r (False # states) (handle_value d2 v) = Inr X"
      using assms(1) k2(2) unfolding value_sound_def by blast
    have r: "length r \<le> length s" using v(3) k(5) len by simp
    obtain ts' kvs r' where e: "tokens ic r = ts' @ End_object # tokens ic r'" "members_tail ts' kvs" "length r' \<le> length r"
      "after_value ic False r' states (handle_value d (JObject (add_members (obj_set [] k v) kvs))) = Inr X"
      using assms(2) [unfolded members_sound_def, rule_format, of r "handle_value d2 v" "obj_set [] k v" k "ref_stack d" states X]
        v(4) r assms(3) k(3) by (auto simp: start_object_def obj_set_touch simp del: obj_set.simps)
    let ?ts = "Value_string k # Name_separator # ts @ ts'"
    have "toks ic Begin_object s = (Begin_object # ?ts @ [End_object]) @ tokens ic r'"
      using tokens_scan [OF s1] v(1) e(1) k(1,2) by simp
    moreover have "is_value (Begin_object # ?ts @ [End_object]) (JObject (mk_obj ((k, v) # kvs)))"
      using v(2) e(2) by (intro v_object) (simp add: members_tail_def)
    ultimately show ?thesis using e(3,4) r
      by (intro exI [of _ "Begin_object # ?ts @ [End_object]"] exI [of _ "JObject (mk_obj ((k, v) # kvs))"] exI [of _ r'])
        (simp add: mk_obj_add)
  qed
qed

lemma value_step_scalar:
  assumes "sax_loop ic False tok s states d = Inr X" "tok \<noteq> Begin_array" "tok \<noteq> Begin_object"
  shows "\<exists>ts v r. toks ic tok s = ts @ tokens ic r \<and> is_value ts v \<and> length r \<le> length s \<and>
    after_value ic False r states (handle_value d v) = Inr X"
proof -
  have "\<exists>v. \<not> stops tok \<and> is_value [tok] v \<and> after_value ic False s states (handle_value d v) = Inr X"
    using assms by (cases tok) (auto simp: sax_loop.simps intro: is_value_is_elements_is_members.intros split: if_splits)
  then obtain v where v: "\<not> stops tok" "is_value [tok] v" "after_value ic False s states (handle_value d v) = Inr X" by blast
  then have "toks ic tok s = [tok] @ tokens ic s" by simp
  with v(2,3) show ?thesis by blast
qed

lemma value_step:
  assumes "value_sound ic n" "elements_sound ic n" "members_sound ic n"
  shows "value_sound ic (Suc n)"
  unfolding value_sound_def
proof (intro allI impI)
  fix tok s states d X
  assume n: "token_measure tok s < Suc n" and run: "sax_loop ic False tok s states d = Inr X"
  consider "tok = Begin_array" | "tok = Begin_object" | "tok \<noteq> Begin_array" "tok \<noteq> Begin_object" by blast
  then show "\<exists>ts v r. toks ic tok s = ts @ tokens ic r \<and> is_value ts v \<and> length r \<le> length s \<and>
        after_value ic False r states (handle_value d v) = Inr X"
  proof cases
    case 1
    then show ?thesis using value_step_array [OF assms(1,2)] n run by (simp add: token_measure_def)
  next
    case 2
    then show ?thesis using value_step_object [OF assms(1,3)] n run by (simp add: token_measure_def)
  qed (use value_step_scalar run in blast)
qed

lemma machine_sound: "value_sound ic n" "elements_sound ic n" "members_sound ic n"
proof -
  have "value_sound ic n \<and> elements_sound ic n \<and> members_sound ic n"
  proof (induction n)
    case 0
    then show ?case by (simp add: value_sound_def elements_sound_def members_sound_def)
  qed (simp add: value_step elements_step members_step)
  then show "value_sound ic n" "elements_sound ic n" "members_sound ic n" by simp_all
qed

lemma tokens_End: "tokens ic s = [End_of_input] \<Longrightarrow> \<exists>r. scan ic s = (End_of_input, r)"
  using tokens_scan [of ic s "fst (scan ic s)" "snd (scan ic s)"]
  by (auto simp: toks_def tokens.simps split: if_splits prod.splits) 

lemma parse_grammar:
  "json_parse_with ic False s = Inr v \<longleftrightarrow>
    (\<exists>s' ts. skip_bom s = Some s' \<and> tokens ic s' = ts @ [End_of_input] \<and> is_value ts v)" (is "?l = ?r")
proof
  assume ?l
  then obtain tok s1 where "scan_first ic s = (tok, s1)"
    by (cases "scan_first ic s")
  note f = this
  from \<open>?l\<close> f obtain d s2 s3 where run: "sax_loop ic False tok s1 [] dom_init = Inr (d, s2)"
    "scan ic s2 = (End_of_input, s3)" "v = root d"
    by (auto simp: json_parse_with_def split: sum.splits prod.splits if_splits)
  then obtain ts w r where w: "toks ic tok s1 = ts @ tokens ic r" "is_value ts w"
    "after_value ic False r [] (handle_value dom_init w) = Inr (d, s2)"
    using machine_sound(1) [unfolded value_sound_def, rule_format, OF lessI run(1)] by blast
  have "r = s2" "w = v" using w(3) run(3) by (auto simp: after_value.simps handle_value_def dom_init_def)
  moreover have "tokens ic s2 = [End_of_input]" using tokens_scan [OF run(2)] by (simp add: toks_def)
  moreover obtain s' where "skip_bom s = Some s'" "scan ic s' = (tok, s1)"
    using f run(1) by (auto simp: scan_first_def sax_loop.simps split: option.splits)
  ultimately show ?r using w tokens_scan by metis
next
  assume ?r
  then obtain s' ts where r: "skip_bom s = Some s'" "tokens ic s' = ts @ [End_of_input]" "is_value ts v" by blast
  obtain tok s1 where s1: "scan ic s' = (tok, s1)" by (cases "scan ic s'")
  then have "toks ic tok s1 = ts @ [End_of_input]" using r(2) tokens_scan by metis
  then obtain r' where r': "tokens ic r' = [End_of_input]"
    "sax_loop ic False tok s1 [] dom_init = after_value ic False r' [] (handle_value dom_init v)"
    using machine_accepts(1) [OF r(3)] by blast
  moreover obtain r'' where "scan ic r' = (End_of_input, r'')" using tokens_End r'(1) by blast
  ultimately show ?l using r(1) s1
    by (simp add: json_parse_with_def scan_first_def after_value.simps handle_value_def dom_init_def)
qed

section \<open>What is delivered\<close>

lemma tokens_ok: "t \<in> set (tokens ic s) \<Longrightarrow> token_ok t"
proof (induction ic s rule: tokens.induct)
  case (1 ic s)
  obtain u r where "scan ic s = (u, r)" by (cases "scan ic s")
  moreover then have "token_ok u" using scan_ok [of ic s] by simp
  ultimately show ?case using 1 by (auto simp: tokens_scan toks_def split: if_splits)
qed

lemma grammar_ok:
  "is_value ts v \<Longrightarrow> \<forall>t\<in>set ts. token_ok t \<Longrightarrow> json_ok v"
  "is_elements ts xs \<Longrightarrow> \<forall>t\<in>set ts. token_ok t \<Longrightarrow> \<forall>x\<in>set xs. json_ok x"
  "is_members ts kvs \<Longrightarrow> \<forall>t\<in>set ts. token_ok t \<Longrightarrow> \<forall>kv\<in>set kvs. utf8 (fst kv) \<and> json_ok (snd kv)"
proof (induction rule: is_value_is_elements_is_members.inducts)
  case (v_object ts kvs)
  then show ?case using mk_obj_ok [of kvs] by (simp del: json_ok.simps)
qed auto

lemma json_parse_ok: "json_parse_with ic False s = Inr v \<Longrightarrow> json_ok v"
proof -
  assume "json_parse_with ic False s = Inr v"
  then obtain s' ts where r: "tokens ic s' = ts @ [End_of_input]" "is_value ts v"
    by (auto simp: parse_grammar)
  moreover have "\<forall>t\<in>set ts. token_ok t" using tokens_ok [of _ ic s'] r(1) by simp
  ultimately show ?thesis using grammar_ok(1) by blast
qed

text \<open>
  A text of n bytes gives at most n + 1 tokens, the last of them being the end of the input
  or an error.
\<close>

lemma tokens_length: "length (tokens ic s) \<le> Suc (length s)"
proof (induction ic s rule: tokens.induct)
  case (1 ic s)
  obtain t r where t: "scan ic s = (t, r)" by (cases "scan ic s")
  then show ?case using 1 [OF t [symmetric]] scan_shrinks [OF t] by (auto simp: tokens_scan toks_def)
qed

lemma tokens_last: "tokens ic s \<noteq> [] \<and> stops (last (tokens ic s)) \<and> (\<forall>t\<in>set (butlast (tokens ic s)). \<not> stops t)"
proof (induction ic s rule: tokens.induct)
  case (1 ic s)
  obtain t r where t: "scan ic s = (t, r)" by (cases "scan ic s")
  then show ?case using 1 [OF t [symmetric]] by (auto simp: tokens_scan toks_def)
qed


section \<open>The reader as a whole\<close>

text \<open>
  C18. The parser implements the grammar: the stack machine with its lexer accepts a text and
  delivers a value exactly when, after an optional byte order mark, the tokens of the text up to
  the end of the input are derivable as that value by the rules of RFC 8259 (where a later
  member of an object replaces an earlier one with the same key).
\<close>

theorem parser_recognises_grammar:
  "json_parse s = Inr v \<longleftrightarrow>
    (\<exists>s' ts. skip_bom s = Some s' \<and> tokens False s' = ts @ [End_of_input] \<and> is_value ts v)"
  unfolding json_parse_def by (rule parse_grammar)

text \<open>
  C26. Whatever text is parsed, the value is well formed: integers are in the range of the 64-bit
  type they are stored in, every string and key is UTF-8 (escapes included), and the keys of each object are sorted and
  distinct.
\<close>

theorem parsed_values_well_formed:
  assumes "json_parse s = Inr v"
  shows "json_ok v"
  using assms unfolding json_parse_def by (rule json_parse_ok)

definition sample_text :: string where
  "sample_text = ''[]''"

lemma sample_parses: "json_parse sample_text = Inr (JArray [])"
  by code_simp

theorem parsed_values_well_formed_witness: "json_ok (JArray [])"
  by (rule parsed_values_well_formed [OF sample_parses])

text \<open>
  C25. The lexer makes progress: a text of n bytes is exhausted after at most n + 1 tokens,
  none of them but the last being the end of the input or an error, and every call leaves at most the text
  it was given.
\<close>

theorem lexer_terminates:
  "length (tokens ic s) \<le> Suc (length s) \<and> tokens ic s \<noteq> [] \<and> stops (last (tokens ic s)) \<and>
   list_all (\<lambda>t. \<not> stops t) (butlast (tokens ic s)) \<and> length (snd (scan ic s)) \<le> length s"
proof -
  have "length (snd (scan ic s)) \<le> length s"
    using scan_shrinks [of ic s "fst (scan ic s)" "snd (scan ic s)"] by auto
  then show ?thesis using tokens_length [of ic s] tokens_last [of ic s] by (simp add: list_all_iff)
qed

end
