(* ===== verification/JsonUtf8.thy ===== *)
theory JsonUtf8
  imports JsonParser
begin

text \<open>
  The texts that the parser of the JSON library accepts are UTF-8, up to a NUL character, which it
  takes as the end of the input.
\<close>

definition ascii :: "string \<Rightarrow> bool" where
  "ascii s \<longleftrightarrow> list_all (\<lambda>c. byte_of c < 0x80) s"

lemma ascii_simps [simp]: "ascii []" "ascii (c # s) \<longleftrightarrow> byte_of c < 0x80 \<and> ascii s" "ascii (s @ t) \<longleftrightarrow> ascii s \<and> ascii t"
  by (simp_all add: ascii_def)

lemma ascii_utf8: "ascii s \<Longrightarrow> utf8 s"
proof (induction s)
  case (Cons c s)
  then show ?case using utf8_append [of "[c]" s] utf8_ascii [of c] by simp
qed simp

lemma hex_ascii: "hex_value c = Some d \<Longrightarrow> byte_of c < 0x80"
  by (auto simp: hex_value_def Let_def split: if_splits)

lemma get_codepoint_text: "get_codepoint s = Some (cp, s') \<Longrightarrow> \<exists>p. s = p @ s' \<and> ascii p"
proof -
  assume "get_codepoint s = Some (cp, s')"
  then obtain a b c d where s: "s = a # b # c # d # s'" "hex4 a b c d = Some cp" using get_codepoint_Some by blast
  then have "ascii [a, b, c, d]" by (auto simp: hex4_def hex_ascii split: option.splits)
  then show ?thesis using s(1) by (intro exI [of _ "[a, b, c, d]"]) simp
qed

lemma scan_unicode_text:
  assumes "scan_unicode s = Inr (bs, s')"
  shows "\<exists>p. s = p @ s' \<and> ascii p"
proof -
  obtain cp s1 where s1: "get_codepoint s = Some (cp, s1)"
    using assms by (auto simp: scan_unicode_def split: option.splits)
  then obtain p where p: "s = p @ s1" "ascii p" using get_codepoint_text by blast
  show ?thesis
  proof (cases "0xD800 \<le> cp \<and> cp \<le> 0xDBFF")
    case True
    then obtain s2 cp2 where s2: "s1 = backslash # CHR ''u'' # s2" "get_codepoint s2 = Some (cp2, s')"
      using assms s1 by (auto simp: scan_unicode_def split: list.splits if_splits option.splits)
    then obtain q where "s2 = q @ s'" "ascii q" using get_codepoint_text by blast
    then show ?thesis using p s2(1) by (intro exI [of _ "p @ backslash # CHR ''u'' # q"]) (simp add: backslash_def)
  next
    case False
    then have "s' = s1" using assms s1 by (auto simp: scan_unicode_def split: if_splits)
    then show ?thesis using p by blast
  qed
qed

lemma scan_escape_text:
  assumes "scan_escape e s = Inr (bs, s')"
  shows "\<exists>p. e # s = p @ s' \<and> ascii p"
proof (cases "e = CHR ''u''")
  case True
  then have "scan_unicode s = Inr (bs, s')" using assms by (simp add: scan_escape_def quote_def backslash_def)
  then obtain p where "s = p @ s'" "ascii p" using scan_unicode_text by blast
  then show ?thesis using True by (intro exI [of _ "CHR ''u'' # p"]) simp
next
  case False
  then have "s' = s" "byte_of e < 0x80"
    using assms by (auto simp: scan_escape_def quote_def backslash_def split: if_splits)
  then show ?thesis by (intro exI [of _ "[e]"]) simp
qed

lemma scan_string_text:
  "scan_string buf s = (Value_string v, r) \<Longrightarrow> \<exists>p. s = p @ r \<and> utf8 p"
proof (induction buf s rule: scan_string.induct)
  case (2 buf c s)
  consider "c = quote" | "c \<noteq> quote" "c = backslash" | "c \<noteq> quote" "c \<noteq> backslash" by blast
  then show ?case
  proof cases
    case 1
    then show ?thesis using "2.prems" utf8_ascii [of quote] by (intro exI [of _ "[quote]"]) (simp add: quote_def)
  next
    case 2
    then obtain e s1 bs s2 where e: "s = e # s1" "scan_escape e s1 = Inr (bs, s2)"
      "scan_string (buf @ bs) s2 = (Value_string v, r)"
      using "2.prems" by (auto split: list.splits sum.splits)
    obtain p where p: "s2 = p @ r" "utf8 p" using "2.IH"(1) [OF 2 e(1) e(2) refl e(3)] by blast
    obtain q where q: "e # s1 = q @ s2" "ascii q" using scan_escape_text [OF e(2)] by blast
    have "ascii (backslash # q)" using q(2) by (simp add: backslash_def)
    then have "utf8 ((backslash # q) @ p)" using p(2) utf8_append ascii_utf8 by blast
    then show ?thesis using p(1) q(1) e(1) 2(2) by (intro exI [of _ "(backslash # q) @ p"]) simp
  next
    case 3
    then obtain rs buf' s' where l: "\<not> byte_of c < 0x20" "lead_ranges (byte_of c) = Some rs"
      "next_byte_in_range rs (buf @ [c]) s = Some (buf', s')" "scan_string buf' s' = (Value_string v, r)"
      using "2.prems" by (auto split: if_splits option.splits)
    obtain p where p: "s' = p @ r" "utf8 p" using "2.IH"(2) [OF 3 l(1,2,3) refl l(4)] by blast
    obtain q where "utf8 q" "c # s = q @ s'" using lead_utf8 [OF l(2,3)] by blast
    then show ?thesis using p utf8_append [of q p] by (intro exI [of _ "q @ p"]) simp
  qed
qed simp

lemma scan_number_text: "scan_number_loop st ty buf s = (t, r) \<Longrightarrow> \<not> stops t \<Longrightarrow> \<exists>p. s = p @ r \<and> ascii p"
proof (induction st ty buf s rule: scan_number_loop.induct)
  case (2 st ty buf c s)
  show ?case
  proof (cases "num_step st c")
    case None
    then show ?thesis using 2(2,3) by (auto split: option.splits)
  next
    case (Some st')
    then obtain p where "s = p @ r" "ascii p" using 2 by auto
    moreover have "byte_of c < 0x80" using Some by (cases st) (auto simp: num_step_def is_digit_def split: if_splits)
    ultimately show ?thesis by (intro exI [of _ "c # p"]) simp
  qed
qed (auto split: option.splits)

lemma scan_literal_text: "scan_literal xs t s = (t', r) \<Longrightarrow> \<not> stops t' \<Longrightarrow> s = xs @ r"
  by (induction xs t s rule: scan_literal.induct) (auto split: if_splits)

lemma scan_current_text:
  assumes "scan_current c s = (t, r)" "\<not> stops t"
  shows "\<exists>p. c # s = p @ r \<and> utf8 p"
proof -
  have one: "byte_of c < 0x80 \<Longrightarrow> s = q @ r \<Longrightarrow> ascii q \<Longrightarrow> ?thesis" for q
    by (intro exI [of _ "c # q"]) (simp add: ascii_utf8)
  consider "c \<in> set ''[]{}:,''" | "c = CHR ''t''" | "c = CHR ''f''" | "c = CHR ''n''" | "c = quote"
    | "c = CHR ''-'' \<or> is_digit c" | "c \<notin> set ''[]{}:,tfn''" "c \<noteq> quote" "\<not> (c = CHR ''-'' \<or> is_digit c)" by auto
  then show ?thesis
  proof cases
    case 1
    then have "r = s" "byte_of c < 0x80" using assms(1) by (auto simp: scan_current_def)
    then show ?thesis using one [of "[]"] by simp
  next
    case 2
    then have "scan_literal ''rue'' Literal_true s = (t, r)" using assms(1) by (simp add: scan_current_def)
    from scan_literal_text [OF this assms(2)] show ?thesis using 2 by (intro one [of "''rue''"]) simp_all
  next
    case 3
    then have "scan_literal ''alse'' Literal_false s = (t, r)" using assms(1) by (simp add: scan_current_def)
    from scan_literal_text [OF this assms(2)] show ?thesis using 3 by (intro one [of "''alse''"]) simp_all
  next
    case 4
    then have "scan_literal ''ull'' Literal_null s = (t, r)" using assms(1) by (simp add: scan_current_def)
    from scan_literal_text [OF this assms(2)] show ?thesis using 4 by (intro one [of "''ull''"]) simp_all
  next
    case 5
    then have s: "scan_string [] s = (t, r)" using assms(1) by (simp add: scan_current_def quote_def)
    then obtain v where "t = Value_string v" using scan_string_result [of "[]" s] assms(2) by auto
    then obtain p where "s = p @ r" "utf8 p" using s scan_string_text by blast
    then show ?thesis using 5 utf8_append [of "[quote]" p] utf8_ascii [of quote]
      by (intro exI [of _ "quote # p"]) (simp add: quote_def)
  next
    case 6
    then have "\<exists>st ty buf. scan_number_loop st ty buf s = (t, r)" "byte_of c < 0x80"
      using assms(1) by (auto simp: scan_current_def scan_number_def is_digit_def quote_def split: if_splits)
    then obtain q where "s = q @ r" "ascii q" using scan_number_text assms(2) by blast
    with \<open>byte_of c < 0x80\<close> show ?thesis by (rule one)
  next
    case 7
    then show ?thesis using assms by (auto simp: scan_current_def split: if_splits)
  qed
qed

lemma number_token_not_end: "number_token ty buf \<noteq> End_of_input"
  by (cases ty) (simp_all add: number_token_def Let_def)

lemma scan_loop_not_end: "fst (scan_number_loop st ty buf s) \<noteq> End_of_input"
  by (induction st ty buf s rule: scan_number_loop.induct) (simp_all add: number_token_not_end split: option.split)

lemma scan_number_not_end: "fst (scan_number c s) \<noteq> End_of_input"
  by (simp add: scan_number_def scan_loop_not_end)

lemma scan_literal_not_end: "t \<noteq> End_of_input \<Longrightarrow> fst (scan_literal xs t s) \<noteq> End_of_input"
  by (induction xs t s rule: scan_literal.induct) simp_all

lemma ws_text: "\<exists>p. s = p @ skip_whitespace s \<and> ascii p"
proof -
  have "list_all json_ws w \<Longrightarrow> ascii w" for w by (induction w) (auto simp: json_ws_def)
  moreover have "list_all json_ws (takeWhile json_ws s)" by (auto simp: list_all_iff dest: set_takeWhileD)
  ultimately show ?thesis by (intro exI [of _ "takeWhile json_ws s"]) (simp add: skip_whitespace_def)
qed

lemma scan_text:
  assumes "scan False s = (t, r)"
  shows "\<not> stops t \<Longrightarrow> \<exists>p. s = p @ r \<and> utf8 p"
    and "t = End_of_input \<Longrightarrow> \<exists>p q. s = p @ q \<and> utf8 p \<and> (q = [] \<or> hd q = CHR 0x00)"
proof -
  obtain p where p: "s = p @ skip_whitespace s" "ascii p" using ws_text by blast
  have k: "skip_comments False x = Inr x" for x by (cases x) (simp_all add: skip_comments.simps)
  show "\<exists>p. s = p @ r \<and> utf8 p" if live: "\<not> stops t"
  proof (cases "skip_whitespace s")
    case (Cons c u)
    then have "scan_current c u = (t, r)" using assms k by (simp add: scan_def)
    then obtain q where "c # u = q @ r" "utf8 q" using scan_current_text live by blast
    then show ?thesis using p Cons utf8_append [OF ascii_utf8] by (intro exI [of _ "p @ q"]) simp
  qed (use assms live k in \<open>auto simp: scan_def\<close>)
  show "\<exists>p q. s = p @ q \<and> utf8 p \<and> (q = [] \<or> hd q = CHR 0x00)" if "t = End_of_input"
  proof -
    have "skip_whitespace s = [] \<or> hd (skip_whitespace s) = CHR 0x00"
    proof (cases "skip_whitespace s")
      case (Cons c u)
      have "c = CHR 0x00"
      proof (rule ccontr)
        assume "c \<noteq> CHR 0x00"
        then have "fst (scan_current c u) \<noteq> End_of_input"
          using scan_string_result [of "[]" u] by (auto simp: scan_current_def scan_number_not_end scan_literal_not_end)
        then show False using assms that k Cons by (simp add: scan_def)
      qed
      then show ?thesis using Cons by simp
    qed simp
    then show ?thesis using p ascii_utf8 by blast
  qed
qed


lemma tokens_text:
  "tokens False s = ts @ [End_of_input] \<Longrightarrow> \<exists>p q. s = p @ q \<and> utf8 p \<and> (q = [] \<or> hd q = CHR 0x00)"
proof (induction ts arbitrary: s)
  case Nil
  then obtain r where "scan False s = (End_of_input, r)" using tokens_End by force
  then show ?case using scan_text(2) by blast
next
  case (Cons t ts)
  then obtain r where r: "scan False s = (t, r)" "tokens False r = ts @ [End_of_input]"
    using tokens_Cons [of False s t "ts @ [End_of_input]"] by auto
  have "\<not> stops t" using Cons.prems tokens_last [of False s] by (cases ts) (auto simp: butlast_append)
  then obtain p1 where "s = p1 @ r" "utf8 p1" using scan_text(1) [OF r(1)] by blast
  moreover obtain p q where "r = p @ q" "utf8 p" "q = [] \<or> hd q = CHR 0x00" using Cons.IH [OF r(2)] by blast
  ultimately show ?case using utf8_append by (metis append.assoc)
qed

lemma skip_bom_text: "skip_bom s = Some s' \<Longrightarrow> \<exists>p. s = p @ s' \<and> utf8 p"
proof -
  assume "skip_bom s = Some s'"
  then consider "s' = s" | "s = [CHR 0xEF, CHR 0xBB, CHR 0xBF] @ s'"
    by (auto simp: skip_bom_def split: list.splits if_splits)
  then show ?thesis
  proof cases
    case 2
    have "utf8 [CHR 0xEF, CHR 0xBB, CHR 0xBF]"
      using utf8_bytes_utf8 [of "0xFEFF"] by (simp add: utf8_bytes_arith scalar_def char_of_def bit_0)
    then show ?thesis using 2 by blast
  qed auto
qed

theorem parsed_text_utf8:
  assumes "json_parse s = Inr v" "CHR 0x00 \<notin> set s"
  shows "utf8 s"
proof -
  obtain s' ts where s': "skip_bom s = Some s'" "tokens False s' = ts @ [End_of_input]"
    using assms(1) by (auto simp: json_parse_def parse_grammar)
  obtain p where p: "s = p @ s'" "utf8 p" using skip_bom_text [OF s'(1)] by blast
  obtain q r where q: "s' = q @ r" "utf8 q" "r = [] \<or> hd r = CHR 0x00" using tokens_text [OF s'(2)] by blast
  then have "r = []" using assms(2) p(1) by (cases r) auto
  then show ?thesis using p q utf8_append by auto
qed


text \<open>UTF-8 can be cut at an ASCII character: what stands between two of them is UTF-8 itself.\<close>

lemma next_state_ascii: "st < 9 \<Longrightarrow> b < 0x80 \<Longrightarrow> next_state st b = (if st = 0 then 0 else 1)"
proof -
  assume a: "st < 9" "b < 0x80"
  show ?thesis
  proof (cases "state_ranges st")
    case None
    then have "st = 1" using state_ranges_None [OF a(1)] by simp
    then show ?thesis using next_rows(1) [of b] a(2) by simp
  next
    case (Some rs)
    show ?thesis
    proof (cases rs)
      case Nil
      then have "st = 0" using Some by (simp add: state_ranges_def split: if_splits)
      then show ?thesis using first_state [of b] a(2) by simp
    next
      case (Cons r rs1)
      obtain lo hi where r: "r = (lo, hi)" by (cases r)
      have lo: "0x80 \<le> lo" "st \<noteq> 0" using Some Cons r by (auto simp: state_ranges_def split: if_splits)
      have "state_ranges (next_state st b) = None"
        using state_ranges_next [of b st lo hi rs1] Some Cons r lo a(2) by simp
      then show ?thesis using state_ranges_None next_state_less [of b st] a lo by simp
    qed
  qed
qed

lemma run_states_less: "\<forall>b\<in>set bs. b < 256 \<Longrightarrow> st < 9 \<Longrightarrow> foldl next_state st bs < 9"
  by (induction bs arbitrary: st) (simp_all add: next_state_less)

lemma run_ascii: "ascii s \<Longrightarrow> foldl next_state 0 (map byte_of s) = 0"
  using next_state_ascii by (induction s) simp_all

lemma utf8_cut:
  assumes "utf8 (p @ m @ c # q)" "ascii p" "byte_of c < 0x80"
  shows "utf8 m"
proof -
  let ?st = "foldl next_state 0 (map byte_of m)"
  have "foldl next_state (next_state ?st (byte_of c)) (map byte_of q) = 0"
    using assms(1) run_ascii [OF assms(2)] by (simp add: utf8_code)
  moreover have "?st < 9" by (rule run_states_less) (simp_all add: byte_of_less)
  moreover have "foldl next_state 1 (map byte_of q) = 1" using run_reject [OF byte_of_less] by simp
  ultimately have "?st = 0" using next_state_ascii [of ?st "byte_of c"] assms(3) by (auto split: if_splits)
  then show ?thesis by (simp add: utf8_code)
qed

end
