(* ===== verification/JsonEscape.thy ===== *)
theory JsonEscape
  imports JsonParser
begin

text \<open>
  The escaping of strings by the serializer of the JSON library (\<open>serializer::dump_escaped\<close> of
  module-spoof/jni/include/json.hpp) through its 512-byte \<open>string_buffer\<close>, for the three error
  handlers. A write past the end of the buffer is an error of the model; the lemmas show that it
  never arises, that the strict handler fails exactly on strings that are not UTF-8, and that the
  lexer reads the escaped text back.
\<close>

section \<open>Escaping strings\<close>

datatype error_handler_t = Strict | Ignore | Replace

datatype dump_exn =
    Invalid_byte nat char
  | Incomplete char
  | Out_of_buffer

definition string_buffer_size :: nat where
  "string_buffer_size = 512"

text \<open>
  The variables of \<open>dump_escaped\<close>: \<open>sout\<close> is the text written to \<open>o\<close>, \<open>sbuf\<close> the first \<open>bytes\<close>
  characters of \<open>string_buffer\<close>, \<open>accepted\<close> is \<open>bytes_after_last_accept\<close>.
\<close>

record escaper =
  sout :: string
  sbuf :: string
  accepted :: nat
  undumped :: nat
  ustate :: nat
  codepoint :: nat

definition escaper_init :: escaper where
  "escaper_init = \<lparr>sout = [], sbuf = [], accepted = 0, undumped = 0, ustate = UTF8_ACCEPT, codepoint = 0\<rparr>"

definition put :: "string \<Rightarrow> escaper \<Rightarrow> dump_exn + escaper" where
  "put w e = (if length (sbuf e) + length w \<le> string_buffer_size then Inr (e\<lparr>sbuf := sbuf e @ w\<rparr>) else Inl Out_of_buffer)"

definition write_buffer :: "escaper \<Rightarrow> escaper" where
  "write_buffer e = (if string_buffer_size - length (sbuf e) < 13 then e\<lparr>sout := sout e @ sbuf e, sbuf := []\<rparr> else e)"

definition nibble_to_hex :: "nat \<Rightarrow> char" where
  "nibble_to_hex n = ''0123456789abcdef'' ! n"

definition write_u_escape :: "nat \<Rightarrow> string" where
  "write_u_escape codeunit =
    [backslash, CHR ''u'',
     nibble_to_hex (drop_bit 12 codeunit AND 0x0F), nibble_to_hex (drop_bit 8 codeunit AND 0x0F),
     nibble_to_hex (drop_bit 4 codeunit AND 0x0F), nibble_to_hex (codeunit AND 0x0F)]"

definition hex_bytes :: "nat \<Rightarrow> string" where
  "hex_bytes b = [''0123456789ABCDEF'' ! (b div 16), ''0123456789ABCDEF'' ! (b mod 16)]"

text \<open>\<open>what()\<close> of the two exceptions \<open>type_error.316\<close>.\<close>

fun dump_exn_text :: "dump_exn \<Rightarrow> string" where
  "dump_exn_text (Invalid_byte i c) = ''invalid UTF-8 byte at index '' @ dec i @ '': 0x'' @ hex_bytes (byte_of c)"
| "dump_exn_text (Incomplete c) = ''incomplete UTF-8 string; last byte: 0x'' @ hex_bytes (byte_of c)"
| "dump_exn_text Out_of_buffer = []"

text \<open>What is put into the buffer at the last byte \<open>c\<close> of a code point.\<close>

definition escape_code :: "bool \<Rightarrow> nat \<Rightarrow> char \<Rightarrow> string" where
  "escape_code ensure_ascii cp c =
    (if cp = 0x08 then [backslash, CHR ''b'']
     else if cp = 0x09 then [backslash, CHR ''t'']
     else if cp = 0x0A then [backslash, CHR ''n'']
     else if cp = 0x0C then [backslash, CHR ''f'']
     else if cp = 0x0D then [backslash, CHR ''r'']
     else if cp = 0x22 then [backslash, quote]
     else if cp = 0x5C then [backslash, backslash]
     else if cp \<le> 0x1F \<or> ensure_ascii \<and> 0x7F \<le> cp then
       (if cp \<le> 0xFFFF then write_u_escape cp
        else write_u_escape ((0xD7C0 + drop_bit 10 cp) mod 2 ^ 16) @ write_u_escape ((0xDC00 + (cp AND 0x3FF)) mod 2 ^ 16))
     else [c])"

definition replacement :: "bool \<Rightarrow> string" where
  "replacement ensure_ascii = (if ensure_ascii then [backslash] @ ''ufffd'' else [CHR 0xEF, CHR 0xBF, CHR 0xBD])"

text \<open>One pass of the loop; the flag tells that the byte is to be read again (\<open>--i\<close>).\<close>

definition dump_byte :: "error_handler_t \<Rightarrow> bool \<Rightarrow> nat \<Rightarrow> char \<Rightarrow> escaper \<Rightarrow> dump_exn + (bool \<times> escaper)" where
  "dump_byte h ensure_ascii i c e =
    (let (st, cp) = decode (ustate e, codepoint e) (byte_of c); e = e\<lparr>ustate := st, codepoint := cp\<rparr>
     in if st = UTF8_ACCEPT then
          (case put (escape_code ensure_ascii cp c) e of
             Inl x \<Rightarrow> Inl x
           | Inr e1 \<Rightarrow> let e2 = write_buffer e1 in Inr (False, e2\<lparr>accepted := length (sbuf e2), undumped := 0\<rparr>))
        else if st = UTF8_REJECT then
          if h = Strict then Inl (Invalid_byte i c)
          else
            (let again = 0 < undumped e; e1 = e\<lparr>sbuf := take (accepted e) (sbuf e)\<rparr>
             in if h = Replace then
                  (case put (replacement ensure_ascii) e1 of
                     Inl x \<Rightarrow> Inl x
                   | Inr e2 \<Rightarrow> let e3 = write_buffer e2
                       in Inr (again, e3\<lparr>accepted := length (sbuf e3), undumped := 0, ustate := UTF8_ACCEPT\<rparr>))
                else Inr (again, e1\<lparr>undumped := 0, ustate := UTF8_ACCEPT\<rparr>))
        else
          (case put (if ensure_ascii then [] else [c]) e of
             Inl x \<Rightarrow> Inl x
           | Inr e1 \<Rightarrow> Inr (False, e1\<lparr>undumped := undumped e1 + 1\<rparr>)))"

lemma put_frame: "put w e = Inr e' \<Longrightarrow> e' = e\<lparr>sbuf := sbuf e @ w\<rparr> \<and> length (sbuf e') \<le> 512"
  by (auto simp: put_def string_buffer_size_def split: if_splits)

lemma write_buffer_frame [simp]:
  "accepted (write_buffer e) = accepted e" "undumped (write_buffer e) = undumped e"
  "ustate (write_buffer e) = ustate e" "codepoint (write_buffer e) = codepoint e"
  "sout (write_buffer e) @ sbuf (write_buffer e) = sout e @ sbuf e"
  by (simp_all add: write_buffer_def)

lemma write_buffer_room: "length (sbuf (write_buffer e)) \<le> 499"
  by (auto simp: write_buffer_def string_buffer_size_def)

lemma dump_byte_again: "dump_byte h a i c e = Inr (True, e') \<Longrightarrow> 0 < undumped e \<and> undumped e' = 0"
  by (auto simp: dump_byte_def Let_def split: prod.splits sum.splits if_splits)

function dump_loop :: "error_handler_t \<Rightarrow> bool \<Rightarrow> nat \<Rightarrow> string \<Rightarrow> escaper \<Rightarrow> dump_exn + escaper" where
  "dump_loop h ensure_ascii i [] e = Inr e"
| "dump_loop h ensure_ascii i (c # s) e =
    (case dump_byte h ensure_ascii i c e of
       Inl x \<Rightarrow> Inl x
     | Inr (again, e') \<Rightarrow> if again then dump_loop h ensure_ascii i (c # s) e' else dump_loop h ensure_ascii (i + 1) s e')"
  by pat_completeness auto
termination
proof (relation "measure (\<lambda>(h, a, i, s, e). 2 * length s + (if 0 < undumped e then 1 else 0))")
qed (auto dest!: dump_byte_again)

declare dump_loop.simps(2) [simp del]

definition dump_escaped :: "error_handler_t \<Rightarrow> bool \<Rightarrow> string \<Rightarrow> dump_exn + string" where
  "dump_escaped h ensure_ascii s = (case dump_loop h ensure_ascii 0 s escaper_init of
      Inl x \<Rightarrow> Inl x
    | Inr e \<Rightarrow>
        if ustate e = UTF8_ACCEPT then Inr (sout e @ sbuf e)
        else (case h of
            Strict \<Rightarrow> Inl (Incomplete (last s))
          | Ignore \<Rightarrow> Inr (sout e @ take (accepted e) (sbuf e))
          | Replace \<Rightarrow> Inr (sout e @ take (accepted e) (sbuf e) @ replacement ensure_ascii)))"

section \<open>The buffer is large enough\<close>

text \<open>
  Between two code points at least 13 bytes are free. Within a code point at most three bytes
  are waiting in the buffer (none when non-ASCII characters are escaped).
\<close>

definition escaper_ok :: "bool \<Rightarrow> escaper \<Rightarrow> bool" where
  "escaper_ok ensure_ascii e \<longleftrightarrow>
     accepted e \<le> length (sbuf e) \<and> accepted e \<le> 499 \<and>
     length (sbuf e) \<le> accepted e + (if ensure_ascii then 0 else undumped e) \<and>
     (\<exists>rs. state_ranges (ustate e) = Some rs \<and> undumped e + length rs \<le> 4 \<and> (rs = [] \<longrightarrow> undumped e = 0))"

lemma escaper_ok_init: "escaper_ok a escaper_init"
  by (simp add: escaper_ok_def escaper_init_def UTF8_ACCEPT_def state_ranges_def)

lemma escape_code_length: "length (escape_code a cp c) \<le> (if a then 12 else 6)"
  by (simp add: escape_code_def write_u_escape_def)

lemma state_ranges_Nil: "state_ranges st = Some [] \<longleftrightarrow> st = 0"
  by (simp add: state_ranges_def)

lemma seq_ranges_length: "seq_ranges b = Some rs \<Longrightarrow> length rs \<le> 3"
  by (auto simp: seq_ranges_def lead_ranges_def split: if_splits)

lemma escaper_ok_next:
  assumes "escaper_ok a e" "b < 256" "state_ranges (next_state (ustate e) b) = Some rs'" "rs' \<noteq> []"
  shows "undumped e + 1 + length rs' \<le> 4"
proof -
  obtain rs where rs: "state_ranges (ustate e) = Some rs" "undumped e + length rs \<le> 4" "rs = [] \<longrightarrow> undumped e = 0"
    using assms(1) by (auto simp: escaper_ok_def)
  show ?thesis
  proof (cases rs)
    case Nil
    then have "ustate e = 0" using rs(1) state_ranges_Nil by simp
    then show ?thesis using Nil rs(3) assms(2,3) state_ranges_first [OF assms(2)] seq_ranges_length by fastforce
  next
    case (Cons r rs1)
    then show ?thesis using rs state_ranges_next [OF assms(2), of "ustate e" "fst r" "snd r" rs1] assms(3)
      by (auto split: if_splits)
  qed
qed

lemma state_ranges_kept:
  assumes "state_ranges st = Some rs" "b < 256" "next_state st b \<noteq> 1"
  shows "\<exists>rs'. state_ranges (next_state st b) = Some rs'"
proof -
  have "st < 9" using assms(1) by (auto simp: state_ranges_def split: if_splits)
  then show ?thesis using next_state_less [OF assms(2)] state_ranges_None assms(3) by (metis option.exhaust)
qed

text \<open>A pass never writes past the end, and fails on a byte only with the strict handler.\<close>

lemma dump_byte_ok:
  assumes "escaper_ok a e"
  shows "(\<exists>again e'. dump_byte h a i c e = Inr (again, e') \<and> escaper_ok a e') \<or>
    h = Strict \<and> dump_byte h a i c e = Inl (Invalid_byte i c)"
proof -
  obtain st cp where d: "decode (ustate e, codepoint e) (byte_of c) = (st, cp)" by fastforce
  then have st: "st = next_state (ustate e) (byte_of c)" using fst_decode [of "ustate e" "codepoint e" "byte_of c"] by simp
  obtain rs where rs: "state_ranges (ustate e) = Some rs" "undumped e + length rs \<le> 4" "rs = [] \<longrightarrow> undumped e = 0"
    using assms by (auto simp: escaper_ok_def)
  have room: "length (sbuf e) \<le> (if a then 499 else 503)" "accepted e \<le> length (sbuf e)" "accepted e \<le> 499"
    "length (sbuf e) \<le> accepted e + (if a then 0 else undumped e)"
    using assms rs by (auto simp: escaper_ok_def split: if_splits)
  note defs = dump_byte_def d Let_def put_def string_buffer_size_def
  consider "st = 0" | "st = 1" | "st \<noteq> 0" "st \<noteq> 1" by blast
  then show ?thesis
  proof cases
    case 1
    then show ?thesis using room(1) escape_code_length [of a cp c] write_buffer_room
      by (auto simp: defs UTF8_ACCEPT_def escaper_ok_def state_ranges_def split: if_splits)
  next
    case 2
    have "length (replacement a) \<le> 6" by (simp add: replacement_def)
    then show ?thesis using 2 room write_buffer_room
      by (auto simp: defs UTF8_ACCEPT_def UTF8_REJECT_def escaper_ok_def state_ranges_def min_absorb2)
  next
    case 3
    then obtain rs' where rs': "state_ranges st = Some rs'" "rs' \<noteq> []"
      using state_ranges_kept [OF rs(1), of "byte_of c"] st state_ranges_Nil by fastforce
    have "undumped e + 1 + length rs' \<le> 4" using escaper_ok_next [OF assms, of "byte_of c"] rs' st by simp
    then show ?thesis using 3 rs' room
      by (auto simp: defs UTF8_ACCEPT_def UTF8_REJECT_def escaper_ok_def)
  qed
qed

lemma dump_loop_ok:
  "escaper_ok a e \<Longrightarrow>
    (\<exists>e'. dump_loop h a i s e = Inr e' \<and> escaper_ok a e') \<or> h = Strict \<and> (\<exists>j c. dump_loop h a i s e = Inl (Invalid_byte j c))"
proof (induction h a i s e rule: dump_loop.induct)
  case (2 h a i c s e)
  show ?case
  proof (cases "h = Strict \<and> dump_byte h a i c e = Inl (Invalid_byte i c)")
    case True
    then show ?thesis by (auto simp: dump_loop.simps(2))
  next
    case False
    then obtain again e' where e': "dump_byte h a i c e = Inr (again, e')" "escaper_ok a e'"
      using dump_byte_ok [OF "2.prems"] by blast
    show ?thesis using "2.IH"(1) [OF e'(1) refl _ e'(2)] "2.IH"(2) [OF e'(1) refl _ e'(2)] e'(1)
      by (cases again) (simp_all add: dump_loop.simps(2) [of h a i c s e])
  qed
qed simp

lemma dump_escaped_total:
  "(\<exists>w. dump_escaped h a s = Inr w) \<or>
    h = Strict \<and> (\<exists>j c. dump_escaped h a s = Inl (Invalid_byte j c) \<or> dump_escaped h a s = Inl (Incomplete c))"
  using dump_loop_ok [OF escaper_ok_init [of a], of h 0 s]
  by (cases h) (auto simp: dump_escaped_def split: if_splits)

section \<open>What the escaping writes\<close>

text \<open>The text of a code point.\<close>

definition escape_cp :: "bool \<Rightarrow> nat \<Rightarrow> string" where
  "escape_cp ensure_ascii cp = (let c = last (utf8_bytes cp) in
     (if escape_code ensure_ascii cp c = [c] then utf8_bytes cp else escape_code ensure_ascii cp c))"

definition clean :: "string \<Rightarrow> escaper \<Rightarrow> bool" where
  "clean w e \<longleftrightarrow> ustate e = 0 \<and> undumped e = 0 \<and> accepted e = length (sbuf e) \<and> length (sbuf e) \<le> 499 \<and>
     sout e @ sbuf e = w"

lemma clean_accept:
  assumes "dump_byte h a i c e = Inr (again, e')" "next_state (ustate e) (byte_of c) = 0"
  shows "\<not> again \<and> clean (sout e @ sbuf e @ escape_code a (snd (decode (ustate e, codepoint e) (byte_of c))) c) e'"
proof -
  obtain cp where d: "decode (ustate e, codepoint e) (byte_of c) = (0, cp)"
    using fst_decode [of "ustate e" "codepoint e" "byte_of c"] assms(2)
    by (cases "decode (ustate e, codepoint e) (byte_of c)") auto
  then obtain e1 where e1: "put (escape_code a cp c) (e\<lparr>ustate := 0, codepoint := cp\<rparr>) = Inr e1" "\<not> again"
    "e' = write_buffer e1\<lparr>accepted := length (sbuf (write_buffer e1)), undumped := 0\<rparr>"
    using assms(1) by (auto simp: dump_byte_def UTF8_ACCEPT_def Let_def split: sum.splits)
  then show ?thesis using d put_frame [OF e1(1)] write_buffer_room [of e1] by (simp add: clean_def)
qed

lemma dump_byte_valid: "next_state (ustate e) (byte_of c) \<noteq> 1 \<Longrightarrow> dump_byte h a i c e \<noteq> Inl (Invalid_byte j c')"
  using fst_decode [of "ustate e" "codepoint e" "byte_of c"]
  by (cases "decode (ustate e, codepoint e) (byte_of c)")
    (simp add: dump_byte_def Let_def put_def UTF8_ACCEPT_def UTF8_REJECT_def)

lemma dump_wait:
  assumes "escaper_ok a e" "next_state (ustate e) (byte_of c) \<notin> {0, 1}"
  obtains e' where "dump_byte h a i c e = Inr (False, e')" "escaper_ok a e'"
    "(ustate e', codepoint e') = decode (ustate e, codepoint e) (byte_of c)"
    "sout e' = sout e" "sbuf e' = sbuf e @ (if a then [] else [c])"
proof -
  obtain st cp where d: "decode (ustate e, codepoint e) (byte_of c) = (st, cp)" by fastforce
  then have "st = next_state (ustate e) (byte_of c)" using fst_decode [of "ustate e" "codepoint e" "byte_of c"] by simp
  then have st: "st \<noteq> 0" "st \<noteq> 1" using assms(2) by auto
  have b: "dump_byte h a i c e \<noteq> Inl (Invalid_byte i c)" 
    using assms(2) dump_byte_valid by auto
  then obtain again e' where e': "dump_byte h a i c e = Inr (again, e')" "escaper_ok a e'"
    using dump_byte_ok [OF assms(1)] by blast
  from e'(1) have "\<exists>e1. put (if a then [] else [c]) (e\<lparr>ustate := st, codepoint := cp\<rparr>) = Inr e1 \<and>
      \<not> again \<and> e' = e1\<lparr>undumped := undumped e1 + 1\<rparr>"
    using st d by (cases "put (if a then [] else [c]) (e\<lparr>ustate := st, codepoint := cp\<rparr>)")
      (auto simp: dump_byte_def Let_def UTF8_ACCEPT_def UTF8_REJECT_def)
  then obtain e1 where e1: "put (if a then [] else [c]) (e\<lparr>ustate := st, codepoint := cp\<rparr>) = Inr e1"
    "\<not> again" "e' = e1\<lparr>undumped := undumped e1 + 1\<rparr>" by blast
  show ?thesis
    using e' e1(2,3) put_frame [OF e1(1)] d by (intro that [of e']) simp_all
qed

text \<open>The bytes of a sequence up to its end.\<close>

lemma dump_sequence:
  assumes "escaper_ok a e" "state_ranges (ustate e) = Some rs" "rs \<noteq> []" "in_ranges rs (map byte_of cs)"
    and "foldl decode (ustate e, codepoint e) (map byte_of cs) = (0, cp)"
  shows "\<exists>e'. dump_loop h a i (cs @ s) e = dump_loop h a (i + length cs) s e' \<and>
    clean (sout e @ sbuf e @ (if a then [] else butlast cs) @ escape_code a cp (last cs)) e'"
  using assms
proof (induction cs arbitrary: e rs i)
  case (Cons c cs)
  let ?st = "next_state (ustate e) (byte_of c)"
  obtain lo hi rs1 where rs: "rs = (lo, hi) # rs1" using Cons.prems(3) by (cases rs) auto
  then have nxt: "state_ranges ?st = Some rs1" "in_ranges rs1 (map byte_of cs)"
    using Cons.prems(2,4) state_ranges_next [of "byte_of c" "ustate e" lo hi rs1] by auto
  show ?case
  proof (cases "cs = []")
    case True
    then have "rs1 = []" using nxt(2) by (simp add: in_ranges_def)
    then have st: "?st = 0" using nxt(1) state_ranges_Nil by simp
    have "dump_byte h a i c e \<noteq> Inl (Invalid_byte i c)"
      using st dump_byte_valid by auto
    then obtain again e' where e': "dump_byte h a i c e = Inr (again, e')"
      using dump_byte_ok [OF Cons.prems(1)] by blast
    then show ?thesis using clean_accept [OF e' st] True Cons.prems(5)
      by (auto simp: dump_loop.simps(2))
  next
    case False
    then have "rs1 \<noteq> []" using nxt(2) by (auto simp: in_ranges_def)
    then have "?st \<notin> {0, 1}" using nxt(1) state_ranges_Nil by (auto simp: state_ranges_def split: if_splits)
    then obtain e' where e': "dump_byte h a i c e = Inr (False, e')" "escaper_ok a e'"
      "(ustate e', codepoint e') = decode (ustate e, codepoint e) (byte_of c)"
      "sout e' = sout e" "sbuf e' = sbuf e @ (if a then [] else [c])"
      using dump_wait [OF Cons.prems(1)] by metis
    have "ustate e' = ?st" using e'(3) fst_decode by (metis fst_conv)
    then obtain e'' where "dump_loop h a (i + 1) (cs @ s) e' = dump_loop h a (i + 1 + length cs) s e''"
      "clean (sout e' @ sbuf e' @ (if a then [] else butlast cs) @ escape_code a cp (last cs)) e''"
      using Cons.IH [OF e'(2) _ \<open>rs1 \<noteq> []\<close> nxt(2), of "i + 1"] nxt(1) Cons.prems(5) e'(3) by auto
    then show ?thesis using e' False by (auto simp: dump_loop.simps(2))
  qed
qed (simp add: in_ranges_def)

lemma clean_ok: "clean w e \<Longrightarrow> escaper_ok a e"
  by (simp add: clean_def escaper_ok_def state_ranges_def)

lemma utf8_bytes_ascii: "cp < 0x80 \<longleftrightarrow> length (utf8_bytes cp) = 1"
  by (simp add: utf8_bytes_def)

lemma escape_code_plain: "0x80 \<le> cp \<Longrightarrow> escape_code False cp c = [c]"
  by (simp add: escape_code_def)

lemma escape_code_ascii: "0x80 \<le> cp \<Longrightarrow> escape_code True cp c \<noteq> [c]"
  by (simp add: escape_code_def write_u_escape_def)

lemma dump_code_point:
  assumes "scalar cp" "clean w e"
  shows "\<exists>e'. dump_loop h a i (utf8_bytes cp @ s) e = dump_loop h a (i + length (utf8_bytes cp)) s e' \<and>
    clean (w @ escape_cp a cp) e'"
proof -
  obtain b bs rs where seq: "map byte_of (utf8_bytes cp) = b # bs" "seq_ranges b = Some rs" "in_ranges rs bs"
    using utf8_bytes_seq [OF assms(1)] by (elim exE conjE)
  then obtain c cs where c: "utf8_bytes cp = c # cs" "b = byte_of c" "bs = map byte_of cs" by auto
  have e: "escaper_ok a e" "ustate e = 0" "sout e @ sbuf e = w" using assms(2) clean_ok by (auto simp: clean_def)
  have run: "foldl decode (0, codepoint e) (b # bs) = (0, cp)" using decode_utf8_bytes [OF assms(1)] seq(1) by metis
  have st: "state_ranges (next_state 0 b) = Some rs" using seq(2) c(2) state_ranges_first by simp
  show ?thesis
  proof (cases "rs = []")
    case True
    then have "next_state 0 b = 0" "cs = []" using st state_ranges_Nil seq(3) c(3) by auto
    moreover have "dump_byte h a i c e \<noteq> Inl (Invalid_byte i c)"
      using calculation(1) c(2) e(2) dump_byte_valid by auto
    then obtain again e' where e': "dump_byte h a i c e = Inr (again, e')" using dump_byte_ok [OF e(1)] by blast
    ultimately show ?thesis using clean_accept [OF e'] e run c
      by (auto simp: dump_loop.simps(2) escape_cp_def)
  next
    case False
    then have "cs \<noteq> []" using seq(3) c(3) by (auto simp: in_ranges_def)
    then have cp: "0x80 \<le> cp" using utf8_bytes_ascii [of cp] c(1) by auto
    have "next_state (ustate e) (byte_of c) \<notin> {0, 1}"
      using st False c(2) e(2) state_ranges_Nil by (auto simp: state_ranges_def split: if_splits)
    then obtain e1 where e1: "dump_byte h a i c e = Inr (False, e1)" "escaper_ok a e1"
      "(ustate e1, codepoint e1) = decode (ustate e, codepoint e) (byte_of c)"
      "sout e1 = sout e" "sbuf e1 = sbuf e @ (if a then [] else [c])"
      using dump_wait [OF e(1)] by metis
    have "ustate e1 = next_state 0 b" using e1(3) fst_decode e(2) c(2) by (metis fst_conv)
    then obtain e2 where e2: "dump_loop h a (i + 1) (cs @ s) e1 = dump_loop h a (i + 1 + length cs) s e2"
      "clean (sout e1 @ sbuf e1 @ (if a then [] else butlast cs) @ escape_code a cp (last cs)) e2"
      using dump_sequence [OF e1(2) _ False, of cs cp h "i + 1" s] st seq(3) run e1(3) c e(2) by auto
    have "sout e1 @ sbuf e1 @ (if a then [] else butlast cs) @ escape_code a cp (last cs) = w @ escape_cp a cp"
      using e1(4,5) e(3) c(1) cp \<open>cs \<noteq> []\<close> escape_code_plain escape_code_ascii by (cases a) (auto simp: escape_cp_def)
    then show ?thesis using e1(1) e2 c(1) by (auto simp: dump_loop.simps(2))
  qed
qed

lemma dump_code_points:
  "list_all scalar cps \<Longrightarrow> clean w e \<Longrightarrow>
    \<exists>e'. dump_loop h a i (concat (map utf8_bytes cps)) e = Inr e' \<and> clean (w @ concat (map (escape_cp a) cps)) e'"
proof (induction cps arbitrary: w e i)
  case (Cons cp cps)
  then obtain e1 where "dump_loop h a i (utf8_bytes cp @ concat (map utf8_bytes cps)) e =
      dump_loop h a (i + length (utf8_bytes cp)) (concat (map utf8_bytes cps)) e1" "clean (w @ escape_cp a cp) e1"
    using dump_code_point by (metis list.pred_inject(2))
  then show ?case using Cons.IH [of "w @ escape_cp a cp" e1] Cons.prems(1) by simp
qed simp

lemma dump_escaped_utf8:
  assumes "list_all scalar cps"
  shows "dump_escaped h a (concat (map utf8_bytes cps)) = Inr (concat (map (escape_cp a) cps))"
proof -
  have "clean [] escaper_init" by (simp add: clean_def escaper_init_def UTF8_ACCEPT_def)
  then show ?thesis using dump_code_points [OF assms, of "[]" escaper_init h a 0]
    by (auto simp: dump_escaped_def clean_def UTF8_ACCEPT_def)
qed

lemma strict_state:
  "dump_loop h a i s e = Inr e' \<Longrightarrow> h = Strict \<Longrightarrow> ustate e' = foldl next_state (ustate e) (map byte_of s)"
proof (induction h a i s e rule: dump_loop.induct)
  case (2 h a i c s e)
  have "\<not> again \<and> ustate e1 = next_state (ustate e) (byte_of c)" if "dump_byte h a i c e = Inr (again, e1)" for again e1
    using that 2(4) fst_decode [of "ustate e" "codepoint e" "byte_of c"]
    by (auto simp: dump_byte_def Let_def split: sum.splits prod.splits if_splits dest!: put_frame)
  moreover obtain again e1 where e1: "dump_byte h a i c e = Inr (again, e1)"
    using 2(3) by (cases "dump_byte h a i c e") (auto simp: dump_loop.simps(2) [of h a i c s e])
  ultimately have "\<not> again" "ustate e1 = next_state (ustate e) (byte_of c)" by auto
  then show ?case using 2(2) [OF e1 refl] 2(3,4) e1 by (simp add: dump_loop.simps(2) [of Strict a i c s e])
qed simp

lemma dump_escaped_strict: "(\<exists>w. dump_escaped Strict a s = Inr w) \<longleftrightarrow> utf8 s"
proof
  assume "\<exists>w. dump_escaped Strict a s = Inr w"
  then obtain e where "dump_loop Strict a 0 s escaper_init = Inr e" "ustate e = 0"
    by (auto simp: dump_escaped_def UTF8_ACCEPT_def split: sum.splits if_splits)
  then show "utf8 s" using strict_state by (fastforce simp: utf8_code escaper_init_def UTF8_ACCEPT_def)
next
  assume "utf8 s"
  then show "\<exists>w. dump_escaped Strict a s = Inr w" using dump_escaped_utf8 by (auto simp: utf8_def)
qed

section \<open>Reading an escaped string\<close>

lemma hex_value_nibble:
  assumes "n < 16"
  shows "hex_value (nibble_to_hex n) = Some n"
proof -
  have "n \<in> {0, 1, 2, 3, 4, 5, 6, 7, 8, 9, 10, 11, 12, 13, 14, 15}" using assms by (simp, presburger)
  then show ?thesis by (auto simp: nibble_to_hex_def hex_value_def)
qed

lemma nibble_mask: "(n :: nat) AND 0x0F = n mod 16"
  using take_bit_eq_mask [of 4 n] by (simp add: take_bit_eq_mod mask_eq_exp_minus_1)

lemma get_codepoint_u_escape:
  assumes "u < 2 ^ 16"
  shows "\<exists>h. write_u_escape u = backslash # CHR ''u'' # h \<and> (\<forall>s. get_codepoint (h @ s) = Some (u, s))"
proof -
  have "4096 * (u div 4096) + 256 * (u div 256 mod 16) + 16 * (u div 16 mod 16) + u mod 16 = u"
    "u div 4096 mod 16 = u div 4096" "u div 4096 < 16"
  proof -
    define p q r where "p = u div 16" and "q = p div 16" and "r = q div 16"
    have e: "u div 256 = q" "u div 4096 = r" by (simp_all add: p_def q_def r_def div_mult2_eq [symmetric])
    have r: "r < 16" using assms by (simp add: p_def q_def r_def div_mult2_eq [symmetric] div_less_iff_less_mult)
    have "u = 16 * p + u mod 16" "p = 16 * q + p mod 16" "q = 16 * r + q mod 16"
      by (simp_all add: p_def q_def r_def)
    then have "u = 4096 * r + 256 * (q mod 16) + 16 * (p mod 16) + u mod 16" by linarith
    then show "4096 * (u div 4096) + 256 * (u div 256 mod 16) + 16 * (u div 16 mod 16) + u mod 16 = u"
      unfolding e p_def [symmetric] by simp
    show "u div 4096 mod 16 = u div 4096" "u div 4096 < 16" unfolding e using r by simp_all
  qed
  then have "get_codepoint (drop 2 (write_u_escape u) @ s) = Some (u, s)" for s
    by (simp add: write_u_escape_def get_codepoint_hex4 hex4_def nibble_mask hex_value_nibble drop_bit_eq_div)
  then show ?thesis by (intro exI [of _ "drop 2 (write_u_escape u)"]) (simp add: write_u_escape_def)
qed

lemma scan_string_unicode: "scan_string buf (backslash # CHR ''u'' # s) =
   (case scan_unicode s of Inl msg \<Rightarrow> (Parse_error msg, []) | Inr (bs, s') \<Rightarrow> scan_string (buf @ bs) s')"
  by (simp add: scan_escape_def) (simp add: quote_def backslash_def)

lemma scan_u_escape:
  assumes "u < 0xD800 \<or> 0xE000 \<le> u \<and> u < 2 ^ 16"
  shows "scan_string buf (write_u_escape u @ s) = scan_string (buf @ utf8_bytes u) s"
proof -
  obtain h where "write_u_escape u = backslash # CHR ''u'' # h" "\<forall>s. get_codepoint (h @ s) = Some (u, s)"
    using get_codepoint_u_escape [of u] assms by auto
  then show ?thesis using assms by (auto simp: scan_string_unicode scan_unicode_def simp del: scan_string.simps)
qed

lemma scan_surrogates:
  assumes "0xFFFF < cp" "cp \<le> 0x10FFFF"
  shows "scan_string buf (write_u_escape ((0xD7C0 + drop_bit 10 cp) mod 2 ^ 16) @
      write_u_escape ((0xDC00 + (cp AND 0x3FF)) mod 2 ^ 16) @ s) = scan_string (buf @ utf8_bytes cp) s"
proof -
  define hi lo where "hi = 0xD7C0 + cp div 1024" and "lo = 0xDC00 + cp mod 1024"
  have b: "64 \<le> cp div 1024" "cp div 1024 \<le> 1087" "cp mod 1024 < 1024"
    using assms by (simp_all add: div_le_mono less_eq_div_iff_mult_less_eq div_less_iff_less_mult less_Suc_eq_le [symmetric])
  then have r: "0xD800 \<le> hi" "hi \<le> 0xDBFF" "0xDC00 \<le> lo" "lo \<le> 0xDFFF" by (simp_all add: hi_def lo_def)
  have m: "(0xD7C0 + drop_bit 10 cp) mod 2 ^ 16 = hi" "(0xDC00 + (cp AND 0x3FF)) mod 2 ^ 16 = lo"
    using b r take_bit_eq_mask [of 10 cp] by (simp_all add: hi_def lo_def drop_bit_eq_div take_bit_eq_mod mask_eq_exp_minus_1)
  have "cp div 1024 * 1024 + cp mod 1024 = cp" by simp
  then have cp: "push_bit 10 hi + lo - 0x35FDC00 = cp" by (simp add: hi_def lo_def push_bit_eq_mult)
  obtain h where h: "write_u_escape hi = backslash # CHR ''u'' # h" "\<forall>s. get_codepoint (h @ s) = Some (hi, s)"
    using get_codepoint_u_escape [of hi] r by auto
  obtain l where l: "write_u_escape lo = backslash # CHR ''u'' # l" "\<forall>s. get_codepoint (l @ s) = Some (lo, s)"
    using get_codepoint_u_escape [of lo] r by auto
  show ?thesis unfolding m using r cp
    by (simp add: h l scan_string_unicode scan_unicode_def del: scan_string.simps)
qed

lemma scan_plain:
  assumes "scalar cp" "0x20 \<le> cp" "cp \<noteq> 0x22" "cp \<noteq> 0x5C"
  shows "scan_string buf (utf8_bytes cp @ s) = scan_string (buf @ utf8_bytes cp) s"
proof -
  obtain b bs rs where seq: "map byte_of (utf8_bytes cp) = b # bs" "seq_ranges b = Some rs" "in_ranges rs bs"
    using utf8_bytes_seq [OF assms(1)] by (elim exE conjE)
  then obtain c cs where c: "utf8_bytes cp = c # cs" "b = byte_of c" "bs = map byte_of cs" by auto
  have single: "b < 0x80 \<Longrightarrow> cp = b"
  proof -
    assume "b < 0x80"
    then have "rs = []" using seq(2) by (auto simp: seq_ranges_def lead_ranges_def split: if_splits)
    then have "length (utf8_bytes cp) = 1" using seq(3) c by simp
    then have "cp < 0x80" by (simp add: utf8_bytes_ascii)
    then have "utf8_bytes cp = [char_of cp]" by (simp add: utf8_bytes_def)
    then show ?thesis using c \<open>cp < 0x80\<close> by (auto simp: of_char_of)
  qed
  have b: "b \<noteq> 0x22" "b \<noteq> 0x5C" "\<not> b < 0x20" using single assms by auto
  then have "c \<noteq> quote" "c \<noteq> backslash" using c(2) by (auto simp: quote_def backslash_def)
  moreover have "lead_ranges (byte_of c) = Some rs" using seq(2) b(3) c(2) by (simp add: seq_ranges_def)
  moreover have "next_byte_in_range rs (buf @ [c]) (cs @ s) = Some (buf @ c # cs, s)"
    using seq(3) c(3) by (auto simp: next_byte_in_range_Some)
  ultimately show ?thesis using b(3) c by simp
qed

lemma scan_escape_cp:
  assumes "scalar cp"
  shows "scan_string buf (escape_cp a cp @ s) = scan_string (buf @ utf8_bytes cp) s"
proof -
  have ascii: "utf8_bytes n = [char_of n]" if "n < 0x80" for n using that by (simp add: utf8_bytes_def)
  define short esc where "short \<longleftrightarrow> cp \<in> {0x08, 0x09, 0x0A, 0x0C, 0x0D, 0x22, 0x5C}" and "esc \<longleftrightarrow> cp \<le> 0x1F \<or> a \<and> 0x7F \<le> cp"
  consider "short" | "\<not> short" "esc" "cp \<le> 0xFFFF" | "\<not> short" "esc" "0xFFFF < cp" | "\<not> short" "\<not> esc"
    by (cases short; cases esc; cases "cp \<le> 0xFFFF") simp_all
  then show ?thesis
  proof cases
    case 1
    then have "cp \<in> {0x08, 0x09, 0x0A, 0x0C, 0x0D, 0x22, 0x5C}" by (simp add: short_def)
    then consider "cp = 0x08" | "cp = 0x09" | "cp = 0x0A" | "cp = 0x0C" | "cp = 0x0D" | "cp = 0x22" | "cp = 0x5C" by auto
    then show ?thesis
      by cases (simp_all add: escape_cp_def escape_code_def Let_def ascii scan_escape_def quote_def backslash_def char_of_def bit_0)
  next
    case 2
    then have "escape_cp a cp = write_u_escape cp"
      by (simp add: escape_cp_def escape_code_def Let_def write_u_escape_def short_def esc_def)
    then show ?thesis using scan_u_escape [of cp buf s] 2(3) assms by (auto simp: scalar_def)
  next
    case 3
    then have "escape_cp a cp = write_u_escape ((0xD7C0 + drop_bit 10 cp) mod 2 ^ 16) @ write_u_escape ((0xDC00 + (cp AND 0x3FF)) mod 2 ^ 16)"
      by (simp add: escape_cp_def escape_code_def Let_def write_u_escape_def short_def esc_def)
    then show ?thesis using scan_surrogates [OF 3(3), of buf s] 3(3) assms by (auto simp: scalar_def simp del: scan_string.simps)
  next
    case 4
    then have "escape_cp a cp = utf8_bytes cp" by (auto simp: escape_cp_def escape_code_def Let_def short_def esc_def)
    then show ?thesis using scan_plain [OF assms, of buf s] 4 by (simp add: short_def esc_def del: scan_string.simps)
  qed
qed

lemma scan_escaped_cps:
  "list_all scalar cps \<Longrightarrow> scan_string buf (concat (map (escape_cp a) cps) @ quote # s) =
     (Value_string (buf @ concat (map utf8_bytes cps)), s)"
proof (induction cps arbitrary: buf)
  case (Cons cp cps)
  then show ?case using scan_escape_cp [of cp buf a] by (simp del: scan_string.simps)
qed simp

text \<open>An escaped string between quotes is one token, the string itself.\<close>

lemma scan_dump_escaped:
  assumes "dump_escaped Strict a v = Inr w"
  shows "scan ic (quote # w @ quote # s) = (Value_string v, s)"
proof -
  have "utf8 v" using assms dump_escaped_strict by blast
  then obtain cps where v: "list_all scalar cps" "v = concat (map utf8_bytes cps)" by (auto simp: utf8_def)
  then have "w = concat (map (escape_cp a) cps)" using assms dump_escaped_utf8 [OF v(1), of Strict a] by simp
  then have "scan_string [] (w @ quote # s) = (Value_string v, s)" using scan_escaped_cps [OF v(1)] v(2) by simp
  then show ?thesis using scan_no_ws [of quote ic] by (simp add: scan_current_def quote_def json_ws_def)
qed


text \<open>
  C21. Escaping is memory safe and total: for any bytes and either setting of \<open>ensure_ascii\<close>, no
  write leaves the 512-byte buffer; the handlers that ignore or replace malformed text always
  produce an output, and the strict one (the default) throws exactly on text that is not UTF-8.
\<close>

theorem escape_buffer_safe:
  "(\<exists>w. dump_escaped Ignore a s = Inr w) \<and> (\<exists>w. dump_escaped Replace a s = Inr w) \<and>
   dump_escaped Strict a s \<noteq> Inl Out_of_buffer \<and> ((\<exists>w. dump_escaped Strict a s = Inr w) \<longleftrightarrow> utf8 s)"
  using dump_escaped_total [of Ignore a s] dump_escaped_total [of Replace a s] dump_escaped_total [of Strict a s]
    dump_escaped_strict [of a s] by auto

end
