(* ===== verification/JsonWriter.thy ===== *)
theory JsonWriter
  imports JsonEscape
begin

text \<open>
  The serializer of the JSON library (class \<open>serializer\<close> of module-spoof/jni/include/json.hpp):
  integers through the 64-byte \<open>number_buffer\<close>, and \<open>dump\<close> with its two layouts. What \<open>dump\<close>
  writes is read back by the parser as the same value; \<open>dump\<close> fails exactly when a string of
  the value is not UTF-8. The text of floating-point numbers is a parameter.
\<close>

section \<open>Integers\<close>

text \<open>\<open>count_digits\<close>; \<open>n\<close> is \<open>n_digits\<close>.\<close>

function count_digits :: "nat \<Rightarrow> nat \<Rightarrow> nat" where
  "count_digits n x =
    (if x < 10 then n else if x < 100 then n + 1 else if x < 1000 then n + 2 else if x < 10000 then n + 3
     else count_digits (n + 4) (x div 10000))"
  by pat_completeness auto
termination
  by (relation "measure snd") auto

declare count_digits.simps [simp del]

text \<open>Entry \<open>d\<close> of the table \<open>digits_to_99\<close>.\<close>

definition digits_to_99 :: "nat \<Rightarrow> char \<times> char" where
  "digits_to_99 d = (digit (d div 10), digit (d mod 10))"

definition remove_sign :: "int \<Rightarrow> nat" where
  "remove_sign x = nat (- (x + 1)) + 1"

text \<open>
  The digits are written backwards from \<open>buffer_ptr\<close>; None when the pointer leaves the
  64-byte \<open>number_buffer\<close>.
\<close>

definition poke :: "nat \<Rightarrow> char \<Rightarrow> string \<Rightarrow> string option" where
  "poke p c buf = (if p < length buf then Some (buf[p := c]) else None)"

definition poke2 :: "nat \<Rightarrow> nat \<Rightarrow> string \<Rightarrow> string option" where
  "poke2 p d buf = (if p < 2 then None
    else Option.bind (poke (p - 1) (snd (digits_to_99 d)) buf) (poke (p - 2) (fst (digits_to_99 d))))"

function write_digits :: "nat \<Rightarrow> nat \<Rightarrow> string \<Rightarrow> string option" where
  "write_digits v p buf =
    (if 100 \<le> v then Option.bind (poke2 p (v mod 100) buf) (write_digits (v div 100) (p - 2))
     else if 10 \<le> v then poke2 p v buf
     else if p < 1 then None else poke (p - 1) (digit v) buf)"
  by pat_completeness auto
termination
  by (relation "measure fst") auto

declare write_digits.simps [simp del]

definition number_buffer :: string where
  "number_buffer = replicate 64 (CHR 0x00)"

definition dump_integer :: "int \<Rightarrow> string option" where
  "dump_integer x =
    (if x = 0 then Some ''0''
     else
       let abs_value = (if x < 0 then remove_sign x else nat x);
           n_chars = (if x < 0 then 1 else 0) + count_digits 1 abs_value
       in if n_chars < length number_buffer - 1 then
            Option.bind (if x < 0 then poke 0 (CHR ''-'') number_buffer else Some number_buffer)
              (\<lambda>buf. map_option (take n_chars) (write_digits abs_value n_chars buf))
          else None)"

lemma dec_small: "n < 10 \<Longrightarrow> dec n = [digit n]"
  by (simp add: dec.simps)

lemma dec_snoc: "10 \<le> n \<Longrightarrow> dec n = dec (n div 10) @ [digit (n mod 10)]"
  by (simp add: dec.simps [of n])

lemma count_digits_dec: "count_digits n x = n + (length (dec x) - 1)"
proof (induction n x rule: count_digits.induct)
  case (1 n x)
  note d = dec_small dec_snoc
  have e: "x div 10 div 10 = x div 100" "x div 10 div 10 div 10 = x div 1000" "x div 1000 div 10 = x div 10000"
    by (simp_all add: div_mult2_eq [symmetric])
  consider "x < 10" | "10 \<le> x" "x < 100" | "100 \<le> x" "x < 1000" | "1000 \<le> x" "x < 10000" | "10000 \<le> x" by linarith
  then show ?case
  proof cases
    case 5
    have "dec x = dec (x div 10000) @ [digit (x div 1000 mod 10), digit (x div 100 mod 10), digit (x div 10 mod 10), digit (x mod 10)]"
      using 5 d(2) [of x] d(2) [of "x div 10"] d(2) [of "x div 100"] d(2) [of "x div 1000"]
      by (simp add: div_mult2_eq [symmetric])
    moreover have "dec (x div 10000) \<noteq> []" using dec_hd by blast
    ultimately show ?thesis using 1 5 by (simp add: count_digits.simps [of n x])
  next
    case 4
    then show ?thesis using d(2) [of x] d(2) [of "x div 10"] d(2) [of "x div 100"] d(1) [of "x div 1000"]
      by (simp add: count_digits.simps div_mult2_eq [symmetric])
  next
    case 3
    then show ?thesis using d(2) [of x] d(2) [of "x div 10"] d(1) [of "x div 100"]
      by (simp add: count_digits.simps div_mult2_eq [symmetric])
  next
    case 2
    then show ?thesis using d(2) [of x] d(1) [of "x div 10"] by (simp add: count_digits.simps)
  qed (simp add: count_digits.simps d(1))
qed

lemma dec_length: "x < 10 ^ k \<Longrightarrow> 0 < k \<Longrightarrow> length (dec x) \<le> k"
proof (induction k arbitrary: x)
  case (Suc k)
  show ?case
  proof (cases "x < 10")
    case False
    then have "0 < k" using Suc.prems(1) by (cases k) auto
    moreover have "x div 10 < 10 ^ k" using Suc.prems(1) by (simp add: div_less_iff_less_mult mult.commute)
    ultimately show ?thesis using Suc.IH [of "x div 10"] False by (simp add: dec_snoc)
  qed (simp add: dec_small)
qed simp

lemma poke2_eq:
  assumes "2 \<le> p" "p \<le> length buf"
  shows "poke2 p d buf = Some (take (p - 2) buf @ [digit (d div 10), digit (d mod 10)] @ drop p buf)"
proof -
  have "buf[p - 1 := y, p - 2 := z] = take (p - 2) buf @ [z, y] @ drop p buf" for y z
  proof (rule nth_equalityI)
    fix i assume "i < length (buf[p - 1 := y, p - 2 := z])"
    then show "buf[p - 1 := y, p - 2 := z] ! i = (take (p - 2) buf @ [z, y] @ drop p buf) ! i"
      using assms by (cases "i < p - 2"; cases "i = p - 2"; cases "i = p - 1") (auto simp: nth_append nth_Cons')
  qed (use assms in simp)
  moreover have "p - 1 < length buf" "p - 2 < length buf" using assms by linarith+
  ultimately show ?thesis using assms(1) by (simp add: poke2_def poke_def digits_to_99_def)
qed

lemma write_digits_eq:
  "length (dec v) \<le> p \<Longrightarrow> p \<le> length buf \<Longrightarrow>
    write_digits v p buf = Some (take (p - length (dec v)) buf @ dec v @ drop p buf)"
proof (induction v p buf rule: write_digits.induct)
  case (1 v p buf)
  consider "v < 10" | "10 \<le> v" "v < 100" | "100 \<le> v" by linarith
  then show ?case
  proof cases
    case 1
    then show ?thesis using "1.prems" upd_conv_take_nth_drop [of "p - 1" buf]
      by (simp add: write_digits.simps dec_small poke_def)
  next
    case 2
    then show ?thesis using "1.prems" poke2_eq [of p buf v] by (simp add: write_digits.simps dec_snoc dec_small numeral_2_eq_2)
  next
    case 3
    have v: "dec v = dec (v div 100) @ [digit (v mod 100 div 10), digit (v mod 100 mod 10)]"
    proof -
      have "v mod 100 div 10 = v div 10 mod 10" "v mod 100 mod 10 = v mod 10"
        by (simp_all add: mod_mult2_eq [of v 10 10, simplified] mod_mod_cancel)
      then show ?thesis using 3 dec_snoc [of v] dec_snoc [of "v div 10"] by (simp add: div_mult2_eq [symmetric])
    qed
    let ?b = "take (p - 2) buf @ [digit (v mod 100 div 10), digit (v mod 100 mod 10)] @ drop p buf"
    have p: "2 \<le> p" using "1.prems" v by simp
    have "poke2 p (v mod 100) buf = Some ?b" using poke2_eq p "1.prems"(2) by blast
    moreover have "write_digits (v div 100) (p - 2) ?b = Some (take (p - 2 - length (dec (v div 100))) ?b @ dec (v div 100) @ drop (p - 2) ?b)"
      using "1.IH" [OF 3 calculation] "1.prems" v p by simp
    ultimately show ?thesis using 3 "1.prems" v p by (simp add: write_digits.simps [of v] min_absorb2)
  qed
qed

lemma dump_integer_dec:
  assumes "- (2 ^ 63) \<le> x" "x < 2 ^ 64"
  shows "dump_integer x = Some (dec_int x)"
proof -
  define v where "v = (if x < 0 then remove_sign x else nat x)"
  have v: "dec v = (if x < 0 then dec (nat (- x)) else dec (nat x))" by (simp add: v_def remove_sign_def algebra_simps nat_diff_distrib' Suc_nat_eq_nat_zadd1)
  have "v < 2 ^ 64" using assms by (auto simp: v_def remove_sign_def)
  then have "v < 10 ^ 20" by (rule less_trans) simp
  then have len: "length (dec v) \<le> 20" by (rule dec_length) simp
  have "count_digits 1 v = length (dec v)" using dec_hd [of v] count_digits_dec [of 1 v] by (cases "dec v") auto
  then have n: "(if x < 0 then 1 else 0) + count_digits 1 v = length (dec_int x)" using v by (simp add: dec_int_def)
  consider "x = 0" | "x < 0" | "0 < x" by linarith
  then show ?thesis
  proof cases
    case 1
    then show ?thesis by (simp add: dump_integer_def dec_int_def dec_small digit_def char_of_def bit_0)
  next
    case 2
    have vx: "remove_sign x = v" using 2 by (simp add: v_def)
    have d: "dec_int x = CHR ''-'' # dec v" using 2 v by (simp add: dec_int_def)
    have "write_digits v (1 + length (dec v)) (number_buffer[0 := CHR ''-'']) =
        Some (take 1 (number_buffer[0 := CHR ''-'']) @ dec v @ drop (1 + length (dec v)) (number_buffer[0 := CHR ''-'']))"
      using write_digits_eq [of v "1 + length (dec v)" "number_buffer[0 := CHR ''-'']"] len by (simp add: number_buffer_def)
    moreover have "take 1 (number_buffer[0 := CHR ''-'']) = ''-''" by (simp add: number_buffer_def numeral_eq_Suc)
    ultimately show ?thesis using 2 len n d by (simp add: dump_integer_def vx number_buffer_def poke_def)
  next
    case 3
    have vx: "nat x = v" using 3 by (simp add: v_def)
    have d: "dec_int x = dec v" using 3 v by (simp add: dec_int_def)
    have "write_digits v (length (dec v)) number_buffer = Some (dec v @ drop (length (dec v)) number_buffer)"
      using write_digits_eq [of v "length (dec v)" number_buffer] len by (simp add: number_buffer_def)
    then show ?thesis using 3 len n d by (simp add: dump_integer_def vx number_buffer_def)
  qed
qed

section \<open>Values\<close>

text \<open>
  The serializer: the output so far and the string that indentation is copied from, which is
  doubled (with blanks) when it is too short for the next level.
\<close>

record serializer =
  sink :: string
  indent_string :: string

definition emit :: "string \<Rightarrow> serializer \<Rightarrow> serializer" where
  "emit w z = z\<lparr>sink := sink z @ w\<rparr>"

definition emit_indent :: "nat \<Rightarrow> serializer \<Rightarrow> dump_exn + serializer" where
  "emit_indent n z = (if n \<le> length (indent_string z) then Inr (emit (take n (indent_string z)) z) else Inl Out_of_buffer)"

definition grow_indent :: "nat \<Rightarrow> serializer \<Rightarrow> serializer" where
  "grow_indent n z = (if length (indent_string z) < n
     then z\<lparr>indent_string := indent_string z @ replicate (length (indent_string z)) (CHR '' '')\<rparr> else z)"

definition and_then :: "'e + 'a \<Rightarrow> ('a \<Rightarrow> 'e + 'b) \<Rightarrow> 'e + 'b" where
  "and_then r f = (case r of Inl x \<Rightarrow> Inl x | Inr y \<Rightarrow> f y)"

lemma and_then_Inr [simp]: "and_then r f = Inr y \<longleftrightarrow> (\<exists>x. r = Inr x \<and> f x = Inr y)"
  by (auto simp: and_then_def split: sum.splits)

definition emit_escaped :: "error_handler_t \<Rightarrow> bool \<Rightarrow> string \<Rightarrow> serializer \<Rightarrow> dump_exn + serializer" where
  "emit_escaped h ensure_ascii v z = and_then (dump_escaped h ensure_ascii v) (\<lambda>w. Inr (emit w z))"

definition emit_integer :: "int \<Rightarrow> serializer \<Rightarrow> dump_exn + serializer" where
  "emit_integer i z = (case dump_integer i of None \<Rightarrow> Inl Out_of_buffer | Some w \<Rightarrow> Inr (emit w z))"

definition open_level :: "bool \<Rightarrow> char \<Rightarrow> nat \<Rightarrow> serializer \<Rightarrow> serializer" where
  "open_level pretty_print c new_indent z =
    (if pretty_print then grow_indent new_indent (emit [c, CHR 0x0A] z) else emit [c] z)"

definition close_level :: "bool \<Rightarrow> char \<Rightarrow> nat \<Rightarrow> serializer \<Rightarrow> dump_exn + serializer" where
  "close_level pretty_print c current_indent z =
    (if pretty_print then and_then (emit_indent current_indent (emit [CHR 0x0A] z)) (\<lambda>z. Inr (emit [c] z)) else Inr (emit [c] z))"

text \<open>
  \<open>dump(val, pretty_print, ensure_ascii, indent_step, current_indent)\<close>; the last element of a
  container is written without a separator. \<open>fl\<close> is \<open>dump_float\<close>.
\<close>

fun dump_val :: "(string \<Rightarrow> string) \<Rightarrow> error_handler_t \<Rightarrow> bool \<Rightarrow> bool \<Rightarrow> nat \<Rightarrow> nat \<Rightarrow> json \<Rightarrow> serializer \<Rightarrow> dump_exn + serializer"
  and dump_elements :: "(string \<Rightarrow> string) \<Rightarrow> error_handler_t \<Rightarrow> bool \<Rightarrow> bool \<Rightarrow> nat \<Rightarrow> nat \<Rightarrow> json list \<Rightarrow> serializer \<Rightarrow> dump_exn + serializer"
  and dump_members :: "(string \<Rightarrow> string) \<Rightarrow> error_handler_t \<Rightarrow> bool \<Rightarrow> bool \<Rightarrow> nat \<Rightarrow> nat \<Rightarrow> (string \<times> json) list \<Rightarrow> serializer \<Rightarrow> dump_exn + serializer" where
  "dump_val fl h pp a step cur (JObject ob) z =
    (if ob = [] then Inr (emit ''{}'' z)
     else and_then (dump_members fl h pp a step ((cur + step) mod 2 ^ 32) ob (open_level pp (CHR ''{'') ((cur + step) mod 2 ^ 32) z))
            (close_level pp (CHR ''}'') cur))"
| "dump_val fl h pp a step cur (JArray xs) z =
    (if xs = [] then Inr (emit ''[]'' z)
     else and_then (dump_elements fl h pp a step ((cur + step) mod 2 ^ 32) xs (open_level pp (CHR ''['') ((cur + step) mod 2 ^ 32) z))
            (close_level pp (CHR '']'') cur))"
| "dump_val fl h pp a step cur (JString v) z =
    and_then (emit_escaped h a v (emit [quote] z)) (\<lambda>z. Inr (emit [quote] z))"
| "dump_val fl h pp a step cur (JBool b) z = Inr (emit (if b then ''true'' else ''false'') z)"
| "dump_val fl h pp a step cur (JInt i) z = emit_integer i z"
| "dump_val fl h pp a step cur (JFloat f) z = Inr (emit (fl f) z)"
| "dump_val fl h pp a step cur JNull z = Inr (emit ''null'' z)"
| "dump_elements fl h pp a step ind [] z = Inr z"
| "dump_elements fl h pp a step ind (x # xs) z =
    and_then (if pp then emit_indent ind z else Inr z) (\<lambda>z.
    and_then (dump_val fl h pp a step ind x z) (\<lambda>z.
      if xs = [] then Inr z
      else dump_elements fl h pp a step ind xs (emit (if pp then [CHR '','', CHR 0x0A] else '','') z)))"
| "dump_members fl h pp a step ind [] z = Inr z"
| "dump_members fl h pp a step ind (kv # ob) z =
    and_then (if pp then emit_indent ind z else Inr z) (\<lambda>z.
    and_then (emit_escaped h a (fst kv) (emit [quote] z)) (\<lambda>z.
    and_then (dump_val fl h pp a step ind (snd kv) (emit (if pp then [quote, CHR '':'', CHR '' ''] else [quote, CHR '':'']) z)) (\<lambda>z.
      if ob = [] then Inr z
      else dump_members fl h pp a step ind ob (emit (if pp then [CHR '','', CHR 0x0A] else '','') z))))"

text \<open>\<open>basic_json::dump(indent, indent_char, ensure_ascii, error_handler)\<close>; None is the indent -1.\<close>

definition json_dump_with :: "(string \<Rightarrow> string) \<Rightarrow> nat option \<Rightarrow> char \<Rightarrow> bool \<Rightarrow> error_handler_t \<Rightarrow> json \<Rightarrow> dump_exn + string" where
  "json_dump_with fl indent indent_char a h v =
    (let z = \<lparr>sink = [], indent_string = replicate 512 indent_char\<rparr>
     in case (case indent of Some n \<Rightarrow> dump_val fl h True a n 0 v z | None \<Rightarrow> dump_val fl h False a 0 0 v z) of
          Inl x \<Rightarrow> Inl x
        | Inr z' \<Rightarrow> Inr (sink z'))"

definition json_dump :: "(string \<Rightarrow> string) \<Rightarrow> json \<Rightarrow> dump_exn + string" where
  "json_dump fl v = json_dump_with fl None (CHR '' '') False Strict v"

section \<open>Every well-formed value can be written\<close>

text \<open>With an indentation step of at most 512 the doubled string is always long enough.\<close>

lemma indent_frame [simp]:
  "indent_string (emit w z) = indent_string z" "sink (emit w z) = sink z @ w"
  "sink (grow_indent n z) = sink z" "length (indent_string z) \<le> length (indent_string (grow_indent n z))"
  by (simp_all add: emit_def grow_indent_def)

lemma emit_indent_ok: "n \<le> length (indent_string z) \<Longrightarrow> emit_indent n z = Inr (emit (take n (indent_string z)) z)"
  by (simp add: emit_indent_def)

lemma emit_escaped_ok: "utf8 v \<Longrightarrow> \<exists>w. emit_escaped Strict a v z = Inr (emit w z)"
  using dump_escaped_strict [of a v] by (auto simp: emit_escaped_def and_then_def)

lemma open_level_indent:
  "length (indent_string z) \<le> length (indent_string (open_level pp c n z))"
  "pp \<Longrightarrow> n \<le> 2 * length (indent_string z) \<Longrightarrow> n \<le> length (indent_string (open_level pp c n z))"
  by (auto simp: open_level_def grow_indent_def emit_def)

lemma close_level_ok:
  "(pp \<longrightarrow> n \<le> length (indent_string z)) \<Longrightarrow> \<exists>z'. close_level pp c n z = Inr z' \<and> indent_string z' = indent_string z"
  by (auto simp: close_level_def emit_indent_def)

definition roomy :: "bool \<Rightarrow> nat \<Rightarrow> nat \<Rightarrow> serializer \<Rightarrow> bool" where
  "roomy pp step n z \<longleftrightarrow> 512 \<le> length (indent_string z) \<and> (pp \<longrightarrow> step \<le> 512 \<and> n \<le> length (indent_string z))"

lemma roomy_open:
  assumes "roomy pp step cur z"
  shows "roomy pp step ((cur + step) mod 2 ^ 32) (open_level pp c ((cur + step) mod 2 ^ 32) z)"
proof -
  have "(cur + step) mod 2 ^ 32 \<le> 2 * length (indent_string z)" if pp
  proof (rule order_trans [OF mod_less_eq_dividend])
    show "cur + step \<le> 2 * length (indent_string z)" using assms that by (simp add: roomy_def)
  qed
  then show ?thesis using assms open_level_indent(1) [of z pp c "(cur + step) mod 2 ^ 32"]
      open_level_indent(2) [of pp "(cur + step) mod 2 ^ 32" z c] by (auto simp: roomy_def)
qed

lemma roomy_mono: "roomy pp step n z \<Longrightarrow> length (indent_string z) \<le> length (indent_string z') \<Longrightarrow> roomy pp step n z'"
  by (auto simp: roomy_def)

lemma dump_succeeds:
  "json_ok v \<Longrightarrow> h = Strict \<Longrightarrow> roomy pp step cur z \<Longrightarrow>
     \<exists>z'. dump_val fl h pp a step cur v z = Inr z' \<and> length (indent_string z) \<le> length (indent_string z')"
  "\<forall>x\<in>set xs. json_ok x \<Longrightarrow> h = Strict \<Longrightarrow> roomy pp step cur z \<Longrightarrow>
     \<exists>z'. dump_elements fl h pp a step cur xs z = Inr z' \<and> length (indent_string z) \<le> length (indent_string z')"
  "\<forall>kv\<in>set ob. utf8 (fst kv) \<and> json_ok (snd kv) \<Longrightarrow> h = Strict \<Longrightarrow> roomy pp step cur z \<Longrightarrow>
     \<exists>z'. dump_members fl h pp a step cur ob z = Inr z' \<and> length (indent_string z) \<le> length (indent_string z')"
proof (induction fl h pp a step cur v z and fl h pp a step cur xs z and fl h pp a step cur ob z
    rule: dump_val_dump_elements_dump_members.induct)
  case (1 fl h pp a step cur ob z)
  show ?case
  proof (cases "ob = []")
    case False
    let ?n = "(cur + step) mod 2 ^ 32"
    obtain z1 where z1: "dump_members fl h pp a step ?n ob (open_level pp (CHR ''{'') ?n z) = Inr z1"
      "length (indent_string (open_level pp (CHR ''{'') ?n z)) \<le> length (indent_string z1)"
      using 1(1) [OF False _ 1(3)] 1(2) roomy_open [OF 1(4)] by auto
    moreover have "pp \<longrightarrow> cur \<le> length (indent_string z1)"
      using 1(4) open_level_indent(1) [of z pp "CHR ''{''" ?n] z1(2) by (auto simp: roomy_def)
    ultimately show ?thesis
      using close_level_ok [of pp cur z1 "CHR ''}''"] open_level_indent(1) [of z pp "CHR ''{''" ?n] False
      by (auto simp: and_then_def)
  qed simp
next
  case (2 fl h pp a step cur xs z)
  show ?case
  proof (cases "xs = []")
    case False
    let ?n = "(cur + step) mod 2 ^ 32"
    obtain z1 where z1: "dump_elements fl h pp a step ?n xs (open_level pp (CHR ''['') ?n z) = Inr z1"
      "length (indent_string (open_level pp (CHR ''['') ?n z)) \<le> length (indent_string z1)"
      using 2(1) [OF False _ 2(3)] 2(2) roomy_open [OF 2(4)] by auto
    moreover have "pp \<longrightarrow> cur \<le> length (indent_string z1)"
      using 2(4) open_level_indent(1) [of z pp "CHR ''[''" ?n] z1(2) by (auto simp: roomy_def)
    ultimately show ?thesis
      using close_level_ok [of pp cur z1 "CHR '']''"] open_level_indent(1) [of z pp "CHR ''[''" ?n] False
      by (auto simp: and_then_def)
  qed simp
next
  case (3 fl h pp a step cur v z)
  then show ?case using emit_escaped_ok [of v a "emit [quote] z"] by (auto simp: and_then_def)
next
  case (5 fl h pp a step cur i z)
  then show ?case using dump_integer_dec [of i] by (simp add: emit_integer_def)
next
  case (9 fl h pp a step ind x xs z)
  obtain z0 where z0: "(if pp then emit_indent ind z else Inr z) = Inr z0" "indent_string z0 = indent_string z"
    using 9(5) emit_indent_ok [of ind z] by (cases pp) (auto simp: roomy_def)
  then obtain z1 where z1: "dump_val fl h pp a step ind x z0 = Inr z1" "length (indent_string z0) \<le> length (indent_string z1)"
    using 9(1) [of z0] 9(3,4,5) roomy_mono [OF 9(5), of z0] by auto
  show ?case
  proof (cases "xs = []")
    case False
    let ?z = "emit (if pp then [CHR '','', CHR 0x0A] else '','') z1"
    have "roomy pp step ind ?z" using roomy_mono [OF 9(5)] z0(2) z1(2) by simp
    then show ?thesis using 9(2) [OF False, of z1] 9(3,4) z0 z1 False by (auto simp: and_then_def)
  qed (use z0 z1 in \<open>simp add: and_then_def\<close>)
next
  case (11 fl h pp a step ind kv ob z)
  obtain z0 where z0: "(if pp then emit_indent ind z else Inr z) = Inr z0" "indent_string z0 = indent_string z"
    using 11(5) emit_indent_ok [of ind z] by (cases pp) (auto simp: roomy_def)
  obtain w where w: "emit_escaped h a (fst kv) (emit [quote] z0) = Inr (emit w (emit [quote] z0))"
    using emit_escaped_ok 11(3,4) by (metis list.set_intros(1))
  let ?z = "emit (if pp then [quote, CHR '':'', CHR '' ''] else [quote, CHR '':'']) (emit w (emit [quote] z0))"
  obtain z1 where z1: "dump_val fl h pp a step ind (snd kv) ?z = Inr z1" "length (indent_string z0) \<le> length (indent_string z1)"
    using 11(1) [of "emit w (emit [quote] z0)"] 11(3,4,5) roomy_mono [OF 11(5), of ?z] z0(2) by auto
  show ?case
  proof (cases "ob = []")
    case False
    let ?z2 = "emit (if pp then [CHR '','', CHR 0x0A] else '','') z1"
    have "roomy pp step ind ?z2" using roomy_mono [OF 11(5)] z0(2) z1(2) by simp
    then show ?thesis using 11(2) [OF False, of z1] 11(3,4) z0 w z1 False by (auto simp: and_then_def)
  qed (use z0 w z1 in \<open>simp add: and_then_def\<close>)
qed auto

section \<open>What is written is read back\<close>

definition blank_indent :: "serializer \<Rightarrow> bool" where
  "blank_indent z \<longleftrightarrow> list_all json_ws (indent_string z)"

text \<open>Text that is read as given tokens whatever follows it, and that ends a number before it.\<close>

definition lead :: "bool \<Rightarrow> string \<Rightarrow> token list \<Rightarrow> bool" where
  "lead ic w ts \<longleftrightarrow> (\<forall>rest. tokens ic (w @ rest) = ts @ tokens ic rest)"

definition punct :: "bool \<Rightarrow> string \<Rightarrow> token list \<Rightarrow> bool" where
  "punct ic w ts \<longleftrightarrow> lead ic w ts \<and> w \<noteq> [] \<and> ends_number w"

definition writes :: "bool \<Rightarrow> serializer \<Rightarrow> serializer \<Rightarrow> token list \<Rightarrow> bool" where
  "writes ic z z' ts \<longleftrightarrow> (\<exists>w. sink z' = sink z @ w \<and> (\<forall>rest. ends_number rest \<longrightarrow> tokens ic (w @ rest) = ts @ tokens ic rest))"

lemma lead_append: "lead ic w ts \<Longrightarrow> lead ic w' ts' \<Longrightarrow> lead ic (w @ w') (ts @ ts')"
  by (simp add: lead_def)

lemma lead_blank: "list_all json_ws w \<Longrightarrow> lead ic w []"
proof -
  assume "list_all json_ws w"
  then have "skip_whitespace (w @ s) = skip_whitespace s" for s
    by (induction w) (simp_all add: skip_whitespace_def)
  then show ?thesis by (simp add: lead_def tokens.simps [of ic "_ @ _"] tokens.simps scan_def)
qed

lemma lead_char:
  assumes "\<not> json_ws c" "c \<noteq> CHR ''/''" "\<forall>s. scan_current c s = (t, s)" "\<not> stops t"
  shows "lead ic [c] [t]"
  using assms scan_no_ws [of c ic] tokens_scan [of ic "c # _" t] by (simp add: lead_def)

lemma lead_chars:
  "lead ic ''['' [Begin_array]" "lead ic '']'' [End_array]" "lead ic ''{'' [Begin_object]" "lead ic ''}'' [End_object]"
  "lead ic '','' [Value_separator]" "lead ic '':'' [Name_separator]"
  by (rule lead_char; simp add: json_ws_def scan_current_def)+

lemma lead_Cons: "lead ic [c] [t] \<Longrightarrow> lead ic w ts \<Longrightarrow> lead ic (c # w) (t # ts)"
  using lead_append [of ic "[c]" "[t]"] by simp

lemma writes_punct: "writes ic z z1 ts \<Longrightarrow> punct ic w ts' \<Longrightarrow> writes ic z (emit w z1) (ts @ ts')"
proof -
  assume a: "writes ic z z1 ts" "punct ic w ts'"
  then obtain w1 where w1: "sink z1 = sink z @ w1" "\<forall>rest. ends_number rest \<longrightarrow> tokens ic (w1 @ rest) = ts @ tokens ic rest"
    by (auto simp: writes_def)
  have "ends_number (w @ rest)" for rest using a(2) by (cases w) (auto simp: punct_def ends_number_def)
  then have "tokens ic ((w1 @ w) @ rest) = (ts @ ts') @ tokens ic rest" for rest
    using w1(2) a(2) by (simp add: punct_def lead_def)
  then show ?thesis using w1(1) by (auto simp: writes_def)
qed

lemma lead_writes: "lead ic w ts \<Longrightarrow> writes ic (emit w z) z' ts' \<Longrightarrow> writes ic z z' (ts @ ts')"
proof -
  assume a: "lead ic w ts" "writes ic (emit w z) z' ts'"
  then obtain w1 where w1: "sink z' = sink z @ w @ w1" "\<forall>rest. ends_number rest \<longrightarrow> tokens ic (w1 @ rest) = ts' @ tokens ic rest"
    by (auto simp: writes_def)
  then have "\<forall>rest. ends_number rest \<longrightarrow> tokens ic ((w @ w1) @ rest) = (ts @ ts') @ tokens ic rest"
    using a(1) by (simp add: lead_def)
  then show ?thesis using w1(1) unfolding writes_def by blast
qed

lemma writes_trans:
  "writes ic z z1 ts \<Longrightarrow> punct ic w ts1 \<Longrightarrow> writes ic (emit w z1) z' ts2 \<Longrightarrow> writes ic z z' (ts @ ts1 @ ts2)"
proof -
  assume a: "writes ic z z1 ts" "punct ic w ts1" "writes ic (emit w z1) z' ts2"
  obtain w1 where w1: "sink z1 = sink z @ w1" "\<forall>rest. ends_number rest \<longrightarrow> tokens ic (w1 @ rest) = ts @ tokens ic rest"
    using a(1) by (auto simp: writes_def)
  obtain w2 where w2: "sink z' = sink z1 @ w @ w2" "\<forall>rest. ends_number rest \<longrightarrow> tokens ic (w2 @ rest) = ts2 @ tokens ic rest"
    using a(3) by (auto simp: writes_def)
  have "ends_number (w @ rest)" for rest using a(2) by (cases w) (auto simp: punct_def ends_number_def)
  then have "\<forall>rest. ends_number rest \<longrightarrow> tokens ic ((w1 @ w @ w2) @ rest) = (ts @ ts1 @ ts2) @ tokens ic rest"
    using w1(2) w2(2) a(2) by (simp add: punct_def lead_def)
  then show ?thesis using w1(1) w2(1) unfolding writes_def by (intro exI [of _ "w1 @ w @ w2"]) simp
qed

lemma lead_emit: "lead ic w ts \<Longrightarrow> writes ic z (emit w z) ts"
  by (auto simp: lead_def writes_def)

lemma lead_escaped: "dump_escaped Strict a v = Inr w \<Longrightarrow> lead ic (quote # w @ [quote]) [Value_string v]"
  using scan_dump_escaped [of a v w ic] tokens_scan [of ic "quote # w @ quote # _" "Value_string v"] by (simp add: lead_def)

lemma writes_integer:
  assumes "- (2 ^ 63) \<le> i" "i < 2 ^ 64"
  shows "writes ic z (emit (dec_int i) z) [if i < 0 then Value_integer i else Value_unsigned (nat i)]"
proof -
  obtain c s where c: "dec_int i = c # s" using dec_hd [of "nat i"] by (cases "dec_int i") (auto simp: dec_int_def split: if_splits)
  have "c = CHR ''-'' \<or> is_digit c" using c dec_hd [of "nat i"] by (auto simp: dec_int_def split: if_splits)
  then have "\<not> json_ws c" "c \<noteq> CHR ''/''" by (auto simp: json_ws_def is_digit_def)
  then have "scan ic (dec_int i @ rest) = (if i < 0 then Value_integer i else Value_unsigned (nat i), rest)" if "ends_number rest" for rest
    using scan_dec_int [OF assms that c] scan_no_ws [of c ic "s @ rest"] c by simp
  then have "tokens ic (dec_int i @ rest) = (if i < 0 then Value_integer i else Value_unsigned (nat i)) # tokens ic rest"
    if "ends_number rest" for rest using tokens_scan that by (cases "i < 0") fastforce+
  then show ?thesis by (auto simp: writes_def)
qed

lemma lead_literals: "lead ic ''true'' [Literal_true]" "lead ic ''false'' [Literal_false]" "lead ic ''null'' [Literal_null]"
  using tokens_scan [of ic "''true'' @ _" Literal_true] tokens_scan [of ic "''false'' @ _" Literal_false]
    tokens_scan [of ic "''null'' @ _" Literal_null]
  by (simp_all add: lead_def scan_no_ws json_ws_def scan_current_def)

lemma blank_emit [simp]: "blank_indent (emit w z) = blank_indent z"
  by (simp add: blank_indent_def)

lemma blank_newline: "list_all json_ws [CHR 0x0A]" "list_all json_ws '' ''"
  by (simp_all add: json_ws_def)

lemma writes_open:
  assumes "lead ic [c] [t]" "writes ic (open_level pp c n z) z' ts"
  shows "writes ic z z' (t # ts)"
proof -
  have "lead ic [c, CHR 0x0A] [t]" using lead_append [OF assms(1) lead_blank [OF blank_newline(1)]] by simp
  moreover have "writes ic (emit (if pp then [c, CHR 0x0A] else [c]) z) z' ts"
    using assms(2) by (cases pp) (simp_all add: writes_def open_level_def)
  ultimately show ?thesis using assms(1) lead_writes [of ic _ "[t]"] by (cases pp) fastforce+
qed

lemma blank_open: "blank_indent z \<Longrightarrow> blank_indent (open_level pp c n z)"
proof -
  have "list_all json_ws (replicate m (CHR '' ''))" for m by (induction m) (simp_all add: json_ws_def)
  then show "blank_indent z \<Longrightarrow> blank_indent (open_level pp c n z)"
    by (simp add: blank_indent_def open_level_def grow_indent_def emit_def)
qed

lemma ends_close: "ends_number ''}''" "ends_number '']''"
  by (simp_all add: ends_number_def is_digit_def)

lemma emit_indent_Inr: "emit_indent n z = Inr z' \<Longrightarrow> blank_indent z \<Longrightarrow> \<exists>w. z' = emit w z \<and> list_all json_ws w"
  by (auto simp: emit_indent_def blank_indent_def list_all_iff dest: in_set_takeD split: if_splits)

lemma writes_close:
  assumes "close_level pp c n z1 = Inr z'" "blank_indent z1" "lead ic [c] [t]" "ends_number [c]" "writes ic z z1 ts"
  shows "blank_indent z' \<and> writes ic z z' (ts @ [t])"
proof (cases pp)
  case True
  then obtain w where w: "z' = emit [c] (emit w (emit [CHR 0x0A] z1))" "list_all json_ws w"
    using assms(1,2) emit_indent_Inr [of n "emit [CHR 0x0A] z1"] by (fastforce simp: close_level_def)
  have "lead ic ([CHR 0x0A] @ w @ [c]) ([] @ [] @ [t])"
    using lead_append lead_blank blank_newline(1) w(2) assms(3) by blast
  then have "punct ic (CHR 0x0A # w @ [c]) [t]" by (simp add: punct_def ends_number_def is_digit_def)
  moreover have "emit (CHR 0x0A # w @ [c]) z1 = z'" using w(1) by (simp add: emit_def)
  ultimately show ?thesis using writes_punct [OF assms(5)] assms(2) w(1) by fastforce
next
  case False
  then have "punct ic [c] [t]" "z' = emit [c] z1" using assms(1,3,4) by (simp_all add: punct_def close_level_def)
  then show ?thesis using writes_punct [OF assms(5)] assms(2) by simp
qed

lemma punct_comma: "punct ic (if pp then [CHR '','', CHR 0x0A] else '','') [Value_separator]"
  using lead_append [OF lead_chars(5) lead_blank [OF blank_newline(1)]] lead_chars(5)
  by (simp add: punct_def ends_number_def is_digit_def)

lemma lead_colon: "lead ic (if pp then [CHR '':'', CHR '' ''] else '':'') [Name_separator]"
  using lead_append [OF lead_chars(6) lead_blank [OF blank_newline(2)]] lead_chars(6) by simp

lemma mk_obj_sorted: "obj_sorted ob \<Longrightarrow> mk_obj ob = ob"
proof (induction ob rule: rev_induct)
  case (snoc kv ob)
  then have "obj_sorted ob" "\<forall>k\<in>set (map fst ob). k < fst kv" by (auto simp: obj_sorted_def sorted_wrt_append)
  then show ?case using snoc.IH obj_set_last [of ob "fst kv" "snd kv"] by (simp add: mk_obj_def case_prod_beta)
qed (simp add: mk_obj_def)

text \<open>A member up to its value: the indentation, the quoted key and the colon.\<close>

lemma lead_key:
  assumes "(if pp then emit_indent ind z else Inr z) = Inr z0" "blank_indent z"
    "emit_escaped Strict a k (emit [quote] z0) = Inr z1"
  shows "\<exists>w. emit (if pp then [quote, CHR '':'', CHR '' ''] else [quote, CHR '':'']) z1 = emit w z \<and>
    lead ic w [Value_string k, Name_separator]"
proof -
  obtain b where b: "z0 = emit b z" "list_all json_ws b"
  proof (cases pp)
    case False
    then show ?thesis using assms(1) that [of "[]"] by (simp add: emit_def)
  qed (use assms(1,2) emit_indent_Inr that in auto)
  obtain e where e: "dump_escaped Strict a k = Inr e" "z1 = emit e (emit [quote] z0)"
    using assms(3) by (auto simp: emit_escaped_def)
  let ?w = "b @ (quote # e @ [quote]) @ (if pp then [CHR '':'', CHR '' ''] else '':'')"
  have "lead ic ?w ([] @ [Value_string k] @ [Name_separator])"
    by (intro lead_append lead_blank b(2) lead_escaped [OF e(1)] lead_colon)
  then show ?thesis using b(1) e(2) by (intro exI [of _ ?w]) (simp add: emit_def)
qed

lemma dump_writes:
  "dump_val fl h pp a step cur v z = Inr z' \<Longrightarrow> h = Strict \<Longrightarrow> json_ok v \<Longrightarrow> \<not> has_float v \<Longrightarrow> blank_indent z \<Longrightarrow>
     blank_indent z' \<and> (\<exists>ts. is_value ts v \<and> writes ic z z' ts)"
  "dump_elements fl h pp a step cur xs z = Inr z' \<Longrightarrow> h = Strict \<Longrightarrow> \<forall>x\<in>set xs. json_ok x \<and> \<not> has_float x \<Longrightarrow>
     blank_indent z \<Longrightarrow> xs \<noteq> [] \<Longrightarrow> blank_indent z' \<and> (\<exists>ts. is_elements ts xs \<and> writes ic z z' ts)"
  "dump_members fl h pp a step cur ob z = Inr z' \<Longrightarrow> h = Strict \<Longrightarrow>
     \<forall>kv\<in>set ob. utf8 (fst kv) \<and> json_ok (snd kv) \<and> \<not> has_float (snd kv) \<Longrightarrow>
     blank_indent z \<Longrightarrow> ob \<noteq> [] \<Longrightarrow> blank_indent z' \<and> (\<exists>ts. is_members ts ob \<and> writes ic z z' ts)"
proof (induction fl h pp a step cur v z and fl h pp a step cur xs z and fl h pp a step cur ob z
    arbitrary: z' and z' and z' rule: dump_val_dump_elements_dump_members.induct)
  case (1 fl h pp a step cur ob z)
  show ?case
  proof (cases "ob = []")
    case True
    then show ?thesis using 1(2,6) lead_emit [of ic "''{}''" _ z] lead_append [OF lead_chars(3,4)] v_object_empty by auto
  next
    case False
    let ?n = "(cur + step) mod 2 ^ 32" and ?c = "CHR ''{''"
    obtain z1 where z1: "dump_members fl h pp a step ?n ob (open_level pp ?c ?n z) = Inr z1" "close_level pp (CHR ''}'') cur z1 = Inr z'"
      using 1(2) False by auto
    then obtain ts where ts: "blank_indent z1" "is_members ts ob" "writes ic (open_level pp ?c ?n z) z1 ts"
      using 1(1) [OF False z1(1) 1(3)] 1(4,5) blank_open [OF 1(6)] False by auto
    have "writes ic z z1 (Begin_object # ts)" using writes_open [OF lead_chars(3) ts(3)] .
    then have "blank_indent z' \<and> writes ic z z' ((Begin_object # ts) @ [End_object])"
      by (rule writes_close [OF z1(2) ts(1) lead_chars(4) ends_close(1)])
    moreover have "is_value (Begin_object # ts @ [End_object]) (JObject ob)"
      using v_object [OF ts(2)] mk_obj_sorted [of ob] 1(4) by simp
    ultimately show ?thesis by auto
  qed
next
  case (2 fl h pp a step cur xs z)
  show ?case
  proof (cases "xs = []")
    case True
    then show ?thesis using 2(2,6) lead_emit [of ic "''[]''" _ z] lead_append [OF lead_chars(1,2)] v_array_empty by auto
  next
    case False
    let ?n = "(cur + step) mod 2 ^ 32" and ?c = "CHR ''[''"
    obtain z1 where z1: "dump_elements fl h pp a step ?n xs (open_level pp ?c ?n z) = Inr z1" "close_level pp (CHR '']'') cur z1 = Inr z'"
      using 2(2) False by auto
    then obtain ts where ts: "blank_indent z1" "is_elements ts xs" "writes ic (open_level pp ?c ?n z) z1 ts"
      using 2(1) [OF False z1(1) 2(3)] 2(4,5) blank_open [OF 2(6)] False by auto
    have "writes ic z z1 (Begin_array # ts)" using writes_open [OF lead_chars(1) ts(3)] .
    then have "blank_indent z' \<and> writes ic z z' ((Begin_array # ts) @ [End_array])"
      by (rule writes_close [OF z1(2) ts(1) lead_chars(2) ends_close(2)])
    then show ?thesis using v_array [OF ts(2)] by auto
  qed
next
  case (3 fl h pp a step cur v z)
  then obtain w where w: "dump_escaped Strict a v = Inr w" "z' = emit [quote] (emit w (emit [quote] z))"
    by (auto simp: emit_escaped_def)
  then have "z' = emit (quote # w @ [quote]) z" by (simp add: emit_def)
  then show ?case using 3(5) lead_emit [OF lead_escaped [OF w(1)]] v_string by auto
next
  case (4 fl h pp a step cur b z)
  then show ?case using lead_emit [OF lead_literals(1)] lead_emit [OF lead_literals(2)] v_true v_false by (cases b) auto
next
  case (5 fl h pp a step cur i z)
  then have "z' = emit (dec_int i) z" using dump_integer_dec [of i] by (simp add: emit_integer_def)
  moreover have "is_value [if i < 0 then Value_integer i else Value_unsigned (nat i)] (JInt i)"
    using v_integer [of i] v_unsigned [of "nat i"] by (cases "i < 0") simp_all
  ultimately show ?case using 5(3,5) writes_integer [of i ic z] by auto
next
  case (7 fl h pp a step cur z)
  then show ?case using lead_emit [OF lead_literals(3)] v_null by auto
next
  case (9 fl h pp a step ind x xs z)
  obtain z0 z1 where z: "(if pp then emit_indent ind z else Inr z) = Inr z0" "dump_val fl h pp a step ind x z0 = Inr z1"
    "(if xs = [] then Inr z1 else dump_elements fl h pp a step ind xs (emit (if pp then [CHR '','', CHR 0x0A] else '','') z1)) = Inr z'"
    using 9(3) by auto
  obtain b where b: "z0 = emit b z" "list_all json_ws b"
  proof (cases pp)
    case False
    then show ?thesis using z(1) that [of "[]"] by (simp add: emit_def)
  qed (use z(1) 9(6) emit_indent_Inr that in auto)
  then obtain ts where ts: "blank_indent z1" "is_value ts x" "writes ic z0 z1 ts"
    using 9(1) [OF z(2) 9(4)] 9(5,6) by auto
  then have w: "writes ic z z1 ts" using lead_writes [OF lead_blank [OF b(2)]] b(1) by fastforce
  show ?case
  proof (cases "xs = []")
    case True
    then show ?thesis using z(3) ts w e_one by auto
  next
    case False
    then obtain ts' where "blank_indent z'" "is_elements ts' xs"
      "writes ic (emit (if pp then [CHR '','', CHR 0x0A] else '','') z1) z' ts'"
      using 9(2) [OF False _ 9(4), of z1 z'] z(3) ts(1) 9(5) by auto
    then show ?thesis using writes_trans [OF w punct_comma] e_more [OF ts(2)] by fastforce
  qed
next
  case (11 fl h pp a step ind kv ob z)
  let ?colon = "if pp then [quote, CHR '':'', CHR '' ''] else [quote, CHR '':'']"
  obtain z0 z1 z2 where z: "(if pp then emit_indent ind z else Inr z) = Inr z0"
    "emit_escaped h a (fst kv) (emit [quote] z0) = Inr z1" "dump_val fl h pp a step ind (snd kv) (emit ?colon z1) = Inr z2"
    "(if ob = [] then Inr z2 else dump_members fl h pp a step ind ob (emit (if pp then [CHR '','', CHR 0x0A] else '','') z2)) = Inr z'"
    using 11(3) by auto
  obtain w where w: "emit ?colon z1 = emit w z" "lead ic w [Value_string (fst kv), Name_separator]"
    using lead_key [OF z(1) 11(6)] z(2) 11(4) by blast
  then obtain ts where ts: "blank_indent z2" "is_value ts (snd kv)" "writes ic (emit w z) z2 ts"
    using 11(1) [OF z(3) 11(4)] 11(5,6) by auto
  then have v: "writes ic z z2 (Value_string (fst kv) # Name_separator # ts)" using lead_writes [OF w(2)] by fastforce
  show ?case
  proof (cases "ob = []")
    case True
    then show ?thesis using z(4) ts v m_one [OF ts(2), of "fst kv"] by auto
  next
    case False
    then obtain ts' where "blank_indent z'" "is_members ts' ob"
      "writes ic (emit (if pp then [CHR '','', CHR 0x0A] else '','') z2) z' ts'"
      using 11(2) [OF False _ 11(4), of z2 z'] z(4) ts(1) 11(5) by auto
    then show ?thesis using writes_trans [OF v punct_comma] m_more [OF ts(2), of ts' ob "fst kv"] by fastforce
  qed
qed auto

text \<open>
  What the C++ types alone give: 64-bit integers and objects with sorted, unique keys; strings are
  any bytes.
\<close>

fun json_typed :: "json \<Rightarrow> bool" where
  "json_typed JNull = True"
| "json_typed (JBool b) = True"
| "json_typed (JInt i) = (- (2 ^ 63) \<le> i \<and> i < 2 ^ 64)"
| "json_typed (JFloat f) = True"
| "json_typed (JString s) = True"
| "json_typed (JArray xs) = (\<forall>x\<in>set xs. json_typed x)"
| "json_typed (JObject ob) = (obj_sorted ob \<and> (\<forall>kv\<in>set ob. json_typed (snd kv)))"

lemma json_ok_typed: "json_ok v \<Longrightarrow> json_typed v"
  by (induction v rule: json_ok.induct) auto

lemma emit_escaped_utf8: "emit_escaped Strict a v z = Inr z' \<Longrightarrow> utf8 v"
  using dump_escaped_strict [of a v] by (auto simp: emit_escaped_def)

lemma dump_only_utf8:
  "dump_val fl h pp a step cur v z = Inr z' \<Longrightarrow> h = Strict \<Longrightarrow> json_typed v \<Longrightarrow> json_ok v"
  "dump_elements fl h pp a step cur xs z = Inr z' \<Longrightarrow> h = Strict \<Longrightarrow> \<forall>x\<in>set xs. json_typed x \<Longrightarrow> \<forall>x\<in>set xs. json_ok x"
  "dump_members fl h pp a step cur ob z = Inr z' \<Longrightarrow> h = Strict \<Longrightarrow> \<forall>kv\<in>set ob. json_typed (snd kv) \<Longrightarrow>
     \<forall>kv\<in>set ob. utf8 (fst kv) \<and> json_ok (snd kv)"
proof (induction fl h pp a step cur v z and fl h pp a step cur xs z and fl h pp a step cur ob z
    arbitrary: z' and z' and z' rule: dump_val_dump_elements_dump_members.induct)
  case (3 fl h pp a step cur v z)
  then show ?case using emit_escaped_utf8 by fastforce
next
  case (1 fl h pp a step cur ob z)
  show ?case
  proof (cases "ob = []")
    case False
    then show ?thesis using 1 by auto
  qed simp
next
  case (2 fl h pp a step cur xs z)
  show ?case
  proof (cases "xs = []")
    case False
    then show ?thesis using 2 by auto
  qed simp
next
  case (9 fl h pp a step ind x xs z)
  then show ?case by (cases "xs = []") auto
next
  case (11 fl h pp a step ind kv ob z)
  obtain z0 z1 z2 where z: "emit_escaped h a (fst kv) (emit [quote] z0) = Inr z1"
    "dump_val fl h pp a step ind (snd kv) (emit (if pp then [quote, CHR '':'', CHR '' ''] else [quote, CHR '':'']) z1) = Inr z2"
    "(if ob = [] then Inr z2 else dump_members fl h pp a step ind ob (emit (if pp then [CHR '','', CHR 0x0A] else '','') z2)) = Inr z'"
    using 11(3) by auto
  have "utf8 (fst kv)" "json_ok (snd kv)" using emit_escaped_utf8 z(1) 11(1) [OF z(2) 11(4)] 11(4,5) by auto
  moreover have "\<forall>kv\<in>set ob. utf8 (fst kv) \<and> json_ok (snd kv)"
  proof (cases "ob = []")
    case False
    then show ?thesis using 11(2) [OF False _ 11(4), of z2] z(3) 11(5) by simp
  qed simp
  ultimately show ?case by simp
qed auto

lemma dump_fails_iff:
  assumes "json_typed v"
  shows "(\<exists>w. json_dump fl v = Inr w) \<longleftrightarrow> json_ok v"
proof
  assume "\<exists>w. json_dump fl v = Inr w"
  then show "json_ok v" using dump_only_utf8(1) assms
    by (auto simp: json_dump_def json_dump_with_def Let_def split: sum.splits)
next
  assume "json_ok v"
  then show "\<exists>w. json_dump fl v = Inr w"
    using dump_succeeds(1) [of v Strict False 0 0 "\<lparr>sink = [], indent_string = replicate 512 (CHR '' '')\<rparr>" fl False]
    by (auto simp: json_dump_def json_dump_with_def Let_def roomy_def)
qed

lemma no_bom: "tokens ic w = ts @ [End_of_input] \<Longrightarrow> is_value ts v \<Longrightarrow> skip_bom w = Some w"
proof (cases w)
  case (Cons c s)
  assume a: "tokens ic w = ts @ [End_of_input]" "is_value ts v"
  have "c \<noteq> CHR 0xEF"
  proof
    assume c: "c = CHR 0xEF"
    have "scan_current c s = (Parse_error ''invalid literal'', [])"
      by (simp add: c scan_current_def is_digit_def quote_def)
    then have "tokens ic w = [Parse_error ''invalid literal'']"
      using scan_no_ws [of c ic s] tokens_scan [of ic w] by (simp add: Cons c json_ws_def toks_def)
    then show False using a grammar_first(1) [OF a(2)] by auto
  qed
  then show ?thesis using Cons by (simp add: skip_bom_def)
qed (simp add: skip_bom_def)

lemma dump_parse:
  assumes "json_ok v" "\<not> has_float v" "json_ws indent_char" "case indent of None \<Rightarrow> True | Some n \<Rightarrow> n \<le> 512"
  shows "\<exists>w. json_dump_with fl indent indent_char a Strict v = Inr w \<and> json_parse_with ic False w = Inr v"
proof -
  define z where "z = \<lparr>sink = [], indent_string = replicate 512 indent_char\<rparr>"
  define pp step where "pp = (indent \<noteq> None)" and "step = (case indent of None \<Rightarrow> 0 | Some n \<Rightarrow> n)"
  have "roomy pp step 0 z" using assms(4) by (simp add: roomy_def z_def pp_def step_def split: option.splits)
  then obtain z' where z': "dump_val fl Strict pp a step 0 v z = Inr z'"
    using dump_succeeds(1) [OF assms(1) refl] by blast
  have "blank_indent z" using assms(3) by (simp add: blank_indent_def z_def list_all_iff)
  then obtain ts where ts: "is_value ts v" "writes ic z z' ts"
    using dump_writes(1) [OF z' refl assms(1,2)] by blast
  have "scan ic [] = (End_of_input, [])" by (simp add: scan_def skip_whitespace_def skip_comments.simps [of _ "[]"])
  then have "tokens ic [] = [End_of_input]" "ends_number []" by (simp_all add: tokens_scan toks_def ends_number_def)
  then have "tokens ic (sink z') = ts @ [End_of_input]" using ts(2) by (fastforce simp: writes_def z_def)
  then have "json_parse_with ic False (sink z') = Inr v" using ts(1) no_bom parse_grammar by blast
  moreover have "json_dump_with fl indent indent_char a Strict v = Inr (sink z')"
    using z' by (cases indent) (simp_all add: json_dump_with_def z_def pp_def step_def)
  ultimately show ?thesis by blast
qed


section \<open>The writer as a whole\<close>

text \<open>
  C23. The fast integer printer equals the reference: for every value of the two 64-bit integer
  types (the most negative one included) the digit-pair algorithm stays in its 64-byte buffer and writes the
  usual decimal representation.
\<close>

theorem integer_printing:
  assumes "- (2 ^ 63) \<le> x" "x < 2 ^ 64"
  shows "dump_integer x = Some (dec_int x)"
  using assms by (rule dump_integer_dec)

theorem integer_printing_witness: "dump_integer (- (2 ^ 63)) = Some (dec_int (- (2 ^ 63)))"
  by (rule integer_printing) simp_all

text \<open>
  C20. Dumping fails on text that is not UTF-8 and on nothing else: a value with the invariants
  that the types guarantee is serialized if and only if all its strings and keys are
  UTF-8; otherwise an exception is thrown.
\<close>

theorem dump_error_iff:
  assumes "json_typed v"
  shows "(\<exists>w. json_dump fl v = Inr w) \<longleftrightarrow> json_ok v"
  using assms by (rule dump_fails_iff)

theorem dump_error_iff_witness: "(\<exists>w. json_dump id (JArray [JString [CHR 0xFF]]) = Inr w) \<longleftrightarrow> json_ok (JArray [JString [CHR 0xFF]])"
  by (rule dump_error_iff) simp

text \<open>
  C19. Writing and reading are inverse: every well-formed value without floating-point numbers is
  serialized, in the compact or in the indented form (up to 512 columns of white space for a level),
  with or without \<open>ensure_ascii\<close>, to a text that the parser reads back as the same value.
\<close>

theorem json_text_roundtrip:
  assumes "json_ok v" "\<not> has_float v" "json_ws indent_char" "case indent of None \<Rightarrow> True | Some n \<Rightarrow> n \<le> 512"
  shows "\<exists>w. json_dump_with fl indent indent_char a Strict v = Inr w \<and> json_parse_with ic False w = Inr v"
  using assms by (rule dump_parse)

theorem json_text_roundtrip_witness:
  "\<exists>w. json_dump_with id (Some 2) (CHR '' '') True Strict (JArray [JInt (-5), JBool True, JArray []]) = Inr w \<and>
     json_parse_with False False w = Inr (JArray [JInt (-5), JBool True, JArray []])"
  by (rule json_text_roundtrip) (simp_all add: json_ws_def)

end
