(* ===== verification/Probes.thy ===== *)
theory Probes
  imports JsonText Capability
begin

text \<open>
  The probing services: the capability probes of the \<open>GetCapability\<close> request
  (capability/probe_detector.cpp), the provider detection of \<open>GetProvider\<close>
  (provider/provider_detector.cpp), and the older JSON snapshot services
  (service/capability_service.cpp and service/provider_service.cpp). All of them are
  functions of the host.
\<close>

section \<open>Capability probes\<close>

record probe =
  pr_available :: bool
  pr_source :: string

text \<open>The lines of a file, none when it cannot be opened.\<close>

definition file_lines :: "host \<Rightarrow> string \<Rightarrow> string list" where
  "file_lines h path = (case h_read h path of None \<Rightarrow> [] | Some s \<Rightarrow> getlines s)"

definition read_file_contains :: "host \<Rightarrow> string \<Rightarrow> string \<Rightarrow> bool" where
  "read_file_contains h path needle = list_ex (\<lambda>l. str_contains l needle) (file_lines h path)"

definition read_first_line :: "host \<Rightarrow> string \<Rightarrow> string" where
  "read_first_line h path = (case h_read h path of None \<Rightarrow> [] | Some s \<Rightarrow> first_getline s)"

definition test_unshare :: "host \<Rightarrow> ns_flag \<Rightarrow> bool" where
  "test_unshare h flag = (case h_unshare h flag of
      None \<Rightarrow> False
    | Some status \<Rightarrow> wifexited status \<and> wexitstatus status = 0)"

definition probe_root :: "host \<Rightarrow> probe" where
  "probe_root h = \<lparr>pr_available = (h_uid h = 0), pr_source = ''getuid()=='' @ dec (unat (h_uid h))\<rparr>"

definition probe_overlayfs :: "host \<Rightarrow> probe" where
  "probe_overlayfs h =
    \<lparr>pr_available = read_file_contains h ''/proc/filesystems'' ''overlay'', pr_source = ''/proc/filesystems''\<rparr>"

definition probe_mount_namespace :: "host \<Rightarrow> probe" where
  "probe_mount_namespace h =
    \<lparr>pr_available = (h_exists h ''/proc/self/ns/mnt'' \<and> test_unshare h CLONE_NEWNS),
     pr_source = ''/proc/self/ns/mnt + unshare(CLONE_NEWNS)''\<rparr>"

definition probe_pid_namespace :: "host \<Rightarrow> probe" where
  "probe_pid_namespace h =
    \<lparr>pr_available = (h_exists h ''/proc/self/ns/pid'' \<and> test_unshare h CLONE_NEWPID),
     pr_source = ''/proc/self/ns/pid + unshare(CLONE_NEWPID)''\<rparr>"

definition probe_net_namespace :: "host \<Rightarrow> probe" where
  "probe_net_namespace h =
    \<lparr>pr_available = (h_exists h ''/proc/self/ns/net'' \<and> test_unshare h CLONE_NEWNET),
     pr_source = ''/proc/self/ns/net + unshare(CLONE_NEWNET)''\<rparr>"

definition probe_selinux :: "host \<Rightarrow> probe" where
  "probe_selinux h =
    (let present = h_exists h ''/sys/fs/selinux/enforce'';
         mode = (if present
           then (if read_first_line h ''/sys/fs/selinux/enforce'' = ''1'' then ''enforcing'' else ''permissive'')
           else ''absent'')
     in \<lparr>pr_available = present, pr_source = ''/sys/fs/selinux/enforce ('' @ mode @ '')''\<rparr>)"

text \<open>The first mount line for /system decides (the loop breaks there).\<close>

fun system_rw :: "string list \<Rightarrow> bool" where
  "system_rw [] = False"
| "system_rw (l # ls) =
     (if str_contains l '' /system '' then str_contains l '' rw,'' \<or> str_contains l '' rw '' else system_rw ls)"

definition probe_system_write :: "host \<Rightarrow> probe" where
  "probe_system_write h =
    \<lparr>pr_available = system_rw (file_lines h ''/proc/mounts''), pr_source = ''/proc/mounts /system flags''\<rparr>"

definition probe_zygisk :: "host \<Rightarrow> probe" where
  "probe_zygisk h =
    \<lparr>pr_available = (h_exists h ''/data/adb/modules/zygisk'' \<or> h_exists h ''/data/adb/magisk/zygisk''),
     pr_source = ''zygisk module path''\<rparr>"

definition probes_all :: "host \<Rightarrow> (string \<times> probe) list" where
  "probes_all h =
    [(''root'', probe_root h),
     (''overlayfs'', probe_overlayfs h),
     (''mount_namespace'', probe_mount_namespace h),
     (''pid_namespace'', probe_pid_namespace h),
     (''net_namespace'', probe_net_namespace h),
     (''selinux'', probe_selinux h),
     (''system_write'', probe_system_write h),
     (''zygisk'', probe_zygisk h),
     (''boot_patch'', \<lparr>pr_available = False, pr_source = ''not probed in Phase 0 (needs boot partition)''\<rparr>)]"

section \<open>Provider detection\<close>

record provider_detect =
  pd_id :: string
  pd_name :: string
  pd_detected :: bool
  pd_available :: bool
  pd_version :: string
  pd_source :: string

definition run_cmd :: "host \<Rightarrow> string \<Rightarrow> bool \<times> string" where
  "run_cmd h cmd = (case h_popen h cmd of
      None \<Rightarrow> (False, [])
    | Some (out, status) \<Rightarrow> (wifexited status \<and> wexitstatus status = 0, fgets_all out))"

definition first_line :: "string \<Rightarrow> string" where
  "first_line s = (case find_char nl s of None \<Rightarrow> trim s | Some n \<Rightarrow> trim (substr s 0 n))"

fun comma_list :: "string list \<Rightarrow> string" where
  "comma_list [] = []"
| "comma_list [x] = x"
| "comma_list (x # y # ys) = x @ '', '' @ comma_list (y # ys)"

definition check_paths :: "host \<Rightarrow> string list \<Rightarrow> bool \<times> string" where
  "check_paths h paths =
    (let found = filter (h_exists h) paths
     in if found = [] then (False, ''checked: '' @ comma_list paths @ '' (none found)'')
        else (True, ''found: '' @ comma_list found))"

text \<open>
  The three detectors differ in their constants only: id, name, marker paths, version
  command and the name the source string gives it.
\<close>

definition detect_with :: "host \<Rightarrow> string \<Rightarrow> string \<Rightarrow> string list \<Rightarrow> string \<Rightarrow> string \<Rightarrow> provider_detect" where
  "detect_with h pid pname paths cmd label =
    (let (detected, src) = check_paths h paths;
         base = \<lparr>pd_id = pid, pd_name = pname, pd_detected = detected, pd_available = False,
           pd_version = [], pd_source = src\<rparr>
     in if detected then
          (let (ok, out) = run_cmd h cmd; ver = first_line out
           in if ok \<and> ver \<noteq> [] then
                base\<lparr>pd_available := True, pd_version := ver,
                  pd_source := src @ ''; exec '' @ [CHR 0x27] @ label @ [CHR 0x27] @ '' -> '' @ ver\<rparr>
              else base\<lparr>pd_source := src @ ''; '' @ [CHR 0x27] @ label @ [CHR 0x27] @
                '' failed (binary present but not functional)''\<rparr>)
        else base)"

definition detect_magisk :: "host \<Rightarrow> provider_detect" where
  "detect_magisk h = detect_with h ''magisk'' ''Magisk''
     [''/data/adb/magisk/magisk'', ''/data/adb/magisk'', ''/system/bin/magisk'']
     ''magisk -v 2>/dev/null || /data/adb/magisk/magisk -v 2>/dev/null'' ''magisk -v''"

definition detect_kernelsu :: "host \<Rightarrow> provider_detect" where
  "detect_kernelsu h = detect_with h ''kernelsu'' ''KernelSU''
     [''/data/adb/ksu/bin/ksud'', ''/data/adb/ksu'', ''/sys/module/kernelsu'', ''/proc/sys/kernel/ksu'']
     ''ksud --version 2>/dev/null || /data/adb/ksu/bin/ksud --version 2>/dev/null'' ''ksud --version''"

definition detect_apatch :: "host \<Rightarrow> provider_detect" where
  "detect_apatch h = detect_with h ''apatch'' ''APatch''
     [''/data/adb/ap/bin/apd'', ''/data/adb/ap'', ''/sys/module/apatch'']
     ''apd --version 2>/dev/null || /data/adb/ap/bin/apd --version 2>/dev/null'' ''apd --version''"

definition detect_astraroot :: provider_detect where
  "detect_astraroot = \<lparr>pd_id = ''astraroot'', pd_name = ''AstraRoot'', pd_detected = False,
     pd_available = False, pd_version = [], pd_source = ''AstraRoot backend not implemented (Phase 1)''\<rparr>"

definition providers_all :: "host \<Rightarrow> provider_detect list" where
  "providers_all h = [detect_magisk h, detect_kernelsu h, detect_apatch h, detect_astraroot]"

section \<open>The snapshot services\<close>

definition read_file :: "host \<Rightarrow> string \<Rightarrow> string" where
  "read_file h path = (case h_read h path of None \<Rightarrow> [] | Some s \<Rightarrow> s)"

text \<open>\<open>ss >> tok\<close>: skip blanks, then take up to the next blank.\<close>

definition next_token :: "string \<Rightarrow> string \<times> string" where
  "next_token s = (let t = dropWhile is_space s in (takeWhile (\<lambda>c. \<not> is_space c) t, dropWhile (\<lambda>c. \<not> is_space c) t))"

definition kernel_version :: "host \<Rightarrow> string" where
  "kernel_version h =
    (let raw = read_file h ''/proc/version''
     in if raw = [] then ''unknown''
        else
          (let tok3 = fst (next_token (snd (next_token (snd (next_token raw)))))
           in if tok3 = [] then ''unknown''
              else (case find_char (CHR ''-'') tok3 of None \<Rightarrow> tok3 | Some i \<Rightarrow> substr tok3 0 i)))"

definition selinux_mode :: "host \<Rightarrow> string" where
  "selinux_mode h =
    (if \<not> h_exists h ''/sys/fs/selinux'' then ''disabled''
     else
       (let enforce = trim (read_file h ''/sys/fs/selinux/enforce'')
        in if enforce = [] then ''permissive''
           else if enforce = ''1'' then ''enforcing'' else ''permissive''))"

definition has_mount_namespace :: "host \<Rightarrow> bool" where
  "has_mount_namespace h =
    (let fs = read_file h ''/proc/filesystems'' in str_contains fs ''namespace'' \<or> str_contains fs ''nsfs'')"

definition root_hint :: "host \<Rightarrow> bool" where
  "root_hint h = list_ex (h_exists h)
    [''/system/bin/su'', ''/system/xbin/su'', ''/sbin/su'', ''/data/adb/magisk'', ''/data/adb/ksu'', ''/data/adb/ap'']"

fun find_sdk :: "string list \<Rightarrow> string" where
  "find_sdk [] = ''unknown''"
| "find_sdk (l # ls) = (case find_sub ''ro.build.version.sdk='' l of
      None \<Rightarrow> find_sdk ls
    | Some i \<Rightarrow> trim (drop (i + length ''ro.build.version.sdk='') l))"

definition android_api_level :: "host \<Rightarrow> string" where
  "android_api_level h =
    (let bp = read_file h ''/system/build.prop'' in if bp = [] then ''unknown'' else find_sdk (getlines bp))"

definition get_capability_json :: "host \<Rightarrow> string" where
  \<open>get_capability_json h =
    ''{'' @
    ''"android":"'' @ json_escape (android_api_level h) @ ''",'' @
    ''"kernel":"'' @ json_escape (kernel_version h) @ ''",'' @
    ''"selinux":"'' @ json_escape (selinux_mode h) @ ''",'' @
    ''"root":'' @ (if root_hint h then ''true'' else ''false'') @ '','' @
    ''"namespace":'' @ (if has_mount_namespace h then ''true'' else ''false'') @
    ''}''\<close>

definition detect_provider_name :: "host \<Rightarrow> string" where
  "detect_provider_name h =
    (if h_exists h ''/data/adb/astraroot'' then ''astraroot''
     else if h_exists h ''/data/adb/magisk'' \<and> h_exists h ''/data/adb/magisk.db'' then ''magisk''
     else if h_exists h ''/data/adb/ksu'' then ''kernelsu''
     else if h_exists h ''/data/adb/ap'' then ''apatch''
     else ''none'')"

definition version_file :: "string \<Rightarrow> string option" where
  "version_file provider =
    (if provider = ''magisk'' then Some ''/data/adb/magisk/MAGISK_VERSION''
     else if provider = ''kernelsu'' then Some ''/data/adb/ksu/version''
     else if provider = ''apatch'' then Some ''/data/adb/ap/version''
     else if provider = ''astraroot'' then Some ''/data/adb/astraroot/version''
     else None)"

definition provider_version :: "host \<Rightarrow> string \<Rightarrow> string" where
  "provider_version h provider = (case version_file provider of
      None \<Rightarrow> ''unknown''
    | Some path \<Rightarrow> (let v = read_first_line h path in if v \<noteq> [] then v else ''unknown''))"

definition detect_provider :: "host \<Rightarrow> string" where
  \<open>detect_provider h =
    (let provider = detect_provider_name h; version = provider_version h provider
     in ''{'' @
        ''"provider":"'' @ json_escape_basic provider @ ''",'' @
        ''"version":"'' @ json_escape_basic version @ ''"'' @
        ''}'')\<close>

section \<open>Properties\<close>

lemma first_line_no_nl: "nl \<notin> set (first_line s)"
proof (cases "find_char nl s")
  case None
  then have "nl \<notin> set s" by (simp add: find_char_None)
  then show ?thesis using set_trim [of s] None by (auto simp: first_line_def)
next
  case (Some n)
  then show ?thesis
    using set_trim [of "take n s"] find_char_Some [OF Some] by (auto simp: first_line_def substr_def)
qed

lemma detect_with_available:
  "pd_available (detect_with h i n paths cmd l) \<longleftrightarrow>
     (\<exists>p\<in>set paths. h_exists h p) \<and>
     (\<exists>out st. h_popen h cmd = Some (out, st) \<and> wifexited st \<and> wexitstatus st = 0 \<and> first_line (fgets_all out) \<noteq> [])"
  by (auto simp: detect_with_def check_paths_def run_cmd_def Let_def filter_empty_conv split: option.splits)

lemma detect_with_shape:
  "d = detect_with h i n paths cmd l \<Longrightarrow>
     pd_available d = (pd_version d \<noteq> []) \<and> nl \<notin> set (pd_version d) \<and>
     (if pd_available d then pd_detected d else True) \<and> pd_id d = i"
  using first_line_no_nl by (auto simp: detect_with_def Let_def case_prod_beta)

lemma providers_all_shape:
  "list_all (\<lambda>d. pd_available d = (pd_version d \<noteq> []) \<and> nl \<notin> set (pd_version d) \<and>
      (if pd_available d then pd_detected d \<and> pd_id d \<noteq> ''astraroot'' else True)) (providers_all h)"
  using detect_with_shape [of "detect_magisk h", OF detect_magisk_def]
    detect_with_shape [of "detect_kernelsu h", OF detect_kernelsu_def]
    detect_with_shape [of "detect_apatch h", OF detect_apatch_def]
  by (simp add: providers_all_def) (simp add: detect_astraroot_def)

text \<open>
  A provider is reported available exactly when one of its marker paths exists and
  its version command exits with 0 and prints a non-blank first line; an available
  provider always comes with a non-empty one-line version, an unavailable one with none,
  and AstraRoot is never available.
\<close>

theorem provider_detect_sound:
  "(pd_available (detect_with h i n paths cmd l) \<longleftrightarrow>
      (\<exists>p\<in>set paths. h_exists h p) \<and>
      (\<exists>out st. h_popen h cmd = Some (out, st) \<and> wifexited st \<and> wexitstatus st = 0 \<and>
         first_line (fgets_all out) \<noteq> [])) \<and>
   list_all (\<lambda>d. pd_available d = (pd_version d \<noteq> []) \<and> nl \<notin> set (pd_version d) \<and>
      (if pd_available d then pd_detected d \<and> pd_id d \<noteq> ''astraroot'' else True)) (providers_all h)"
  using detect_with_available [of h i n paths cmd l] providers_all_shape [of h] by blast

text \<open>Every probe is keyed once, so the \<open>std::map\<close> built from them has nine entries.\<close>

lemma probes_distinct: "distinct (map fst (probes_all h))"
  by (simp add: probes_all_def)

end
