(* ===== verification/Module.thy ===== *)
theory Module
  imports Permission "HOL-Library.Multiset"
begin

text \<open>
  AVM modules inside the daemon: the manifest and registry (module/module.hpp,
  module_manager.cpp, manifest_parser.cpp), the permission check and runtime that gate a
  start (module_permission_checker.cpp, module_runtime.cpp), the risk score
  (security/risk_engine.cpp) and the signature check (security/signature_verifier.cpp).
\<close>

section \<open>Data\<close>

record module_manifest =
  api_version :: int
  mf_id :: string
  mf_name :: string
  mf_version :: string
  mf_author :: string
  mf_permissions :: "string list"

definition default_manifest :: module_manifest where
  "default_manifest = \<lparr>api_version = 0, mf_id = [], mf_name = [], mf_version = [], mf_author = [],
     mf_permissions = []\<rparr>"

record avm_module =
  md_manifest :: module_manifest
  md_path :: string

section \<open>The registry\<close>

definition manifest_parse :: "string \<Rightarrow> module_manifest \<Rightarrow> bool \<times> module_manifest" where
  "manifest_parse file out = (if file = [] then (False, out) else (True, out))"

definition module_install :: "avm_module list \<Rightarrow> string \<Rightarrow> bool \<times> avm_module list" where
  "module_install ms path = (True, ms @ [\<lparr>md_manifest = default_manifest, md_path = path\<rparr>])"

text \<open>\<open>remove\<close> erases the first module with the id and returns.\<close>

fun module_remove :: "avm_module list \<Rightarrow> string \<Rightarrow> bool \<times> avm_module list" where
  "module_remove [] i = (False, [])"
| "module_remove (m # ms) i =
     (if mf_id (md_manifest m) = i then (True, ms)
      else (let (ok, ms') = module_remove ms i in (ok, m # ms')))"

definition module_list :: "avm_module list \<Rightarrow> avm_module list" where
  "module_list ms = ms"

text \<open>The loops of the StartModule and GetRiskScore requests: the first module with the id.\<close>

fun find_module :: "avm_module list \<Rightarrow> string \<Rightarrow> avm_module option" where
  "find_module [] i = None"
| "find_module (m # ms) i = (if mf_id (md_manifest m) = i then Some m else find_module ms i)"

section \<open>Starting a module\<close>

fun check_permissions :: "string list \<Rightarrow> capability_matrix \<Rightarrow> bool" where
  "check_permissions [] mx = True"
| "check_permissions (p # ps) mx = (case resolve_capability p of
      None \<Rightarrow> False
    | Some c \<Rightarrow> if \<not> matrix_has mx c then False else check_permissions ps mx)"

definition permission_checker_check :: "module_manifest \<Rightarrow> capability_matrix \<Rightarrow> bool" where
  "permission_checker_check mf mx = check_permissions (mf_permissions mf) mx"

definition runtime_start :: "capability_matrix \<Rightarrow> avm_module \<Rightarrow> bool" where
  "runtime_start mx m = (if \<not> permission_checker_check (md_manifest m) mx then False else True)"

definition runtime_stop :: "string \<Rightarrow> bool" where
  "runtime_stop i = True"

text \<open>A \<open>stat\<close> error throws; a module with and one without a signature are both accepted.\<close>

definition signature_verify :: "host \<Rightarrow> string \<Rightarrow> bool option" where
  "signature_verify h path = (case fs_exists h (path @ ''/signature.sig'') of
      None \<Rightarrow> None
    | Some present \<Rightarrow> if \<not> present then Some True else Some True)"

section \<open>The risk score\<close>

definition permission_score :: "string \<Rightarrow> int" where
  "permission_score n =
    (if n = ''ROOT_ACCESS'' then 30
     else if n = ''BOOT_PATCH'' then 40
     else if n = ''NETWORK_ACCESS'' then 10
     else if n = ''SYSTEM_WRITE'' then 20
     else if n = ''SELINUX_CONTROL'' then 25
     else if n = ''KERNEL_INTERFACE'' then 35
     else if n = ''MOUNT'' then 10
     else if n = ''FILESYSTEM_ACCESS'' then 10
     else if n = ''IPC_ACCESS'' then 5
     else 0)"

definition risk_calculate :: "module_manifest \<Rightarrow> int" where
  "risk_calculate mf = foldl (\<lambda>score p. score + permission_score p) 0 (mf_permissions mf)"

definition level_for_score :: "int \<Rightarrow> string" where
  "level_for_score score =
    (if score \<ge> 100 then ''CRITICAL''
     else if score \<ge> 60 then ''HIGH''
     else if score \<ge> 30 then ''MEDIUM''
     else ''LOW'')"

definition risk_level :: "module_manifest \<Rightarrow> string" where
  "risk_level mf = level_for_score (risk_calculate mf)"

section \<open>Properties\<close>

lemma check_permissions_iff:
  "check_permissions ps mx \<longleftrightarrow> (\<forall>p\<in>set ps. \<exists>c. p = capability_name c \<and> matrix_has mx c)"
proof (induction ps)
  case (Cons p ps)
  show ?case
  proof (cases "resolve_capability p")
    case None
    then have "p \<noteq> capability_name c" for c using resolve_capability_iff [of p c] by simp
    with None show ?thesis by simp
  next
    case (Some c)
    then have "p = capability_name c" by (simp add: resolve_capability_iff)
    with Some Cons show ?thesis by (auto simp: cap_enum.name_inj)
  qed
qed simp

text \<open>
  A module starts exactly when every permission of its manifest is the name of a
  capability that the device's matrix offers.
\<close>

theorem runtime_start_iff:
  "runtime_start mx m \<longleftrightarrow>
     list_all (\<lambda>p. \<exists>c. p = capability_name c \<and> matrix_has mx c) (mf_permissions (md_manifest m))"
  by (simp add: runtime_start_def permission_checker_check_def check_permissions_iff list_all_iff)

text \<open>
  The permission vocabulary and the capability vocabulary differ: a manifest that
  asks for MOUNT, NETWORK_ACCESS or FILESYSTEM_ACCESS, all permissions the security engine
  knows and the risk engine scores, can be started on no device.
\<close>

theorem permissions_never_startable:
  assumes "p \<in> {permission.MOUNT, permission.NETWORK_ACCESS, permission.FILESYSTEM_ACCESS}"
    and "permission_name p \<in> set (mf_permissions (md_manifest m))"
  shows "\<not> runtime_start mx m \<and> permission_from_name (permission_name p) = Some p \<and>
    permission_score (permission_name p) = 10"
proof -
  have "permission_name p \<noteq> capability_name c" for c using assms(1) by (cases c) auto
  then have "\<not> check_permissions (mf_permissions (md_manifest m)) mx"
    using assms(2) check_permissions_iff by blast
  then show ?thesis
    using assms(1)
    by (auto simp: runtime_start_def permission_checker_check_def permission_from_name_iff permission_score_def)
qed

definition mount_module :: avm_module where
  "mount_module = \<lparr>md_manifest = default_manifest\<lparr>mf_id := ''m'', mf_permissions := [''MOUNT'']\<rparr>, md_path = ''/m''\<rparr>"

theorem permissions_never_startable_witness:
  "\<not> runtime_start Map.empty mount_module \<and>
   permission_from_name (permission_name permission.MOUNT) = Some permission.MOUNT \<and>
   permission_score (permission_name permission.MOUNT) = 10"
  by (rule permissions_never_startable) (simp_all add: mount_module_def)

lemma risk_sum: "risk_calculate mf = sum_list (map permission_score (mf_permissions mf))"
proof -
  have "foldl (\<lambda>score p. score + permission_score p) k ps = k + sum_list (map permission_score ps)" for k ps
    by (induction ps arbitrary: k) simp_all
  then show ?thesis by (simp add: risk_calculate_def)
qed

lemma permission_score_bounds: "0 \<le> permission_score n \<and> permission_score n \<le> 40"
  by (simp add: permission_score_def)

definition level_rank :: "string \<Rightarrow> nat" where
  "level_rank l = (if l = ''CRITICAL'' then 3 else if l = ''HIGH'' then 2 else if l = ''MEDIUM'' then 1 else 0)"

lemma level_rank_mono: "a \<le> b \<Longrightarrow> level_rank (level_for_score a) \<le> level_rank (level_for_score b)"
  by (simp add: level_rank_def level_for_score_def)

lemma score_mset_mono:
  assumes "mset ps \<subseteq># mset qs"
  shows "sum_list (map permission_score ps) \<le> sum_list (map permission_score qs)"
proof -
  obtain d where d: "mset qs = mset ps + d" using assms by (auto simp: mset_subset_eq_exists_conv)
  have s: "sum_list (map permission_score xs) = (\<Sum>x\<in>#mset xs. permission_score x)" for xs
    by (metis mset_map sum_mset_sum_list)
  have "0 \<le> (\<Sum>x\<in>#d. permission_score x)"
  proof (induction d)
    case (add x d)
    then show ?case using permission_score_bounds [of x] by simp
  qed simp
  then show ?thesis by (simp add: s d)
qed

text \<open>
  The risk score does not depend on the order of the permissions, grows with them (a
  manifest that asks for more is never scored lower or rated less severe), lies between 0
  and 40 per permission, and has the documented thresholds.
\<close>

theorem risk_monotone:
  "(if mset (mf_permissions a) \<subseteq># mset (mf_permissions b)
    then risk_calculate a \<le> risk_calculate b \<and> level_rank (risk_level a) \<le> level_rank (risk_level b)
    else True) \<and>
   0 \<le> risk_calculate a \<and> risk_calculate a \<le> 40 * int (length (mf_permissions a)) \<and>
   (risk_level a = ''CRITICAL'') = (100 \<le> risk_calculate a) \<and>
   (risk_level a = ''LOW'') = (risk_calculate a < 30)"
proof -
  have "0 \<le> sum_list (map permission_score ps) \<and> sum_list (map permission_score ps) \<le> 40 * int (length ps)" for ps
  proof (induction ps)
    case (Cons p ps)
    then show ?case using permission_score_bounds [of p] by simp
  qed simp
  then show ?thesis
    using score_mset_mono [of "mf_permissions a" "mf_permissions b"] level_rank_mono
    by (auto simp: risk_sum risk_level_def) (auto simp: level_for_score_def split: if_splits)
qed

section \<open>What the registry can address\<close>

datatype registry_op = Install string | RemoveId string

fun registry_step :: "avm_module list \<Rightarrow> registry_op \<Rightarrow> avm_module list" where
  "registry_step ms (Install p) = snd (module_install ms p)"
| "registry_step ms (RemoveId i) = snd (module_remove ms i)"

definition default_ids :: "avm_module list \<Rightarrow> bool" where
  "default_ids ms \<longleftrightarrow> (\<forall>m\<in>set ms. md_manifest m = default_manifest)"

lemma module_remove_subset: "set (snd (module_remove ms i)) \<subseteq> set ms"
  by (induction ms) (auto simp: case_prod_beta)

lemma default_ids_step: "default_ids ms \<Longrightarrow> default_ids (registry_step ms op)"
proof (cases op)
  case (RemoveId i)
  assume "default_ids ms"
  then show ?thesis using module_remove_subset [of ms i] by (auto simp: RemoveId default_ids_def)
qed (auto simp: default_ids_def module_install_def)

interpretation registry: machine registry_step "\<lambda>_. True" default_ids
  by unfold_locales (rule default_ids_step)

lemma default_ids_lookup:
  "default_ids ms \<Longrightarrow> i \<noteq> [] \<Longrightarrow> find_module ms i = None \<and> module_remove ms i = (False, ms)"
  by (induction ms) (auto simp: default_ids_def default_manifest_def)

text \<open>
  Installed modules cannot be addressed: \<open>install\<close> never fills the manifest, so after
  any history of installs and removals a non-empty module id is found by neither removal
  nor lookup (start and risk score), whatever was installed.
\<close>

theorem installed_modules_unaddressable:
  assumes "i \<noteq> []"
  shows "find_module (module_list (foldl registry_step [] ops)) i = None \<and>
    module_remove (foldl registry_step [] ops) i = (False, foldl registry_step [] ops)"
proof -
  have "default_ids (foldl registry_step [] ops)"
    by (rule registry.inv_run) (simp_all add: default_ids_def list_all_iff)
  from default_ids_lookup [OF this assms] show ?thesis by (simp add: module_list_def)
qed

theorem installed_modules_unaddressable_witness:
  "find_module (module_list (foldl registry_step [] [Install ''/data/a.avm''])) ''a'' = None \<and>
   module_remove (foldl registry_step [] [Install ''/data/a.avm'']) ''a'' =
     (False, foldl registry_step [] [Install ''/data/a.avm''])"
  by (rule installed_modules_unaddressable) simp

end
