(* ===== verification/JsonCodec.thy ===== *)
theory JsonCodec
  imports JsonWriter JsonUtf8
begin

text \<open>
  The structured JSON requests and responses of daemon/src/ipc/json_codec.cpp, over the reader
  and the writer of the JSON library: \<open>jl_parse\<close> is \<open>json::parse\<close> and \<open>jl_dump\<close> is \<open>dump()\<close>, each
  None where the library throws (malformed text; a string that is not UTF-8). What the library
  makes of a floating-point literal is a parameter: its text and its conversion to an integer.
\<close>

record json_lib =
  jl_float :: "string \<Rightarrow> string"
  jl_trunc :: "string \<Rightarrow> int"

definition jl_parse :: "string \<Rightarrow> json option" where
  "jl_parse s = (case json_parse s of Inl e \<Rightarrow> None | Inr v \<Rightarrow> Some v)"

definition jl_dump :: "json_lib \<Rightarrow> json \<Rightarrow> string option" where
  "jl_dump lib v = (case json_dump (jl_float lib) v of Inl e \<Rightarrow> None | Inr w \<Rightarrow> Some w)"

section \<open>Typed access\<close>

text \<open>\<open>static_cast<int>\<close> of a 64-bit integer keeps the low 32 bits.\<close>

definition to_int32 :: "int \<Rightarrow> int" where
  "to_int32 i = sint (word_of_int i :: 32 word)"

text \<open>
  The conversions \<open>from_json\<close> to the C++ types that the daemon and the spoof module ask for; None is
  the \<open>type_error\<close> 302 of a value of another type. A number converts to a boolean never, but a boolean to a number.
\<close>

fun from_json_string :: "json \<Rightarrow> string option" where
  "from_json_string (JString s) = Some s"
| "from_json_string _ = None"

fun from_json_bool :: "json \<Rightarrow> bool option" where
  "from_json_bool (JBool b) = Some b"
| "from_json_bool _ = None"

fun from_json_int :: "json_lib \<Rightarrow> json \<Rightarrow> int option" where
  "from_json_int lib (JInt i) = Some (to_int32 i)"
| "from_json_int lib (JFloat f) = Some (to_int32 (jl_trunc lib f))"
| "from_json_int lib (JBool b) = Some (if b then 1 else 0)"
| "from_json_int lib _ = None"

lemma from_json_Some [simp]:
  "from_json_string j = Some s \<longleftrightarrow> j = JString s" "from_json_bool j = Some b \<longleftrightarrow> j = JBool b"
  by (cases j; auto)+

text \<open>\<open>j.value(key, default)\<close>: the default when the key is absent, None when the type is wrong.\<close>

definition value_string :: "(string \<times> json) list \<Rightarrow> string \<Rightarrow> string \<Rightarrow> string option" where
  "value_string ob k d = (case map_of ob k of None \<Rightarrow> Some d | Some j \<Rightarrow> from_json_string j)"

definition value_int :: "json_lib \<Rightarrow> (string \<times> json) list \<Rightarrow> string \<Rightarrow> int \<Rightarrow> int option" where
  "value_int lib ob k d = (case map_of ob k of None \<Rightarrow> Some d | Some j \<Rightarrow> from_json_int lib j)"

definition value_bool :: "(string \<times> json) list \<Rightarrow> string \<Rightarrow> bool \<Rightarrow> bool option" where
  "value_bool ob k d = (case map_of ob k of None \<Rightarrow> Some d | Some j \<Rightarrow> from_json_bool j)"

section \<open>The execute request\<close>

record exec_req =
  er_module_id :: string
  er_capability :: string
  er_risk_level :: u32
  er_approved :: bool
  er_caller :: string
  er_command :: string

definition clamp_risk :: "int \<Rightarrow> int" where
  "clamp_risk risk = (if risk < 0 then 100 else if risk > 100 then 100 else risk)"

definition parse_execute_object :: "json_lib \<Rightarrow> (string \<times> json) list \<Rightarrow> exec_req option" where
  "parse_execute_object lib ob =
    (case (value_string ob ''moduleId'' [], value_string ob ''capability'' [], value_string ob ''caller'' [],
           value_string ob ''command'' [], value_int lib ob ''riskLevel'' 100, value_bool ob ''approved'' False) of
       (Some m, Some c, Some cl, Some cmd, Some risk, Some ap) \<Rightarrow>
         if cmd = [] then None
         else if m = [] then None
         else if c = [] then None
         else if cl = [] then None
         else Some \<lparr>er_module_id = m, er_capability = c, er_risk_level = word_of_int (clamp_risk risk),
           er_approved = ap, er_caller = cl, er_command = cmd\<rparr>
     | _ \<Rightarrow> None)"

definition parse_execute_request :: "json_lib \<Rightarrow> string \<Rightarrow> exec_req option" where
  "parse_execute_request lib body = (case jl_parse body of
      None \<Rightarrow> None
    | Some j \<Rightarrow> (case j of JObject ob \<Rightarrow> parse_execute_object lib ob | _ \<Rightarrow> None))"

section \<open>Responses\<close>

text \<open>Each response is built by assignments \<open>j["key"] = value\<close> to a value that starts as null.\<close>

definition exec_json :: "bool \<Rightarrow> int \<Rightarrow> string \<Rightarrow> string \<Rightarrow> json" where
  "exec_json success exit_code out err =
     JObject (mk_obj [(''success'', JBool success), (''exit_code'', JInt exit_code),
       (''stdout'', JString out), (''stderr'', JString err)])"

definition make_exec_response :: "json_lib \<Rightarrow> bool \<Rightarrow> int \<Rightarrow> string \<Rightarrow> string \<Rightarrow> string option" where
  "make_exec_response lib success exit_code out err = jl_dump lib (exec_json success exit_code out err)"

definition error_json :: "string \<Rightarrow> string \<Rightarrow> json" where
  "error_json err reason = JObject (mk_obj [(''error'', JString err), (''reason'', JString reason)])"

definition make_error_response :: "json_lib \<Rightarrow> string \<Rightarrow> string \<Rightarrow> string option" where
  "make_error_response lib err reason = jl_dump lib (error_json err reason)"

definition audit_entry :: "string \<Rightarrow> json" where
  "audit_entry line = (case jl_parse line of Some j \<Rightarrow> j | None \<Rightarrow> JString line)"

definition audit_json :: "string \<Rightarrow> json" where
  "audit_json raw = JArray (map audit_entry (filter (\<lambda>l. l \<noteq> []) (getlines raw)))"

definition make_audit_array :: "json_lib \<Rightarrow> string \<Rightarrow> string option" where
  "make_audit_array lib raw = jl_dump lib (audit_json raw)"

definition ping_json :: "string \<Rightarrow> int \<Rightarrow> json" where
  "ping_json version uptime =
     JObject (mk_obj [(''status'', JString ''ok''), (''version'', JString version), (''uptime_ms'', JInt uptime)])"

definition make_ping_response :: "json_lib \<Rightarrow> string \<Rightarrow> int \<Rightarrow> string option" where
  "make_ping_response lib version uptime = jl_dump lib (ping_json version uptime)"

record capability_info =
  ci_available :: bool
  ci_source :: string

definition make_capability_bools :: "json_lib \<Rightarrow> (string \<times> bool) list \<Rightarrow> string option" where
  "make_capability_bools lib caps =
     jl_dump lib (JObject (mk_obj [(''capabilities'', JObject (mk_obj (map (\<lambda>(k, v). (k, JBool v)) caps))),
       (''count'', JInt (int (length caps)))]))"

definition capability_json :: "(string \<times> capability_info) list \<Rightarrow> json" where
  "capability_json caps =
     JObject (mk_obj [(''capabilities'', JObject (mk_obj (map (\<lambda>(k, ci).
         (k, JObject (mk_obj [(''available'', JBool (ci_available ci)), (''source'', JString (ci_source ci))]))) caps))),
       (''count'', JInt (int (length caps)))])"

definition make_capability_response :: "json_lib \<Rightarrow> (string \<times> capability_info) list \<Rightarrow> string option" where
  "make_capability_response lib caps = jl_dump lib (capability_json caps)"

record provider_info =
  pi_id :: string
  pi_name :: string
  pi_detected :: bool
  pi_available :: bool
  pi_version :: string
  pi_source :: string

definition providers_json :: "provider_info list \<Rightarrow> json" where
  "providers_json ps =
     JObject (mk_obj [(''providers'', JArray (map (\<lambda>p.
         JObject (mk_obj [(''id'', JString (pi_id p)), (''name'', JString (pi_name p)), (''detected'', JBool (pi_detected p)),
           (''available'', JBool (pi_available p)), (''version'', JString (pi_version p)),
           (''source'', JString (pi_source p))])) ps)),
       (''count'', JInt (int (length ps)))])"

definition make_providers_response :: "json_lib \<Rightarrow> provider_info list \<Rightarrow> string option" where
  "make_providers_response lib ps = jl_dump lib (providers_json ps)"

text \<open>With no entries the value is never made an object: the response is the text \<open>null\<close>.\<close>

definition make_kv_response :: "json_lib \<Rightarrow> (string \<times> string) list \<Rightarrow> string option" where
  "make_kv_response lib kv =
     jl_dump lib (if kv = [] then JNull else JObject (mk_obj (map (\<lambda>(k, v). (k, JString v)) kv)))"

section \<open>Responses can be written and are read back\<close>

lemma map_of_mk_obj: "map_of (mk_obj kvs) k = map_of (rev kvs) k"
proof (induction kvs rule: rev_induct)
  case (snoc kv kvs)
  then show ?case by (cases kv) (simp add: mk_obj_def)
qed (simp add: mk_obj_def)

lemma mk_obj_sorted_keys: "obj_sorted (mk_obj kvs)"
proof (induction kvs rule: rev_induct)
  case (snoc kv kvs)
  then show ?case by (cases kv) (simp add: mk_obj_def obj_sorted_set)
qed (simp add: mk_obj_def)

lemma mk_obj_set:
  assumes "distinct (map fst kvs)"
  shows "set (mk_obj kvs) = set kvs"
proof -
  have "distinct (map fst (mk_obj kvs))"
    using mk_obj_sorted_keys [of kvs] strict_sorted_iff by (auto simp: obj_sorted_def)
  then have "kv \<in> set (mk_obj kvs) \<longleftrightarrow> map_of (mk_obj kvs) (fst kv) = Some (snd kv)" for kv
    by (cases kv) simp
  moreover have "kv \<in> set kvs \<longleftrightarrow> map_of (rev kvs) (fst kv) = Some (snd kv)" for kv
    using assms map_of_eq_Some_iff [of "rev kvs" "fst kv" "snd kv"] by (simp add: rev_map [symmetric])
  ultimately show ?thesis by (auto simp: map_of_mk_obj)
qed

text \<open>An object of distinct keys is well-formed exactly when its entries are.\<close>

lemma mk_obj_ok_iff [simp]:
  "distinct (map fst kvs) \<Longrightarrow> json_ok (JObject (mk_obj kvs)) \<longleftrightarrow> (\<forall>kv\<in>set kvs. utf8 (fst kv) \<and> json_ok (snd kv))"
  by (simp add: mk_obj_sorted_keys mk_obj_set)

lemma mk_obj_typed [simp]:
  "distinct (map fst kvs) \<Longrightarrow> json_typed (JObject (mk_obj kvs)) \<longleftrightarrow> (\<forall>kv\<in>set kvs. json_typed (snd kv))"
  by (simp add: mk_obj_sorted_keys mk_obj_set)

lemma mk_obj_float [simp]:
  "distinct (map fst kvs) \<Longrightarrow> has_float (JObject (mk_obj kvs)) \<longleftrightarrow> (\<exists>kv\<in>set kvs. has_float (snd kv))"
  by (simp add: mk_obj_set)

declare json_ok.simps(7) [simp del] json_typed.simps(7) [simp del] has_float.simps(3) [simp del]

lemma jl_dump_None: "json_typed v \<Longrightarrow> jl_dump lib v = None \<longleftrightarrow> \<not> json_ok v"
  using dump_fails_iff [of v "jl_float lib"] by (cases "json_dump (jl_float lib) v") (auto simp: jl_dump_def)

lemma jl_round:
  assumes "jl_dump lib v = Some w" "json_typed v" "\<not> has_float v"
  shows "jl_parse w = Some v"
proof -
  have "json_ok v" using assms(1) jl_dump_None [OF assms(2), of lib] by simp
  moreover have "json_dump (jl_float lib) v = Inr w" using assms(1) by (simp add: jl_dump_def split: sum.splits)
  ultimately show ?thesis
    using dump_parse [of v "CHR '' ''" None "jl_float lib" False False] assms(3)
    by (simp add: json_dump_def jl_parse_def json_parse_def json_ws_def)
qed

lemma utf8_ascii_string: "list_all (\<lambda>c. byte_of c < 0x80) s \<Longrightarrow> utf8 s"
  using ascii_utf8 by (simp add: ascii_def)

section \<open>Properties\<close>

lemma to_int32_mod: "to_int32 i = (i + 2 ^ 31) mod 2 ^ 32 - 2 ^ 31"
  by (simp add: to_int32_def signed_of_int signed_take_bit_eq_take_bit_shift take_bit_eq_mod)

lemma clamp_risk_bounds: "0 \<le> clamp_risk r \<and> clamp_risk r \<le> 100"
  by (simp add: clamp_risk_def)

lemma unat_clamp: "unat (word_of_int (clamp_risk r) :: u32) = nat (clamp_risk r)"
  using clamp_risk_bounds [of r] by (simp add: unat_eq_nat_uint unsigned_of_int take_bit_int_eq_self)

text \<open>
  Execute requests fail safe: what parses has a non-empty module, capability, caller
  and command and a risk of at most 100; a request that names no risk level gets 100, one
  that names no approval is not approved; and text that is not a JSON object is refused.
\<close>

theorem execute_request_fail_safe:
  assumes "jl_parse body = Some j" and "parse_execute_request lib body = Some r"
  shows "(\<exists>ob. j = JObject ob \<and>
      (map_of ob ''riskLevel'' = None \<longrightarrow> er_risk_level r = 100) \<and>
      (map_of ob ''approved'' = None \<longrightarrow> \<not> er_approved r) \<and>
      map_of ob ''command'' = Some (JString (er_command r))) \<and>
    er_module_id r \<noteq> [] \<and> er_capability r \<noteq> [] \<and> er_caller r \<noteq> [] \<and> er_command r \<noteq> [] \<and>
    unat (er_risk_level r) \<le> 100"
proof -
  from assms obtain ob where ob: "j = JObject ob" "parse_execute_object lib ob = Some r"
    by (auto simp: parse_execute_request_def split: json.splits)
  from ob(2) obtain m c cl cmd risk ap where v:
    "value_string ob ''command'' [] = Some cmd" "value_int lib ob ''riskLevel'' 100 = Some risk"
    "value_bool ob ''approved'' False = Some ap" "cmd \<noteq> []" "m \<noteq> []" "c \<noteq> []" "cl \<noteq> []"
    and r: "r = \<lparr>er_module_id = m, er_capability = c, er_risk_level = word_of_int (clamp_risk risk),
           er_approved = ap, er_caller = cl, er_command = cmd\<rparr>"
    by (auto simp: parse_execute_object_def split: option.splits if_splits)
  have "unat (word_of_int (clamp_risk risk) :: u32) \<le> 100"
    using clamp_risk_bounds [of risk] by (simp add: unat_clamp nat_le_iff)
  moreover have "map_of ob ''command'' = Some (JString cmd)"
    using v(1,4) by (auto simp: value_string_def split: option.splits json.splits)
  moreover have "map_of ob ''riskLevel'' = None \<Longrightarrow> clamp_risk risk = 100"
    using v(2) by (simp add: value_int_def clamp_risk_def)
  moreover have "map_of ob ''approved'' = None \<Longrightarrow> \<not> ap"
    using v(3) by (simp add: value_bool_def)
  ultimately show ?thesis using ob(1) r v(4-7) by simp
qed

definition toy_object :: json where
  "toy_object = JObject (mk_obj [(''moduleId'', JString ''m''), (''capability'', JString ''ROOT_ACCESS''),
     (''caller'', JString ''app''), (''command'', JString ''id'')])"

definition toy_lib :: json_lib where
  "toy_lib = \<lparr>jl_float = id, jl_trunc = (\<lambda>s. 0)\<rparr>"

definition toy_body :: string where
  "toy_body = the (jl_dump toy_lib toy_object)"

definition toy_req :: exec_req where
  "toy_req = \<lparr>er_module_id = ''m'', er_capability = ''ROOT_ACCESS'', er_risk_level = 100, er_approved = False,
     er_caller = ''app'', er_command = ''id''\<rparr>"

lemma toy_body_parse: "jl_parse toy_body = Some toy_object"
proof -
  have t: "json_typed toy_object" "json_ok toy_object" "\<not> has_float toy_object"
    by (simp_all add: toy_object_def utf8_ascii_string)
  then have "jl_dump toy_lib toy_object = Some toy_body" using jl_dump_None [OF t(1), of toy_lib] by (auto simp: toy_body_def)
  then show ?thesis using jl_round t by blast
qed

lemma toy_parse: "parse_execute_request toy_lib toy_body = Some toy_req"
  by (simp add: parse_execute_request_def toy_body_parse, simp add: toy_object_def parse_execute_object_def
      value_string_def value_int_def value_bool_def clamp_risk_def toy_req_def map_of_mk_obj)

theorem execute_request_fail_safe_witness:
  "(\<exists>ob. toy_object = JObject ob \<and>
      (map_of ob ''riskLevel'' = None \<longrightarrow> er_risk_level toy_req = 100) \<and>
      (map_of ob ''approved'' = None \<longrightarrow> \<not> er_approved toy_req) \<and>
      map_of ob ''command'' = Some (JString (er_command toy_req))) \<and>
    er_module_id toy_req \<noteq> [] \<and> er_capability toy_req \<noteq> [] \<and> er_caller toy_req \<noteq> [] \<and>
    er_command toy_req \<noteq> [] \<and> unat (er_risk_level toy_req) \<le> 100"
  by (rule execute_request_fail_safe [of toy_body toy_object toy_lib]) (simp_all add: toy_parse toy_body_parse)

text \<open>
  The clamp of the risk level comes after a conversion to 32 bits: a request whose
  risk level is a multiple of 2^32 plus a small number is taken as that small number, so
  the maximal risk the clamp should give becomes the lowest.
\<close>

theorem risk_level_truncated:
  assumes "map_of ob ''riskLevel'' = Some (JInt (2 ^ 32 * n + int k))" and "k \<le> 100"
    and "parse_execute_object lib ob = Some r"
  shows "unat (er_risk_level r) = k"
proof -
  have "to_int32 (2 ^ 32 * n + int k) = (2 ^ 32 * n + (int k + 2 ^ 31)) mod 2 ^ 32 - 2 ^ 31"
    by (simp only: to_int32_mod add.assoc)
  also have "\<dots> = (int k + 2 ^ 31) mod 2 ^ 32 - 2 ^ 31" by (simp only: mod_mult_self4)
  also have "\<dots> = int k" using assms(2) by simp
  finally have "to_int32 (2 ^ 32 * n + int k) = int k" .
  moreover have "unat (word_of_nat k :: u32) = k" using assms(2) by (simp add: unat_of_nat)
  ultimately show ?thesis
    using assms by (auto simp: parse_execute_object_def value_int_def unat_clamp clamp_risk_def
        split: option.splits if_splits)
qed

definition big_risk_object :: "(string \<times> json) list" where
  "big_risk_object = [(''moduleId'', JString ''m''), (''capability'', JString ''ROOT_ACCESS''),
     (''caller'', JString ''app''), (''command'', JString ''id''), (''riskLevel'', JInt (2 ^ 32 * 1 + int 0))]"

theorem risk_level_truncated_witness:
  "unat (er_risk_level (the (parse_execute_object toy_lib big_risk_object))) = 0"
proof (rule risk_level_truncated [of big_risk_object 1 0 toy_lib])
  show "map_of big_risk_object ''riskLevel'' = Some (JInt (2 ^ 32 * 1 + int 0))"
    by (simp add: big_risk_object_def)
  show "parse_execute_object toy_lib big_risk_object = Some (the (parse_execute_object toy_lib big_risk_object))"
    by (simp add: parse_execute_object_def value_string_def value_int_def value_bool_def big_risk_object_def)
qed simp


section \<open>Responses that cannot be written\<close>

lemma exec_ok:
  assumes "- (2 ^ 31) \<le> code" "code < 2 ^ 31"
  shows "make_exec_response lib ok code out err = None \<longleftrightarrow> \<not> (utf8 out \<and> utf8 err)"
proof -
  have "json_typed (exec_json ok code out err)" "json_ok (exec_json ok code out err) \<longleftrightarrow> utf8 out \<and> utf8 err"
    using assms by (auto simp: exec_json_def utf8_ascii_string)
  then show ?thesis using jl_dump_None by (simp add: make_exec_response_def)
qed

text \<open>
  A command's output decides whether its response can be written: \<open>dump\<close> throws exactly when
  the output or the error text is not UTF-8; when it does not throw, the client that parses the
  response finds the success flag, the exit code and both texts byte for byte.
\<close>

theorem exec_response_roundtrip:
  assumes "- (2 ^ 31) \<le> code" "code < 2 ^ 31"
  shows "(make_exec_response lib ok code out err = None \<longleftrightarrow> \<not> (utf8 out \<and> utf8 err)) \<and>
    (\<forall>w. make_exec_response lib ok code out err = Some w \<longrightarrow>
      (\<exists>ob. jl_parse w = Some (JObject ob) \<and> map_of ob ''success'' = Some (JBool ok) \<and>
        map_of ob ''exit_code'' = Some (JInt code) \<and> map_of ob ''stdout'' = Some (JString out) \<and>
        map_of ob ''stderr'' = Some (JString err)))"
proof -
  have t: "json_typed (exec_json ok code out err)" "\<not> has_float (exec_json ok code out err)"
    using assms by (auto simp: exec_json_def)
  have "jl_parse w = Some (exec_json ok code out err)" if "make_exec_response lib ok code out err = Some w" for w
    using that jl_round t(1,2) by (simp add: make_exec_response_def)
  then show ?thesis
    using exec_ok [OF assms] by (auto simp: exec_json_def map_of_mk_obj)
qed

theorem exec_response_roundtrip_witness:
  "(make_exec_response toy_lib True 0 ''uid=0'' [] = None \<longleftrightarrow> \<not> (utf8 ''uid=0'' \<and> utf8 [])) \<and>
    (\<forall>w. make_exec_response toy_lib True 0 ''uid=0'' [] = Some w \<longrightarrow>
      (\<exists>ob. jl_parse w = Some (JObject ob) \<and> map_of ob ''success'' = Some (JBool True) \<and>
        map_of ob ''exit_code'' = Some (JInt 0) \<and> map_of ob ''stdout'' = Some (JString ''uid=0'') \<and>
        map_of ob ''stderr'' = Some (JString [])))"
  by (rule exec_response_roundtrip [of 0]) simp_all

text \<open>The other responses throw exactly when one of their texts is not UTF-8.\<close>

lemma ping_ok: "- (2 ^ 63) \<le> up \<Longrightarrow> up < 2 ^ 63 \<Longrightarrow> make_ping_response lib v up = None \<longleftrightarrow> \<not> utf8 v"
proof -
  assume "- (2 ^ 63) \<le> up" "up < 2 ^ 63"
  then have "json_typed (ping_json v up)" "json_ok (ping_json v up) \<longleftrightarrow> utf8 v"
    by (auto simp: ping_json_def utf8_ascii_string)
  then show ?thesis using jl_dump_None by (simp add: make_ping_response_def)
qed

lemma error_ok: "make_error_response lib err reason = None \<longleftrightarrow> \<not> (utf8 err \<and> utf8 reason)"
proof -
  have "json_typed (error_json err reason)" "json_ok (error_json err reason) \<longleftrightarrow> utf8 err \<and> utf8 reason"
    by (auto simp: error_json_def utf8_ascii_string)
  then show ?thesis using jl_dump_None by (simp add: make_error_response_def)
qed

lemma providers_ok:
  assumes "length ps < 2 ^ 63"
  shows "make_providers_response lib ps = None \<longleftrightarrow>
    \<not> (\<forall>p\<in>set ps. utf8 (pi_id p) \<and> utf8 (pi_name p) \<and> utf8 (pi_version p) \<and> utf8 (pi_source p))"
proof -
  have "json_typed (providers_json ps)" "json_ok (providers_json ps) \<longleftrightarrow>
      (\<forall>p\<in>set ps. utf8 (pi_id p) \<and> utf8 (pi_name p) \<and> utf8 (pi_version p) \<and> utf8 (pi_source p))"
    using assms by (auto simp: providers_json_def utf8_ascii_string)
  then show ?thesis using jl_dump_None by (simp add: make_providers_response_def)
qed

lemma capability_ok:
  assumes "length caps < 2 ^ 63" "distinct (map fst caps)"
  shows "make_capability_response lib caps = None \<longleftrightarrow> \<not> (\<forall>(k, ci)\<in>set caps. utf8 k \<and> utf8 (ci_source ci))"
proof -
  define f where "f = (\<lambda>(k, ci :: capability_info). (k :: string, JObject (mk_obj [(''available'', JBool (ci_available ci)), (''source'', JString (ci_source ci))])))"
  have "map fst (map f caps) = map fst caps" by (simp add: f_def case_prod_beta comp_def)
  then have d: "distinct (map fst (map f caps))" using assms(2) by (simp only:)
  have f: "json_typed (snd (f c))" "json_ok (snd (f c)) \<longleftrightarrow> utf8 (ci_source (snd c))" "fst (f c) = fst c" for c
    by (simp_all add: f_def case_prod_beta utf8_ascii_string)
  have "json_typed (JObject (mk_obj (map f caps)))"
    "json_ok (JObject (mk_obj (map f caps))) \<longleftrightarrow> (\<forall>c\<in>set caps. utf8 (fst c) \<and> utf8 (ci_source (snd c)))"
    unfolding mk_obj_typed [OF d] mk_obj_ok_iff [OF d] by (simp_all add: f)
  then have "json_typed (capability_json caps)" "json_ok (capability_json caps) \<longleftrightarrow> (\<forall>(k, ci)\<in>set caps. utf8 k \<and> utf8 (ci_source ci))"
    using assms(1) by (auto simp: capability_json_def f_def [symmetric] utf8_ascii_string case_prod_beta)
  then show ?thesis using jl_dump_None by (simp add: make_capability_response_def)
qed

text \<open>A line of the audit file that neither parses nor is UTF-8 makes the whole response fail.\<close>

lemma jl_parse_ok: "jl_parse s = Some v \<Longrightarrow> json_ok v"
  using json_parse_ok by (auto simp: jl_parse_def json_parse_def split: sum.splits)

lemma audit_array_None:
  "make_audit_array lib raw = None \<longleftrightarrow> (\<exists>l\<in>set (getlines raw). l \<noteq> [] \<and> jl_parse l = None \<and> \<not> utf8 l)"
proof -
  have "json_typed (audit_entry l)" "json_ok (audit_entry l) \<longleftrightarrow> jl_parse l \<noteq> None \<or> utf8 l" for l
    using jl_parse_ok json_ok_typed by (auto simp: audit_entry_def split: option.splits)
  then have "json_typed (audit_json raw)"
    "json_ok (audit_json raw) \<longleftrightarrow> (\<forall>l\<in>set (getlines raw). l \<noteq> [] \<longrightarrow> jl_parse l \<noteq> None \<or> utf8 l)"
    by (auto simp: audit_json_def)
  then show ?thesis using jl_dump_None by (auto simp: make_audit_array_def)
qed

end
