(* ===== verification/Daemon.thy ===== *)
theory Daemon
  imports Module Provider Probes JsonCodec Logging Framing
begin

text \<open>
  The daemon itself (daemon/src/main.cpp): its state, start-up, and the request handler
  that dispatches on the first payload byte, one definition per request type; with the
  command executor (executor/command_executor.cpp) and, for the policy the daemon is linked
  with, the Rust decision function (rust/src/execution_policy.rs and ffi.rs). A handler
  returns None when an exception leaves it: nothing catches it, and the process ends.
\<close>

section \<open>The command executor\<close>

record exec_result =
  ex_exit_code :: int
  ex_stdout :: string
  ex_stderr :: string

definition status_exit_code :: "int \<Rightarrow> int" where
  "status_exit_code raw =
    (if wifexited raw then wexitstatus raw
     else if wifsignaled raw then 128 + wtermsig raw
     else -1)"

definition executor_execute :: "host \<Rightarrow> string \<Rightarrow> exec_result" where
  "executor_execute h cmd = (case h_popen h (c_str (cmd @ '' 2>&1'')) of
      None \<Rightarrow> \<lparr>ex_exit_code = -1, ex_stdout = [], ex_stderr = []\<rparr>
    | Some (out, raw) \<Rightarrow> \<lparr>ex_exit_code = status_exit_code raw, ex_stdout = out, ex_stderr = []\<rparr>)"

definition execute_as_root :: "string \<Rightarrow> exec_result" where
  "execute_as_root cmd = \<lparr>ex_exit_code = -1, ex_stdout = [],
     ex_stderr = ''execute_as_root not yet implemented (no provider wired up)''\<rparr>"

lemma status_exit_code_range: "-1 \<le> status_exit_code raw \<and> status_exit_code raw < 256"
  using wexitstatus_bounds [of raw] wtermsig_bounds [of raw]
  by (auto simp: status_exit_code_def wifsignaled_def)

section \<open>The Rust policy engine\<close>

text \<open>\<open>evaluate\<close>, and the numbering of ffi.rs.\<close>

datatype policy_decision = Allow | Deny | RequireApproval

definition evaluate :: "u32 \<Rightarrow> bool \<Rightarrow> policy_decision" where
  "evaluate risk approved =
    (if risk \<ge> 80 then RequireApproval else if \<not> approved then Deny else Allow)"

fun decision_code :: "policy_decision \<Rightarrow> int" where
  "decision_code Allow = 0"
| "decision_code Deny = 1"
| "decision_code RequireApproval = 2"

definition rust_ffi :: policy_ffi where
  "rust_ffi = \<lparr>policy_is_available = 1, policy_check = decision_code (evaluate 0 True),
     policy_check_with = (\<lambda>m c risk ap. decision_code (evaluate risk ap))\<rparr>"

section \<open>State and environment\<close>

text \<open>What one request finds outside the daemon's own state.\<close>

record daemon_env =
  e_host :: host
  e_json :: json_lib
  e_policy :: policy_ffi
  e_uptime :: int
  e_now_iso :: string
  e_timestamp :: string
  e_audit_writable :: bool

text \<open>
  The daemon's state. The audit file is part of it; the log ring is not (every log call of
  every component feeds it).
\<close>

record daemon =
  d_version :: string
  d_provider :: "root_provider option"
  d_matrix :: capability_matrix
  d_modules :: "avm_module list"
  d_db :: permission_db
  d_audit :: string
  d_active_provider :: string
  d_provider_online :: bool

text \<open>
  \<open>main\<close> up to the accept loop, None when an exception ends the process; \<open>file\<close> is the audit file found on disk.
\<close>

definition daemon_init :: "host \<Rightarrow> rkernel \<Rightarrow> world \<Rightarrow> string \<Rightarrow> daemon option" where
  "daemon_init h k w file = (case manager_initialize h k w of
      None \<Rightarrow> None
    | Some (p, w1) \<Rightarrow> (case detect h (Some p) of
          None \<Rightarrow> None
        | Some mx \<Rightarrow>
            Some \<lparr>d_version = ''0.1.0'', d_provider = Some p, d_matrix = mx, d_modules = [], d_db = Map.empty,
              d_audit = file, d_active_provider = ''none'', d_provider_online = False\<rparr>))"

lemma daemon_init_fields:
  "daemon_init h k w file = Some d \<Longrightarrow>
     d_version d = ''0.1.0'' \<and> d_db d = Map.empty \<and> d_audit d = file \<and> d_modules d = [] \<and>
     (\<exists>p w1. manager_initialize h k w = Some (p, w1) \<and> d_provider d = Some p)"
  by (auto simp: daemon_init_def split: option.splits)

type_synonym reply = "(string \<times> daemon) option"

text \<open>A response of the JSON library, which may throw, leaving the state as it is by then.\<close>

definition with_state :: "string option \<Rightarrow> daemon \<Rightarrow> reply" where
  "with_state r d = (case r of None \<Rightarrow> None | Some s \<Rightarrow> Some (s, d))"

section \<open>The requests\<close>

definition handle_get_capability :: "daemon_env \<Rightarrow> daemon \<Rightarrow> string \<Rightarrow> reply" where
  "handle_get_capability e d body =
    with_state (make_capability_response (e_json e)
      (map (\<lambda>(k, p). (k, \<lparr>ci_available = pr_available p, ci_source = pr_source p\<rparr>)) (probes_all (e_host e)))) d"

definition info_of :: "provider_detect \<Rightarrow> provider_info" where
  "info_of p = \<lparr>pi_id = pd_id p, pi_name = pd_name p, pi_detected = pd_detected p, pi_available = pd_available p,
     pi_version = pd_version p, pi_source = pd_source p\<rparr>"

definition handle_get_provider :: "daemon_env \<Rightarrow> daemon \<Rightarrow> string \<Rightarrow> reply" where
  "handle_get_provider e d body =
    (let detects = providers_all (e_host e)
     in case make_providers_response (e_json e) (map info_of detects) of
          None \<Rightarrow> None
        | Some s \<Rightarrow>
            (let active = (case find pd_available detects of None \<Rightarrow> ''none'' | Some p \<Rightarrow> pd_id p)
             in Some (s, d\<lparr>d_active_provider := active, d_provider_online := (active \<noteq> ''none'')\<rparr>)))"

text \<open>
  The guards of Execute, in order: the parsed request or the error response (code and
  reason); None when the test of the provider throws.
\<close>

definition execute_gate :: "daemon_env \<Rightarrow> daemon \<Rightarrow> string \<Rightarrow> ((string \<times> string) + exec_req) option" where
  "execute_gate e d body =
    (case parse_execute_request (e_json e) body of
       None \<Rightarrow> Some (Inl (''bad_request'',
         ''malformed or incomplete execute request (need moduleId/capability/riskLevel/approved/caller/command)''))
     | Some r \<Rightarrow> (case can_execute (e_host e) (d_provider d) (er_command r) of
           None \<Rightarrow> None
         | Some can \<Rightarrow>
             if \<not> can
             then Some (Inl (''permission_denied'', ''no active root provider''))
             else
               (case bridge_check_with (e_policy e) (er_module_id r) (er_capability r) (er_risk_level r) (er_approved r) of
                  DENY \<Rightarrow> Some (Inl (''policy_denied'',
                    ''Rust policy denied execution for module '' @ [CHR 0x27] @ er_module_id r @ [CHR 0x27] @
                    '' capability '' @ [CHR 0x27] @ er_capability r @ [CHR 0x27]))
                | APPROVAL \<Rightarrow> Some (Inl (''approval_required'', ''execution requires user approval''))
                | ALLOW \<Rightarrow> Some (Inr r))))"

definition handle_execute :: "daemon_env \<Rightarrow> daemon \<Rightarrow> string \<Rightarrow> reply" where
  "handle_execute e d body =
    (case execute_gate e d body of
       None \<Rightarrow> None
     | Some (Inl (code, reason)) \<Rightarrow> with_state (make_error_response (e_json e) code reason) d
     | Some (Inr r) \<Rightarrow>
         (let res = executor_execute (e_host e) (er_command r)
          in with_state (make_exec_response (e_json e) (ex_exit_code res = 0) (ex_exit_code res)
               (ex_stdout res) (ex_stderr res)) d))"

definition handle_ping :: "daemon_env \<Rightarrow> daemon \<Rightarrow> string \<Rightarrow> reply" where
  "handle_ping e d body = with_state (make_ping_response (e_json e) (d_version d) (e_uptime e)) d"

definition handle_get_matrix :: "daemon_env \<Rightarrow> daemon \<Rightarrow> string \<Rightarrow> reply" where
  "handle_get_matrix e d body = (case detect (e_host e) (d_provider d) of
      None \<Rightarrow> None
    | Some mx \<Rightarrow> Some (matrix_json mx, d\<lparr>d_matrix := mx\<rparr>))"

definition handle_install :: "daemon_env \<Rightarrow> daemon \<Rightarrow> string \<Rightarrow> reply" where
  \<open>handle_install e d body =
    (let (ok, ms) = module_install (d_modules d) body
     in Some (if ok then ''{"installed":true}'' else ''{"installed":false,"error":"install_failed"}'',
          d\<lparr>d_modules := ms\<rparr>))\<close>

definition handle_remove :: "daemon_env \<Rightarrow> daemon \<Rightarrow> string \<Rightarrow> reply" where
  \<open>handle_remove e d body =
    (let (ok, ms) = module_remove (d_modules d) body
     in Some (if ok then ''{"removed":true}'' else ''{"removed":false,"error":"not_found"}'',
          d\<lparr>d_modules := ms\<rparr>))\<close>

definition handle_start :: "daemon_env \<Rightarrow> daemon \<Rightarrow> string \<Rightarrow> reply" where
  \<open>handle_start e d body =
    (let started = (case find_module (module_list (d_modules d)) body of
           None \<Rightarrow> False
         | Some m \<Rightarrow> runtime_start (d_matrix d) m)
     in Some (if started then ''{"started":true}'' else ''{"started":false,"error":"denied_or_not_found"}'', d))\<close>

definition handle_stop :: "daemon_env \<Rightarrow> daemon \<Rightarrow> string \<Rightarrow> reply" where
  \<open>handle_stop e d body =
    Some (if runtime_stop body then ''{"stopped":true}'' else ''{"stopped":false}'', d)\<close>

definition module_json :: "avm_module \<Rightarrow> string" where
  \<open>module_json m =
    ''{"id":"'' @ json_escape (mf_id (md_manifest m)) @ ''"''
    @ '',"name":"'' @ json_escape (mf_name (md_manifest m)) @ ''"''
    @ '',"version":"'' @ json_escape (mf_version (md_manifest m)) @ ''"''
    @ '',"path":"'' @ json_escape (md_path m) @ ''"}''\<close>

definition handle_list :: "daemon_env \<Rightarrow> daemon \<Rightarrow> string \<Rightarrow> reply" where
  "handle_list e d body =
    Some (''['' @ comma_sep (map module_json (module_list (d_modules d))) @ '']'', d)"

definition audited :: "daemon_env \<Rightarrow> daemon \<Rightarrow> string \<Rightarrow> string \<Rightarrow> bool \<Rightarrow> daemon" where
  "audited e d module action res =
    d\<lparr>d_audit := snd (audit_log (e_audit_writable e) (e_timestamp e) ([], d_audit d) (e_now_iso e) module action res)\<rparr>"

definition handle_query :: "daemon_env \<Rightarrow> daemon \<Rightarrow> string \<Rightarrow> reply" where
  \<open>handle_query e d body = (case split_at_colon body of
      None \<Rightarrow> Some (''{"granted":false,"message":"bad request"}'', d)
    | Some (m, perm_name) \<Rightarrow> (case permission_from_name perm_name of
          None \<Rightarrow> Some (''{"granted":false,"message":"unknown permission"}'', d)
        | Some perm \<Rightarrow>
            (let ok = authorize (d_db d) (d_matrix d)
                  \<lparr>req_module_id = m, req_permission = perm, req_reason = []\<rparr>
             in Some (if ok then ''{"granted":true,"message":"allow"}'' else ''{"granted":false,"message":"denied"}'',
                  audited e d m perm_name ok))))\<close>

definition handle_grant :: "daemon_env \<Rightarrow> daemon \<Rightarrow> string \<Rightarrow> reply" where
  \<open>handle_grant e d body = (case split_at_colon body of
      None \<Rightarrow> Some (''{"granted":false}'', d)
    | Some (m, perm_name) \<Rightarrow> (case permission_from_name perm_name of
          None \<Rightarrow> Some (''{"granted":false}'', d)
        | Some perm \<Rightarrow>
            (let (ok, db) = engine_grant (d_db d) m perm
             in Some (if ok then ''{"granted":true}'' else ''{"granted":false}'',
                  audited e (d\<lparr>d_db := db\<rparr>) m (''GRANT:'' @ perm_name) ok))))\<close>

definition handle_revoke :: "daemon_env \<Rightarrow> daemon \<Rightarrow> string \<Rightarrow> reply" where
  \<open>handle_revoke e d body = (case split_at_colon body of
      None \<Rightarrow> Some (''{"revoked":false}'', d)
    | Some (m, perm_name) \<Rightarrow> (case permission_from_name perm_name of
          None \<Rightarrow> Some (''{"revoked":false}'', d)
        | Some perm \<Rightarrow>
            (let (ok, db) = engine_revoke (d_db d) m perm
             in Some (if ok then ''{"revoked":true}'' else ''{"revoked":false}'',
                  audited e (d\<lparr>d_db := db\<rparr>) m (''REVOKE:'' @ perm_name) ok))))\<close>

definition handle_risk :: "daemon_env \<Rightarrow> daemon \<Rightarrow> string \<Rightarrow> reply" where
  \<open>handle_risk e d body = (case find_module (module_list (d_modules d)) body of
      None \<Rightarrow> Some (''{"error":"not_found"}'', d)
    | Some m \<Rightarrow>
        Some (''{"module":"'' @ json_escape body @ ''","risk":'' @ dec_int (risk_calculate (md_manifest m)) @
          '',"level":"'' @ risk_level (md_manifest m) @ ''"}'', d))\<close>

text \<open>The lines of the audit file, each given its newline back, and then the JSON array.\<close>

definition handle_audit :: "daemon_env \<Rightarrow> daemon \<Rightarrow> string \<Rightarrow> reply" where
  "handle_audit e d body =
    with_state (make_audit_array (e_json e) (concat (map (\<lambda>l. l @ [nl]) (getlines (d_audit d))))) d"

definition handle_unknown :: "daemon_env \<Rightarrow> daemon \<Rightarrow> string \<Rightarrow> reply" where
  "handle_unknown e d body =
    with_state (make_error_response (e_json e) ''unknown_request_type'' ''unrecognized type byte'') d"

section \<open>Dispatch\<close>

definition dispatch :: "byte \<Rightarrow> daemon_env \<Rightarrow> daemon \<Rightarrow> string \<Rightarrow> reply" where
  "dispatch type =
    (if type = 0x01 then handle_get_capability
     else if type = 0x02 then handle_get_provider
     else if type = 0x03 then handle_execute
     else if type = 0x04 then handle_ping
     else if type = 0x05 then handle_get_matrix
     else if type = 0x06 then handle_install
     else if type = 0x07 then handle_remove
     else if type = 0x08 then handle_start
     else if type = 0x09 then handle_stop
     else if type = 0x0A then handle_list
     else if type = 0x0B then handle_query
     else if type = 0x0C then handle_grant
     else if type = 0x0D then handle_revoke
     else if type = 0x0E then handle_risk
     else if type = 0x0F then handle_audit
     else handle_unknown)"

definition handler :: "daemon_env \<Rightarrow> daemon \<Rightarrow> byte list \<Rightarrow> (byte list \<times> daemon) option" where
  "handler e d req = (case req of
      [] \<Rightarrow> Some ([], d)
    | t # rest \<Rightarrow> (case dispatch t e d (str_of_bytes rest) of
          None \<Rightarrow> None
        | Some (json, d') \<Rightarrow> Some (t # bytes_of_str json, d')))"

section \<open>What requests do to the state\<close>

lemma with_state_Some [simp]: "with_state r d = Some (s, d') \<longleftrightarrow> r = Some s \<and> d' = d"
  by (auto simp: with_state_def split: option.splits)

lemma with_state_None [simp]: "with_state r d = None \<longleftrightarrow> r = None"
  by (simp add: with_state_def split: option.splits)

lemmas handle_defs = handle_get_capability_def handle_get_provider_def handle_execute_def handle_ping_def
  handle_get_matrix_def handle_install_def handle_remove_def handle_start_def handle_stop_def handle_list_def
  handle_query_def handle_grant_def handle_revoke_def handle_risk_def handle_audit_def handle_unknown_def

text \<open>The permission decision a request asks for: grant or revoke, module and permission.\<close>

definition perm_target :: "byte list \<Rightarrow> (string \<times> permission) option" where
  "perm_target rest = (case split_at_colon (str_of_bytes rest) of
      None \<Rightarrow> None
    | Some (m, n) \<Rightarrow> map_option (Pair m) (permission_from_name n))"

fun perm_op :: "byte list \<Rightarrow> (bool \<times> string \<times> permission) list" where
  "perm_op [] = []"
| "perm_op (t # rest) =
     (if t = 0x0C \<or> t = 0x0D
      then (case perm_target rest of None \<Rightarrow> [] | Some (m, p) \<Rightarrow> [(t = 0x0C, m, p)])
      else [])"

text \<open>Dispatch by the fifteen known bytes or any other.\<close>

lemma dispatch_cases:
  assumes "P 0x01 handle_get_capability" "P 0x02 handle_get_provider" "P 0x03 handle_execute" "P 0x04 handle_ping"
    "P 0x05 handle_get_matrix" "P 0x06 handle_install" "P 0x07 handle_remove" "P 0x08 handle_start"
    "P 0x09 handle_stop" "P 0x0A handle_list" "P 0x0B handle_query" "P 0x0C handle_grant" "P 0x0D handle_revoke"
    "P 0x0E handle_risk" "P 0x0F handle_audit"
    "\<And>t. t \<notin> {0x01, 0x02, 0x03, 0x04, 0x05, 0x06, 0x07, 0x08, 0x09, 0x0A, 0x0B, 0x0C, 0x0D, 0x0E, 0x0F} \<Longrightarrow> P t handle_unknown"
  shows "P t (dispatch t)"
  using assms by (auto simp: dispatch_def)

lemma handler_Cons:
  "handler e d (t # rest) = Some (r, d') \<longleftrightarrow>
     (\<exists>json. dispatch t e d (str_of_bytes rest) = Some (json, d') \<and> r = t # bytes_of_str json)"
  by (auto simp: handler_def split: option.splits)

section \<open>Which requests can throw\<close>

lemma ascii_dec: "ascii (dec n)"
  using dec_digits [of _ n] by (force simp: ascii_def list_all_iff is_digit_def)

lemma ascii_comma_list: "list_all ascii xs \<Longrightarrow> ascii (comma_list xs)"
  by (induction xs rule: comma_list.induct) simp_all

lemma probes_utf8: "\<forall>(k, p)\<in>set (probes_all h). utf8 k \<and> utf8 (pr_source p)"
proof -
  have "\<forall>(k, p)\<in>set (probes_all h). ascii k \<and> ascii (pr_source p)"
    by (simp add: probes_all_def probe_root_def probe_overlayfs_def probe_mount_namespace_def probe_pid_namespace_def
        probe_net_namespace_def probe_selinux_def probe_system_write_def probe_zygisk_def ascii_dec Let_def)
  then show ?thesis using ascii_utf8 by fastforce
qed

lemma detect_with_utf8:
  assumes "ascii pid" "ascii pname" "list_all ascii paths" "ascii label" and p_def: "p = detect_with h pid pname paths cmd label"
  shows "utf8 (pd_id p) \<and> utf8 (pd_name p) \<and> (utf8 (pd_version p) \<longrightarrow> utf8 (pd_source p))"
proof -
  have f: "list_all ascii (filter (h_exists h) paths)" using assms(3) by (auto simp: list_all_iff)
  obtain detected src where c: "check_paths h paths = (detected, src)" by (cases "check_paths h paths")
  then have src: "ascii src"
    using f assms(3) ascii_comma_list by (auto simp: check_paths_def Let_def split: if_splits)
  obtain ok out where r: "run_cmd h cmd = (ok, out)" by (cases "run_cmd h cmd")
  have lab: "ascii (src @ ''; exec '' @ [CHR 0x27] @ label @ [CHR 0x27] @ '' -> '')"
    "ascii (src @ ''; '' @ [CHR 0x27] @ label @ [CHR 0x27] @ '' failed (binary present but not functional)'')"
    using src assms(4) by simp_all
  have "utf8 (first_line out) \<Longrightarrow> utf8 (src @ ''; exec '' @ [CHR 0x27] @ label @ [CHR 0x27] @ '' -> '' @ first_line out)"
    using utf8_append [OF ascii_utf8 [OF lab(1)]] by simp
  then show ?thesis
    using assms(1,2) src ascii_utf8 [OF lab(2)] by (simp add: p_def detect_with_def c r Let_def ascii_utf8)
qed

lemma providers_utf8:
  "(\<forall>p\<in>set (map info_of (providers_all h)). utf8 (pi_id p) \<and> utf8 (pi_name p) \<and> utf8 (pi_version p) \<and> utf8 (pi_source p)) \<longleftrightarrow>
   (\<forall>p\<in>set (providers_all h). utf8 (pd_version p))"
proof -
  have "utf8 (pd_id p) \<and> utf8 (pd_name p) \<and> (utf8 (pd_version p) \<longrightarrow> utf8 (pd_source p))" if "p \<in> set (providers_all h)" for p
  proof -
    have "utf8 (pd_id detect_astraroot) \<and> utf8 (pd_name detect_astraroot) \<and> utf8 (pd_source detect_astraroot)"
      by (simp add: detect_astraroot_def utf8_ascii_string)
    moreover note detect_with_utf8 [OF _ _ _ _ detect_magisk_def [of h]] detect_with_utf8 [OF _ _ _ _ detect_kernelsu_def [of h]]
      detect_with_utf8 [OF _ _ _ _ detect_apatch_def [of h]]
    ultimately show ?thesis using that by (auto simp: providers_all_def)
  qed
  then show ?thesis by (auto simp: info_of_def)
qed

lemma providers_None:
  "make_providers_response lib (map info_of (providers_all h)) = None \<longleftrightarrow>
     (\<exists>p\<in>set (providers_all h). \<not> utf8 (pd_version p))"
proof -
  have "length (map info_of (providers_all h)) < 2 ^ 63" by (simp add: providers_all_def)
  from providers_ok [OF this, of lib] show ?thesis unfolding providers_utf8 by blast
qed

lemma exec_req_utf8: "parse_execute_request lib body = Some r \<Longrightarrow> utf8 (er_module_id r) \<and> utf8 (er_capability r)"
proof -
  assume "parse_execute_request lib body = Some r"
  then obtain ob where ob: "jl_parse body = Some (JObject ob)" "parse_execute_object lib ob = Some r"
    by (auto simp: parse_execute_request_def split: option.splits json.splits)
  have "json_ok (JObject ob)" using jl_parse_ok ob(1) by blast
  then have v: "\<forall>kv\<in>set ob. json_ok (snd kv)" by (simp add: json_ok.simps)
  have "utf8 s" if "value_string ob k [] = Some s" for k s
    using that v by (fastforce simp: value_string_def split: option.splits json.splits dest: map_of_SomeD)
  then show ?thesis using ob(2) by (auto simp: parse_execute_object_def split: option.splits if_splits)
qed

text \<open>The reasons of the refusals are text of the daemon and of the parsed request.\<close>

lemma execute_error_utf8: "execute_gate e d body = Some (Inl (code, reason)) \<Longrightarrow> utf8 code \<and> utf8 reason"
proof -
  assume g: "execute_gate e d body = Some (Inl (code, reason))"
  let ?deny = "\<lambda>m c. ''Rust policy denied execution for module '' @ [CHR 0x27] @ m @ [CHR 0x27] @ '' capability '' @
    [CHR 0x27] @ c @ [CHR 0x27]"
  have deny: "utf8 (?deny m c)" if "utf8 m" "utf8 c" for m c
    by (intro utf8_append that) (simp_all add: utf8_ascii_string)
  show ?thesis
  proof (cases "parse_execute_request (e_json e) body")
    case (Some r)
    then show ?thesis using g deny exec_req_utf8 [OF Some]
      by (auto simp: execute_gate_def utf8_ascii_string split: option.splits if_splits policy_result.splits)
  qed (use g in \<open>auto simp: execute_gate_def utf8_ascii_string\<close>)
qed

lemma gate_None:
  "execute_gate e d body = None \<longleftrightarrow> parse_execute_request (e_json e) body \<noteq> None \<and>
     (\<exists>p path. d_provider d = Some p \<and> marker p = Some path \<and> h_stat_error (e_host e) path)"
proof -
  have "execute_gate e d body = None \<longleftrightarrow> parse_execute_request (e_json e) body \<noteq> None \<and>
     (\<exists>p. d_provider d = Some p \<and> provider_available (e_host e) p = None)"
    by (auto simp: execute_gate_def can_execute_def split: option.splits policy_result.splits)
  then show ?thesis by (auto simp: available_None)
qed

lemma execute_None:
  "handle_execute e d body = None \<longleftrightarrow> execute_gate e d body = None \<or>
    (\<exists>r. execute_gate e d body = Some (Inr r) \<and> \<not> utf8 (ex_stdout (executor_execute (e_host e) (er_command r))))"
proof (cases "execute_gate e d body")
  case (Some g)
  show ?thesis
  proof (cases g)
    case (Inl cr)
    then show ?thesis using Some execute_error_utf8 [of e d body "fst cr" "snd cr"]
      by (cases cr) (simp add: handle_execute_def error_ok)
  next
    case (Inr r)
    let ?res = "executor_execute (e_host e) (er_command r)"
    have "ex_stderr ?res = []" "-1 \<le> ex_exit_code ?res" "ex_exit_code ?res < 256"
      using status_exit_code_range by (auto simp: executor_execute_def split: option.splits)
    then show ?thesis using Some Inr exec_ok [of "ex_exit_code ?res" "e_json e"]
      by (simp add: handle_execute_def Let_def)
  qed
qed (simp add: handle_execute_def)

text \<open>
  The exceptions that leave the request handler (nothing catches them, so each one ends the
  process): a provider whose version text is not UTF-8; a well-formed Execute when \<open>stat\<close> fails on the marker of
  the active provider, or one that runs a command which prints something
  that is not UTF-8; a GetCapabilityMatrix when \<open>stat\<close> fails on that marker or on a probed file; and an
  audit file with a line that is neither JSON nor UTF-8.
\<close>

definition marker_fails :: "daemon_env \<Rightarrow> daemon \<Rightarrow> bool" where
  "marker_fails e d \<longleftrightarrow> (\<exists>p path. d_provider d = Some p \<and> marker p = Some path \<and> h_stat_error (e_host e) path)"

definition throws :: "byte \<Rightarrow> daemon_env \<Rightarrow> daemon \<Rightarrow> string \<Rightarrow> bool" where
  "throws t e d body \<longleftrightarrow>
    t = 0x02 \<and> (\<exists>p\<in>set (providers_all (e_host e)). \<not> utf8 (pd_version p)) \<or>
    t = 0x03 \<and> parse_execute_request (e_json e) body \<noteq> None \<and> marker_fails e d \<or>
    t = 0x03 \<and> (\<exists>r. execute_gate e d body = Some (Inr r) \<and> \<not> utf8 (ex_stdout (executor_execute (e_host e) (er_command r)))) \<or>
    t = 0x05 \<and> (marker_fails e d \<or> h_stat_error (e_host e) ''/sys/fs/selinux/enforce'' \<or>
      h_stat_error (e_host e) ''/proc/self/ns/mnt'') \<or>
    t = 0x0F \<and> (\<exists>l\<in>set (getlines (d_audit d)). l \<noteq> [] \<and> jl_parse l = None \<and> \<not> utf8 l)"

lemma dispatch_None:
  assumes "utf8 (d_version d)" "- (2 ^ 63) \<le> e_uptime e" "e_uptime e < 2 ^ 63"
  shows "dispatch t e d body = None \<longleftrightarrow> throws t e d body"
proof -
  let ?caps = "map (\<lambda>(k, p). (k, \<lparr>ci_available = pr_available p, ci_source = pr_source p\<rparr>)) (probes_all (e_host e))"
  have cap: "make_capability_response (e_json e) ?caps \<noteq> None"
  proof -
    have "\<forall>(k, ci)\<in>set ?caps. utf8 k \<and> utf8 (ci_source ci)" using probes_utf8 [of "e_host e"] by fastforce
    moreover have "length ?caps < 2 ^ 63" "distinct (map fst ?caps)" by (simp_all add: probes_all_def)
    ultimately show ?thesis using capability_ok by blast
  qed
  have prov: "handle_get_provider e d body = None \<longleftrightarrow> (\<exists>p\<in>set (providers_all (e_host e)). \<not> utf8 (pd_version p))"
    using providers_None [of "e_json e" "e_host e"] by (auto simp: handle_get_provider_def Let_def split: option.splits)
  have matrix: "handle_get_matrix e d body = None \<longleftrightarrow> detect (e_host e) (d_provider d) = None"
    by (simp add: handle_get_matrix_def split: option.splits)
  have lines: "getlines (concat (map (\<lambda>l. l @ [nl]) (getlines (d_audit d)))) = getlines (d_audit d)"
    using getlines_no_nl by (intro getlines_unlines) blast
  have "make_ping_response (e_json e) (d_version d) (e_uptime e) \<noteq> None" using ping_ok assms by blast
  moreover have "make_error_response (e_json e) ''unknown_request_type'' ''unrecognized type byte'' \<noteq> None"
    by (simp add: error_ok utf8_ascii_string)
  ultimately show ?thesis
    by (intro dispatch_cases [of "\<lambda>t f. f e d body = None \<longleftrightarrow> throws t e d body" t])
      (auto simp: throws_def marker_fails_def prov execute_None gate_None matrix detect_None cap handle_get_capability_def handle_ping_def
        handle_install_def handle_remove_def handle_start_def handle_stop_def handle_list_def handle_query_def
        handle_grant_def handle_revoke_def handle_risk_def handle_audit_def handle_unknown_def audit_array_None lines
        Let_def split: option.splits prod.splits)
qed

section \<open>Histories\<close>

lemma dispatch_db:
  "dispatch t e d (str_of_bytes rest) = Some (json, d') \<longrightarrow>
     d_db d' = engine_history (d_db d) (perm_op (t # rest))"
  by (rule dispatch_cases [of "\<lambda>t f. f e d (str_of_bytes rest) = Some (json, d') \<longrightarrow>
        d_db d' = engine_history (d_db d) (perm_op (t # rest))" t])
    (auto simp: handle_defs engine_history_def Let_def audited_def perm_target_def
      split: option.splits sum.splits prod.splits if_splits)

lemma handler_db:
  "handler e d req = Some (r, d') \<Longrightarrow> d_db d' = engine_history (d_db d) (perm_op req)"
  by (cases req) (auto simp: handler_Cons dispatch_db, simp add: handler_def engine_history_def)

lemma engine_history_append: "engine_history db (xs @ ys) = engine_history (engine_history db xs) ys"
  by (simp add: engine_history_def)

fun run_requests :: "daemon \<Rightarrow> (daemon_env \<times> byte list) list \<Rightarrow> (byte list list \<times> daemon) option" where
  "run_requests d [] = Some ([], d)"
| "run_requests d ((e, req) # reqs) = (case handler e d req of
      None \<Rightarrow> None
    | Some (r, d1) \<Rightarrow> (case run_requests d1 reqs of
          None \<Rightarrow> None
        | Some (rs, d2) \<Rightarrow> Some (r # rs, d2)))"

definition decisions :: "(daemon_env \<times> byte list) list \<Rightarrow> (bool \<times> string \<times> permission) list" where
  "decisions reqs = concat (map (\<lambda>(e, req). perm_op req) reqs)"

lemma run_requests_db:
  "run_requests d reqs = Some (rs, d') \<Longrightarrow> d_db d' = engine_history (d_db d) (decisions reqs)"
proof (induction d reqs arbitrary: rs d' rule: run_requests.induct)
  case (1 d)
  then show ?case by (simp add: decisions_def engine_history_def)
next
  case (2 d e req reqs)
  then obtain r d1 rs' where h: "handler e d req = Some (r, d1)" "run_requests d1 reqs = Some (rs', d')"
    by (auto split: option.splits)
  then have "d_db d' = engine_history (engine_history (d_db d) (perm_op req)) (decisions reqs)"
    using 2(1) [OF h(1) refl h(2)] handler_db [OF h(1)] by simp
  then show ?case by (simp add: decisions_def engine_history_append)
qed

text \<open>The version never changes, so the hypothesis on it in \<open>dispatch_None\<close> holds in every history.\<close>

lemma dispatch_version: "dispatch t e d (str_of_bytes rest) = Some (json, d') \<longrightarrow> d_version d' = d_version d"
  by (rule dispatch_cases [of "\<lambda>t f. f e d (str_of_bytes rest) = Some (json, d') \<longrightarrow> d_version d' = d_version d" t])
    (auto simp: handle_defs Let_def audited_def split: option.splits sum.splits prod.splits if_splits)

lemma handler_version: "handler e d req = Some (r, d') \<Longrightarrow> d_version d' = d_version d"
proof (cases req)
  case (Cons t rest)
  assume h: "handler e d req = Some (r, d')"
  then obtain json where "dispatch t e d (str_of_bytes rest) = Some (json, d')" by (auto simp: Cons handler_Cons)
  then show ?thesis using dispatch_version by blast
qed (simp add: handler_def)

lemma run_requests_version: "run_requests d reqs = Some (rs, d') \<Longrightarrow> d_version d' = d_version d"
proof (induction d reqs arbitrary: rs d' rule: run_requests.induct)
  case (2 d e req reqs)
  obtain r d1 rs' where h: "handler e d req = Some (r, d1)" "run_requests d1 reqs = Some (rs', d')"
    using "2.prems" by (auto split: option.splits)
  then show ?case using 2(1) [OF h(1) refl h(2)] handler_version [OF h(1)] by simp
qed simp

text \<open>
  Requests of the other types are never the end of the process, and a GetCapabilityMatrix is not while \<open>stat\<close> works
  on the paths it looks at.
\<close>

definition probed_paths :: "string list" where
  "probed_paths = [''/sbin/.magisk'', ''/data/adb/ksu'', ''/data/adb/ap'', ''/sys/fs/selinux/enforce'', ''/proc/self/ns/mnt'']"

definition stat_works :: "host \<Rightarrow> bool" where
  "stat_works h \<longleftrightarrow> list_all (\<lambda>p. \<not> h_stat_error h p) probed_paths"

lemma stat_works_marker: "stat_works (e_host e) \<Longrightarrow> \<not> marker_fails e d"
proof -
  have "marker p = Some path \<Longrightarrow> path \<in> set probed_paths" for p path by (cases p) (auto simp: probed_paths_def)
  then show "stat_works (e_host e) \<Longrightarrow> \<not> marker_fails e d"
    by (auto simp: marker_fails_def stat_works_def list_all_iff)
qed

definition safe_request :: "daemon_env \<Rightarrow> byte list \<Rightarrow> bool" where
  "safe_request e req \<longleftrightarrow> req \<noteq> [] \<and> hd req \<notin> {0x02, 0x03, 0x0F} \<and> (hd req = 0x05 \<longrightarrow> stat_works (e_host e))"

lemma safe_not_throws: "safe_request e (t # rest) \<Longrightarrow> \<not> throws t e d body"
  using stat_works_marker [of e d] by (auto simp: safe_request_def throws_def stat_works_def probed_paths_def)

lemma safe_requests_run:
  assumes "utf8 (d_version d)" "\<forall>(e, req)\<in>set reqs. safe_request e req \<and> - (2 ^ 63) \<le> e_uptime e \<and> e_uptime e < 2 ^ 63"
  shows "\<exists>rs d'. run_requests d reqs = Some (rs, d')"
  using assms
proof (induction d reqs rule: run_requests.induct)
  case (2 d e req reqs)
  obtain t rest where req: "req = t # rest" "safe_request e (t # rest)" using "2.prems"(2) by (cases req) (auto simp: safe_request_def)
  have "dispatch t e d (str_of_bytes rest) \<noteq> None"
    using dispatch_None [of d e t "str_of_bytes rest"] "2.prems" safe_not_throws [OF req(2)] by auto
  then obtain r d1 where h: "handler e d req = Some (r, d1)" by (auto simp: req(1) handler_def)
  moreover have "\<exists>rs d'. run_requests d1 reqs = Some (rs, d')"
    using 2(1) [OF h refl] handler_version [OF h] "2.prems" by auto
  ultimately show ?case by auto
qed simp

lemma db_check_history: "db_check (engine_history Map.empty ops) m p = last_word ops m p False"
proof -
  have "engine_check Map.empty m p = False" by (simp add: engine_check_def db_check_def)
  then show ?thesis
    using engine.check_history [of Map.empty ops m p] by (simp add: engine_history_def engine_check_def)
qed

text \<open>
  C6. The permission protocol end to end: after any sequence of requests to a freshly
  started daemon, a QueryPermission for a module (whose id has no colon) and a permission is
  answered "allow" exactly when the last grant or revocation sent for that pair was a
  grant and the daemon's capability matrix offers the capability behind the permission.
\<close>

theorem permission_protocol:
  assumes "daemon_init h k w file = Some d0" "run_requests d0 reqs = Some (rs, d)" and "CHR '':'' \<notin> set m"
  shows \<open>\<exists>d'. handler e d (0x0B # bytes_of_str (m @ '':'' @ permission_name p)) =
    Some (0x0B # bytes_of_str
      (if last_word (decisions reqs) m p False \<and>
          (case permission_to_capability p of None \<Rightarrow> True | Some c \<Rightarrow> matrix_has (d_matrix d) c)
       then ''{"granted":true,"message":"allow"}'' else ''{"granted":false,"message":"denied"}''), d')\<close>
proof -
  have db: "d_db d = engine_history Map.empty (decisions reqs)"
    using run_requests_db [OF assms(2)] daemon_init_fields [OF assms(1)] by simp
  have sp: "split_at_colon (m @ CHR '':'' # permission_name p) = Some (m, permission_name p)"
    using assms(3) by (rule split_at_colon_append)
  have au: "authorize (d_db d) (d_matrix d) \<lparr>req_module_id = m, req_permission = p, req_reason = []\<rparr> \<longleftrightarrow>
      last_word (decisions reqs) m p False \<and>
      (case permission_to_capability p of None \<Rightarrow> True | Some c \<Rightarrow> matrix_has (d_matrix d) c)"
    by (auto simp: authorize_iff db db_check_history split: option.splits)
  have pn: "permission_from_name (permission_name p) = Some p" by (simp add: permission_from_name_iff)
  show ?thesis
    by (simp add: handler_Cons dispatch_def handle_query_def sp pn Let_def au)
qed

definition toy_env :: daemon_env where
  "toy_env = \<lparr>e_host = bare_host, e_json = toy_lib, e_policy = rust_ffi, e_uptime = 5, e_now_iso = ''T'',
     e_timestamp = ''T'', e_audit_writable = True\<rparr>"

definition toy_daemon :: "string \<Rightarrow> daemon" where
  "toy_daemon file = the (daemon_init bare_host good_kernel fresh_world file)"

lemma toy_daemon_init: "daemon_init bare_host good_kernel fresh_world file = Some (toy_daemon file)"
proof -
  have "manager_initialize bare_host good_kernel fresh_world \<noteq> None"
    by (simp add: manager_initialize_def astra_initialize_def rr_prepare_def rr_start_def ns_create_def new_runtime_def
        good_kernel_def boot_detect_def rr_ready_def Let_def)
  then obtain p w1 where p: "manager_initialize bare_host good_kernel fresh_world = Some (p, w1)" by auto
  have "detect bare_host (Some p) \<noteq> None" by (simp only: detect_None) (simp add: bare_host_def)
  then have "daemon_init bare_host good_kernel fresh_world file \<noteq> None" using p by (auto simp: daemon_init_def)
  then show ?thesis by (auto simp: toy_daemon_def)
qed

lemmas toy_daemon_fields = daemon_init_fields [OF toy_daemon_init]

definition grant_request :: "string \<Rightarrow> permission \<Rightarrow> byte list" where
  "grant_request m p = 0x0C # bytes_of_str (m @ '':'' @ permission_name p)"

theorem permission_protocol_witness:
  \<open>\<exists>d'. handler toy_env (snd (the (run_requests (toy_daemon [])
        [(toy_env, grant_request ''m'' permission.ROOT_ACCESS)])))
      (0x0B # bytes_of_str (''m'' @ '':'' @ permission_name permission.ROOT_ACCESS)) =
    Some (0x0B # bytes_of_str
      (if last_word (decisions [(toy_env, grant_request ''m'' permission.ROOT_ACCESS)]) ''m'' permission.ROOT_ACCESS False \<and>
          (case permission_to_capability permission.ROOT_ACCESS of None \<Rightarrow> True
           | Some c \<Rightarrow> matrix_has (d_matrix (snd (the (run_requests (toy_daemon [])
               [(toy_env, grant_request ''m'' permission.ROOT_ACCESS)])))) c)
       then ''{"granted":true,"message":"allow"}'' else ''{"granted":false,"message":"denied"}''), d')\<close>
proof (rule permission_protocol [OF toy_daemon_init])
  let ?d = "toy_daemon []"
  have "split_at_colon (''m'' @ CHR '':'' # permission_name permission.ROOT_ACCESS) =
      Some (''m'', permission_name permission.ROOT_ACCESS)"
    by (rule split_at_colon_append) simp
  then have "handler toy_env ?d (grant_request ''m'' permission.ROOT_ACCESS) \<noteq> None"
    by (simp add: grant_request_def handler_def dispatch_def handle_grant_def Let_def split: option.splits prod.splits)
  then obtain r d1 where "handler toy_env ?d (grant_request ''m'' permission.ROOT_ACCESS) = Some (r, d1)" by auto
  then show "run_requests ?d [(toy_env, grant_request ''m'' permission.ROOT_ACCESS)] =
    Some (fst (the (run_requests ?d [(toy_env, grant_request ''m'' permission.ROOT_ACCESS)])),
      snd (the (run_requests ?d [(toy_env, grant_request ''m'' permission.ROOT_ACCESS)])))"
    by simp
qed simp

section \<open>Execution\<close>

text \<open>
  C3. Which commands run: with the Rust engine linked, an Execute request reaches the
  shell exactly when it parses, the selected provider is available, its (clamped) risk is
  below 80 and it is marked approved; without the engine none does. What runs is the
  request's command, and the response carries its exit code and whole output.
\<close>

theorem execute_gate_iff:
  "(execute_gate (e\<lparr>e_policy := rust_ffi\<rparr>) d body = Some (Inr r) \<longleftrightarrow>
      parse_execute_request (e_json e) body = Some r \<and>
      (case d_provider d of None \<Rightarrow> False | Some p \<Rightarrow> provider_available (e_host e) p = Some True) \<and>
      unat (er_risk_level r) < 80 \<and> er_approved r) \<and>
   execute_gate (e\<lparr>e_policy := weak_ffi\<rparr>) d body \<noteq> Some (Inr r) \<and>
   (if execute_gate e d body = Some (Inr r)
    then handle_execute e d body =
      (let res = executor_execute (e_host e) (er_command r)
       in with_state (make_exec_response (e_json e) (ex_exit_code res = 0) (ex_exit_code res) (ex_stdout res) []) d)
    else True)"
proof -
  have lt: "risk \<ge> 80 \<longleftrightarrow> \<not> unat risk < 80" for risk :: u32 by (simp add: word_le_nat_alt not_less)
  have rust: "execute_gate (e\<lparr>e_policy := rust_ffi\<rparr>) d body = Some (Inr r) \<longleftrightarrow>
      parse_execute_request (e_json e) body = Some r \<and>
      (case d_provider d of None \<Rightarrow> False | Some p \<Rightarrow> provider_available (e_host e) p = Some True) \<and>
      unat (er_risk_level r) < 80 \<and> er_approved r"
    by (auto simp: execute_gate_def bridge_check_with_def rust_ffi_def evaluate_def Provider.decode_def can_execute_def lt
        split: option.splits if_splits policy_result.splits)
  moreover have "execute_gate (e\<lparr>e_policy := weak_ffi\<rparr>) d body \<noteq> Some (Inr r)"
    by (simp add: execute_gate_def bridge_check_with_def weak_ffi_def split: option.splits)
  moreover have "ex_stderr (executor_execute h c) = []" for h c
    by (simp add: executor_execute_def split: option.splits)
  ultimately show ?thesis by (simp add: handle_execute_def Let_def)
qed

section \<open>Audit\<close>

text \<open>The record a request must leave: module, action and outcome, for well-formed decisions.\<close>

definition audit_event :: "daemon \<Rightarrow> byte list \<Rightarrow> (string \<times> string \<times> bool) option" where
  "audit_event d req = (case req of
      [] \<Rightarrow> None
    | t # rest \<Rightarrow> (case perm_target rest of
          None \<Rightarrow> None
        | Some (m, p) \<Rightarrow>
            if t = 0x0B then Some (m, permission_name p, authorize (d_db d) (d_matrix d)
              \<lparr>req_module_id = m, req_permission = p, req_reason = []\<rparr>)
            else if t = 0x0C then Some (m, ''GRANT:'' @ permission_name p, \<not> db_check (d_db d) m p)
            else if t = 0x0D then Some (m, ''REVOKE:'' @ permission_name p, db_check (d_db d) m p)
            else None))"

definition audit_record :: "daemon_env \<Rightarrow> (string \<times> string \<times> bool) option \<Rightarrow> string" where
  "audit_record e ev = (case ev of
      None \<Rightarrow> []
    | Some (m, a, ok) \<Rightarrow> if e_audit_writable e then audit_line (e_now_iso e) m a ok @ [nl] else [])"

lemma perm_from_name_of [simp]: "permission_from_name (permission_name p) = Some p"
  by (simp add: permission_from_name_iff)

text \<open>What the three permission requests have in common: a well-formed body, or none.\<close>

lemma perm_body_cases:
  obtains (bad) "perm_target rest = None"
      "split_at_colon (str_of_bytes rest) = None \<or>
       (\<exists>m n. split_at_colon (str_of_bytes rest) = Some (m, n) \<and> permission_from_name n = None)"
  | (good) m p where "perm_target rest = Some (m, p)"
      "split_at_colon (str_of_bytes rest) = Some (m, permission_name p)"
proof (cases "perm_target rest")
  case None
  then show ?thesis using bad by (auto simp: perm_target_def split: option.splits)
next
  case (Some mp)
  then show ?thesis
    using good by (cases mp) (auto simp: perm_target_def permission_from_name_iff split: option.splits)
qed

lemma audit_query:
  "handle_query e d (str_of_bytes rest) = Some (json, d') \<Longrightarrow>
     d_audit d' = d_audit d @ audit_record e (audit_event d (0x0B # rest))"
  by (cases rule: perm_body_cases [of rest])
    (auto simp: handle_query_def audited_def audit_log_def audit_event_def audit_record_def Let_def)

lemma audit_grant:
  "handle_grant e d (str_of_bytes rest) = Some (json, d') \<Longrightarrow>
     d_audit d' = d_audit d @ audit_record e (audit_event d (0x0C # rest))"
  by (cases rule: perm_body_cases [of rest])
    (auto simp: handle_grant_def audited_def audit_log_def audit_event_def audit_record_def Let_def
      engine_grant_def perm_db.grant_new case_prod_beta)

lemma audit_revoke:
  "handle_revoke e d (str_of_bytes rest) = Some (json, d') \<Longrightarrow>
     d_audit d' = d_audit d @ audit_record e (audit_event d (0x0D # rest))"
  by (cases rule: perm_body_cases [of rest])
    (auto simp: handle_revoke_def audited_def audit_log_def audit_event_def audit_record_def Let_def
      engine_revoke_def perm_db.revoke_had case_prod_beta)

lemma audit_event_other: "t \<notin> {0x0B, 0x0C, 0x0D} \<Longrightarrow> audit_event d (t # rest) = None"
  by (simp add: audit_event_def split: option.split)

lemma audit_other:
  "t \<notin> {0x0B, 0x0C, 0x0D} \<Longrightarrow> dispatch t e d body = Some (json, d') \<Longrightarrow> d_audit d' = d_audit d"
  by (auto simp: dispatch_def handle_defs Let_def split: option.splits sum.splits prod.splits if_splits)

lemma dispatch_audit:
  assumes "dispatch t e d (str_of_bytes rest) = Some (json, d')"
  shows "d_audit d' = d_audit d @ audit_record e (audit_event d (t # rest))"
proof (cases "t \<in> {0x0B, 0x0C, 0x0D}")
  case True
  then show ?thesis using assms audit_query audit_grant audit_revoke by (auto simp: dispatch_def)
next
  case False
  then show ?thesis using audit_other [OF False assms] audit_event_other [OF False] by (simp add: audit_record_def)
qed

text \<open>
  Every permission decision is audited, and nothing else is: a request the daemon
  answers appends to a writable audit file exactly one record when it is a well-formed
  query, grant or revocation (with the module, the action, and the decision as computed
  from the state before the request), and no record otherwise.
\<close>

theorem decisions_audited:
  assumes "handler e d req = Some (r, d')"
  shows "d_audit d' = d_audit d @ audit_record e (audit_event d req)"
proof (cases req)
  case Nil
  then show ?thesis using assms by (simp add: handler_def audit_event_def audit_record_def)
next
  case (Cons t rest)
  then show ?thesis using assms dispatch_audit by (auto simp: handler_Cons)
qed

theorem decisions_audited_witness:
  "d_audit (snd (the (handler toy_env (toy_daemon []) [0x04]))) =
   d_audit (toy_daemon []) @
     audit_record toy_env (audit_event (toy_daemon []) [0x04])"
proof (rule decisions_audited)
  show "handler toy_env (toy_daemon []) [0x04] =
    Some (fst (the (handler toy_env (toy_daemon []) [0x04])),
          snd (the (handler toy_env (toy_daemon []) [0x04])))"
  proof -
    have "make_ping_response toy_lib ''0.1.0'' 5 \<noteq> None" by (simp add: ping_ok utf8_ascii_string)
    then show ?thesis
      by (auto simp: handler_def dispatch_def handle_ping_def toy_env_def with_state_def toy_daemon_fields
          split: option.splits)
  qed
qed

section \<open>A poisoned audit file\<close>

text \<open>Audit records are only ever appended.\<close>

lemma handler_audit: "handler e d req = Some (r, d') \<Longrightarrow> \<exists>x. d_audit d' = d_audit d @ x"
  using dispatch_audit by (cases req) (auto simp: handler_Cons, simp add: handler_def)

lemma run_requests_audit: "run_requests d reqs = Some (rs, d') \<Longrightarrow> \<exists>x. d_audit d' = d_audit d @ x"
proof (induction d reqs arbitrary: rs d' rule: run_requests.induct)
  case (2 d e req reqs)
  then obtain r d1 rs' where h: "handler e d req = Some (r, d1)" "run_requests d1 reqs = Some (rs', d')"
    by (auto split: option.splits)
  then show ?case using 2(1) [OF h(1) refl h(2)] handler_audit [OF h(1)] by auto
qed simp

definition poison :: "string \<Rightarrow> bool" where
  "poison file \<longleftrightarrow> (\<exists>l\<in>set (getlines file). l \<noteq> [] \<and> jl_parse l = None \<and> \<not> utf8 l)"

lemma getlines_aux_complete: "getlines_aux acc (s @ nl # t) = getlines_aux acc (s @ [nl]) @ getlines t"
  by (induction acc s rule: getlines_aux.induct) (simp_all add: getlines_def)

lemma poison_append: "poison (s @ [nl]) \<Longrightarrow> poison (s @ nl # t)"
  by (auto simp: poison_def getlines_def getlines_aux_complete [of "[]" s t])

lemma poison_line:
  assumes "before = [] \<or> last before = nl" "nl \<notin> set l" "CHR 0x00 \<notin> set l" "\<not> utf8 l"
  shows "poison (before @ l @ [nl])"
proof -
  have "l \<noteq> []" using assms(4) by auto
  moreover have "jl_parse l = None"
    using parsed_text_utf8 [of l] assms(3,4) by (auto simp: jl_parse_def split: sum.splits)
  moreover have "l \<in> set (getlines (before @ l @ [nl]))"
  proof (cases "before = []")
    case True
    then show ?thesis using getlines_cons [OF assms(2), of "[]"] by simp
  next
    case False
    then have b: "before = butlast before @ [nl]" using assms(1) by (metis append_butlast_last_id)
    have "getlines (butlast before @ nl # (l @ [nl])) = getlines (butlast before @ [nl]) @ getlines (l @ [nl])"
      using getlines_aux_complete [of "[]" "butlast before" "l @ [nl]"] by (simp add: getlines_def)
    then show ?thesis using b getlines_cons [OF assms(2), of "[]"] by (metis Un_iff append_Cons append_Nil append_assoc list.set_intros(1) set_append)
  qed
  ultimately show ?thesis using assms(4) by (auto simp: poison_def)
qed

lemma audit_None:
  assumes "poison (d_audit d)"
  shows "handler e d (0x0F # rest) = None"
proof -
  have "getlines (concat (map (\<lambda>l. l @ [nl]) (getlines (d_audit d)))) = getlines (d_audit d)"
    using getlines_no_nl by (intro getlines_unlines) blast
  then have "make_audit_array (e_json e) (concat (map (\<lambda>l. l @ [nl]) (getlines (d_audit d)))) = None"
    using assms by (simp only: audit_array_None poison_def)
  then show ?thesis by (simp add: handler_def dispatch_def handle_audit_def with_state_def)
qed

text \<open>
  C27. One request can break the audit service for good. When the audit file can be written and is empty or ends with a
  newline, a permission query that names a module
  whose id is not UTF-8 (and has no newline, NUL or colon) is answered and logged with the id copied raw. From then on every request
  for the audit log throws out of the handler, which ends the process: in the same run, whatever
  requests come between, and after every restart on the same file.
\<close>

theorem audit_log_poisoned:
  assumes "e_audit_writable e" "d_audit d = [] \<or> last (d_audit d) = nl"
    and "ascii (e_now_iso e)" "nl \<notin> set (e_now_iso e)" "CHR 0x00 \<notin> set (e_now_iso e)"
    and "\<not> utf8 m" "nl \<notin> set m" "CHR 0x00 \<notin> set m" "CHR '':'' \<notin> set m"
  shows "\<exists>r d1. handler e d (0x0B # bytes_of_str (m @ '':'' @ permission_name p)) = Some (r, d1) \<and>
    (\<forall>reqs rs d2 e' rest. run_requests d1 reqs = Some (rs, d2) \<longrightarrow>
       handler e' d2 (0x0F # rest) = None \<and>
       (\<forall>h k w d3. daemon_init h k w (d_audit d2) = Some d3 \<longrightarrow> handler e' d3 (0x0F # rest) = None))"
proof -
  have sp: "split_at_colon (m @ CHR '':'' # permission_name p) = Some (m, permission_name p)"
    using assms(9) by (rule split_at_colon_append)
  obtain r ok where h: "handler e d (0x0B # bytes_of_str (m @ '':'' @ permission_name p)) =
      Some (r, audited e d m (permission_name p) ok)"
    by (simp add: handler_Cons dispatch_def handle_query_def sp Let_def)
  let ?l = "audit_line (e_now_iso e) m (permission_name p) ok"
  have au: "d_audit (audited e d m (permission_name p) ok) = d_audit d @ ?l @ [nl]"
    using assms(1) by (simp add: audited_def audit_log_def Let_def)
  have pn: "ascii (permission_name p)" "nl \<notin> set (permission_name p)" "CHR 0x00 \<notin> set (permission_name p)"
    by (cases p; simp add: nl_def)+
  have "\<not> utf8 ?l"
  proof
    assume "utf8 ?l"
    then have \<open>utf8 ((''{"time":"'' @ e_now_iso e @ ''","module":"'') @ m @ CHR ''"'' # '',"action":"'' @ permission_name p @
        ''","result":"'' @ (if ok then ''ALLOW'' else ''DENY'') @ ''"}'')\<close>
      by (simp add: audit_line_def)
    then have "utf8 m" by (rule utf8_cut) (simp_all add: assms(3))
    then show False using assms(6) by simp
  qed
  moreover have "nl \<notin> set ?l" "CHR 0x00 \<notin> set ?l" using assms pn by (simp_all add: audit_line_def nl_def)
  ultimately have "poison (d_audit d @ ?l @ [nl])" using poison_line [OF assms(2)] by blast
  then have bad: "poison (d_audit d2)" if "run_requests (audited e d m (permission_name p) ok) reqs = Some (rs, d2)" for reqs rs d2
    using run_requests_audit [OF that] au poison_append [of "d_audit d @ ?l"] by auto
  moreover have "handler e' d3 (0x0F # rest) = None" if "poison (d_audit d2)" "daemon_init h k w (d_audit d2) = Some d3" for e' h k w d2 d3 rest
    using audit_None [of d3] that(1) daemon_init_fields [OF that(2)] by simp
  ultimately show ?thesis using h audit_None by blast
qed

theorem audit_log_poisoned_witness:
  "\<exists>r d1. handler toy_env (toy_daemon []) (0x0B # bytes_of_str ([CHR 0xFF] @ '':'' @ permission_name permission.MOUNT)) =
      Some (r, d1) \<and>
    (\<forall>reqs rs d2 e' rest. run_requests d1 reqs = Some (rs, d2) \<longrightarrow>
       handler e' d2 (0x0F # rest) = None \<and>
       (\<forall>h k w d3. daemon_init h k w (d_audit d2) = Some d3 \<longrightarrow> handler e' d3 (0x0F # rest) = None))"
proof (rule audit_log_poisoned)
  show "\<not> utf8 [CHR 0xFF]" by (simp add: utf8_code first_state)
qed (simp_all add: toy_env_def toy_daemon_fields nl_def)

text \<open>
  C5. Which requests end the daemon (running out of memory aside): the handler lets an exception out exactly for a GetProvider
  when the version text of some provider is not UTF-8, for a well-formed Execute when \<open>stat\<close> fails on the marker
  file of the active provider, for an Execute that passes all its gates
  when the command's output is not UTF-8, for a GetCapabilityMatrix when \<open>stat\<close> fails on that marker, on the
  SELinux switch or on the namespace file, and for a GetAudit when the audit file has a line that
  is neither JSON nor UTF-8. Every other request is answered, malformed ones included. A failure of \<open>stat\<close> is one
  for another reason than that the file is not there.
\<close>

theorem requests_that_throw:
  assumes "utf8 (d_version d)" "- (2 ^ 63) \<le> e_uptime e" "e_uptime e < 2 ^ 63"
  shows "handler e d req = None \<longleftrightarrow> (\<exists>t rest. req = t # rest \<and> throws t e d (str_of_bytes rest))"
proof (cases req)
  case (Cons t rest)
  have "handler e d (t # rest) = None \<longleftrightarrow> dispatch t e d (str_of_bytes rest) = None"
    by (auto simp: handler_def split: option.splits)
  then show ?thesis using dispatch_None [OF assms, of t "str_of_bytes rest"] Cons by simp
qed (simp add: handler_def)

theorem requests_that_throw_witness:
  "handler toy_env (toy_daemon [CHR 0xFF, nl]) [0x0F] = None \<longleftrightarrow>
    (\<exists>t rest. [0x0F] = t # rest \<and> throws t toy_env (toy_daemon [CHR 0xFF, nl]) (str_of_bytes rest))"
  by (rule requests_that_throw) (simp_all add: toy_env_def toy_daemon_fields utf8_ascii_string)

section \<open>Provider reports\<close>

text \<open>
  The provider that GetProvider records is not the one that executes: on a device
  where the kernel grants a mount namespace the daemon executes through AstraRoot, but
  GetProvider never records \<open>astraroot\<close> as the active provider, and without Magisk,
  KernelSU or APatch it records "none" and the provider as offline while execution is
  possible.
\<close>

theorem active_provider_mismatch:
  assumes "rk_unshare k" "daemon_init h k w file = Some d0" and "handle_get_provider e d0 body = Some (s, d)"
  shows "can_execute (e_host e) (d_provider d) cmd = Some True \<and> d_active_provider d \<noteq> ''astraroot'' \<and>
    (if list_all (\<lambda>p. \<not> pd_available p) (providers_all (e_host e))
     then d_active_provider d = ''none'' \<and> \<not> d_provider_online d else True)"
proof -
  obtain ok p w' where a: "astra_initialize k False new_runtime w = (ok, p, w')"
    by (cases "astra_initialize k False new_runtime w") auto
  obtain p0 w0 where p0: "manager_initialize h k w = Some (p0, w0)" "d_provider d0 = Some p0"
    using daemon_init_fields [OF assms(2)] by blast
  then have "ok \<noteq> None" using a by (auto simp: manager_initialize_def split: option.splits)
  then have ok: "ok = Some True" using astra_initialize_new [OF a] assms(1) by (auto split: if_splits)
  then have av: "provider_available h' p = Some True" for h' using astra_initialize_new [OF a, of h'] by blast
  then have "p0 = p" using a p0(1) ok by (simp add: manager_initialize_def)
  then have pr: "d_provider d = Some p"
    using assms(3) p0(2) by (auto simp: handle_get_provider_def Let_def split: option.splits)
  have act: "d_active_provider d = (case find pd_available (providers_all (e_host e)) of None \<Rightarrow> ''none'' | Some q \<Rightarrow> pd_id q)"
    and onl: "d_provider_online d = (d_active_provider d \<noteq> ''none'')"
    using assms(3) by (auto simp: handle_get_provider_def Let_def split: option.splits)
  have "d_active_provider d \<noteq> ''astraroot''"
  proof (cases "find pd_available (providers_all (e_host e))")
    case (Some q)
    then have "q \<in> set (providers_all (e_host e))" "pd_available q" by (auto simp: find_Some_iff)
    then have "pd_id q \<noteq> ''astraroot''" using providers_all_shape [of "e_host e"] by (auto simp: list_all_iff)
    then show ?thesis using act Some by simp
  qed (simp add: act)
  moreover have "list_all (\<lambda>p. \<not> pd_available p) (providers_all (e_host e)) \<Longrightarrow> d_active_provider d = ''none''"
    by (simp add: act find_None_iff list_all_iff option.case_eq_if)
  ultimately show ?thesis using pr av onl by (auto simp: can_execute_def)
qed

theorem active_provider_mismatch_witness:
  "can_execute (e_host toy_env) (d_provider (snd (the (handle_get_provider toy_env
       (toy_daemon []) [])))) ''id'' = Some True \<and>
   d_active_provider (snd (the (handle_get_provider toy_env (toy_daemon []) []))) \<noteq>
     ''astraroot'' \<and>
   (if list_all (\<lambda>p. \<not> pd_available p) (providers_all (e_host toy_env))
    then d_active_provider (snd (the (handle_get_provider toy_env (toy_daemon []) []))) =
        ''none'' \<and>
      \<not> d_provider_online (snd (the (handle_get_provider toy_env (toy_daemon []) [])))
    else True)"
proof (rule active_provider_mismatch [OF _ toy_daemon_init])
  let ?r = "handle_get_provider toy_env (toy_daemon []) []"
  have "\<forall>p\<in>set (providers_all (e_host toy_env)). utf8 (pd_version p)"
    by (simp add: providers_all_def detect_magisk_def detect_kernelsu_def detect_apatch_def detect_astraroot_def detect_with_def
        check_paths_def toy_env_def bare_host_def Let_def)
  then have "make_providers_response (e_json toy_env) (map info_of (providers_all (e_host toy_env))) \<noteq> None"
    unfolding providers_None by blast
  then have "?r \<noteq> None" by (auto simp: handle_get_provider_def Let_def split: option.splits)
  then show "?r = Some (fst (the ?r), snd (the ?r))" by auto
qed (simp add: good_kernel_def)

end
