(* ===== verification/Kernel.thy ===== *)
theory Kernel
  imports Prelude
begin

text \<open>
  The kernel module and its user-space bridge: the policy table and ioctl handler of
  kernel/astra_root.c, \<open>KernelBridge\<close> (daemon/src/kernel_bridge.cpp) and the translation of
  AstraVeil capability names to Linux capability masks with the start-up policy
  (daemon/src/policy_to_kernel.cpp). Masks are 64-bit words. The kernel services the module
  calls (copying from and to user memory, allocating credentials) are answers in the record
  \<open>kenv\<close>; user namespaces are taken to be the initial one, where uids are themselves.
\<close>

unbundle bit_operations_syntax

section \<open>The kernel module\<close>

record astra_caps =
  cap_effective :: u64
  cap_permitted :: u64
  target_uid :: u32
  target_gid :: u32
  caps_result :: int

record policy_entry =
  pe_uid :: u32
  allowed_caps :: u64
  allow_full_root :: u32

record kmod =
  enforce :: int
  policy_table :: "policy_entry list"

record kcred =
  kc_uid :: u32
  kc_gid :: u32
  kc_effective :: u64
  kc_permitted :: u64
  kc_inheritable :: u64
  kc_bset :: u64
  kc_groups :: "u32 list"

record kenv =
  copy_from :: bool
  copy_to :: bool
  cred_alloc :: bool

definition EPERM :: int where "EPERM = 1"
definition ENOMEM :: int where "ENOMEM = 12"
definition EFAULT :: int where "EFAULT = 14"
definition ENOTTY :: int where "ENOTTY = 25"
definition ENOSPC :: int where "ENOSPC = 28"

definition ASTRA_MAX_POLICIES :: nat where "ASTRA_MAX_POLICIES = 128"
definition ASTRA_VERSION :: int where "ASTRA_VERSION = 2"
definition CAP_LAST_CAP :: nat where "CAP_LAST_CAP = 40"

text \<open>The loop of \<open>check_policy\<close>: the first entry of the uid decides.\<close>

fun table_allows :: "policy_entry list \<Rightarrow> u32 \<Rightarrow> u64 \<Rightarrow> bool \<Rightarrow> bool" where
  "table_allows [] uid requested want_full_root = False"
| "table_allows (p # ps) uid requested want_full_root =
     (if pe_uid p = uid
      then (if want_full_root then allow_full_root p \<noteq> 0
            else (requested AND allowed_caps p) = requested)
      else table_allows ps uid requested want_full_root)"

definition check_policy :: "kmod \<Rightarrow> u32 \<Rightarrow> u64 \<Rightarrow> bool \<Rightarrow> int" where
  "check_policy m uid requested want_full_root =
    (if enforce m = 0 then 0
     else if policy_table m = [] then - EPERM
     else if table_allows (policy_table m) uid requested want_full_root then 0 else - EPERM)"

text \<open>\<open>for (cap = 0; cap <= CAP_LAST_CAP; cap++) if (mask & (1ULL << cap)) cap_raise(new, cap);\<close>\<close>

fun raise_caps :: "u64 \<Rightarrow> nat list \<Rightarrow> u64 \<Rightarrow> u64" where
  "raise_caps msk [] acc = acc"
| "raise_caps msk (c # cs) acc =
     raise_caps msk cs (if (msk AND push_bit c 1) \<noteq> 0 then acc OR push_bit c 1 else acc)"

definition raised :: "u64 \<Rightarrow> u64" where
  "raised msk = raise_caps msk [0..<Suc CAP_LAST_CAP] 0"

text \<open>The credentials of the init task, which \<open>prepare_kernel_cred(NULL)\<close> copies.\<close>

definition init_cred :: kcred where
  "init_cred = \<lparr>kc_uid = 0, kc_gid = 0, kc_effective = 2 ^ 41 - 1, kc_permitted = 2 ^ 41 - 1,
     kc_inheritable = 0, kc_bset = 2 ^ 41 - 1, kc_groups = []\<rparr>"

record mount_req =
  mr_source :: string
  mr_target :: string
  mr_fstype :: string
  mr_flags :: u64
  mr_data :: string
  mr_result :: int

datatype ioctl_cmd =
    GET_ROOT
  | GET_CAPS astra_caps
  | SET_POLICY policy_entry
  | GET_VERSION
  | MOUNT_HELPER mount_req
  | OTHER_CMD

text \<open>
  One ioctl of a process: the return value, the structure copied back to it (for
  \<open>GET_CAPS\<close>), the version it reads, and the new credentials and module state.
\<close>

record ioctl_result =
  io_ret :: int
  io_caps :: "astra_caps option"
  io_version :: "int option"
  io_cred :: kcred
  io_mod :: kmod

definition io_fail :: "int \<Rightarrow> kcred \<Rightarrow> kmod \<Rightarrow> ioctl_result" where
  "io_fail r c m = \<lparr>io_ret = r, io_caps = None, io_version = None, io_cred = c, io_mod = m\<rparr>"

definition new_caps_cred :: "kcred \<Rightarrow> astra_caps \<Rightarrow> kcred" where
  "new_caps_cred c a =
    (let c1 = c\<lparr>kc_effective := raised (cap_effective a), kc_permitted := raised (cap_permitted a),
           kc_inheritable := 0, kc_bset := 0\<rparr>;
         c2 = (if target_uid a \<noteq> 0 then c1\<lparr>kc_uid := target_uid a\<rparr> else c1)
     in if target_gid a \<noteq> 0 then c2\<lparr>kc_gid := target_gid a\<rparr> else c2)"

fun astra_ioctl :: "kenv \<Rightarrow> ioctl_cmd \<Rightarrow> kcred \<Rightarrow> kmod \<Rightarrow> ioctl_result" where
  "astra_ioctl env GET_ROOT c m =
    (let ret = check_policy m (kc_uid c) 0 True
     in if ret \<noteq> 0 then io_fail ret c m
        else if \<not> cred_alloc env then io_fail (- ENOMEM) c m
        else io_fail 0 init_cred m)"
| "astra_ioctl env (GET_CAPS a) c m =
    (if \<not> copy_from env then io_fail (- EFAULT) c m
     else
       (let ret = check_policy m (kc_uid c) (cap_effective a) False
        in if ret \<noteq> 0 then
             (if \<not> copy_to env then io_fail (- EFAULT) c m
              else (io_fail ret c m)\<lparr>io_caps := Some (a\<lparr>caps_result := ret\<rparr>)\<rparr>)
           else if \<not> cred_alloc env then io_fail (- ENOMEM) c m
           else
             (let c' = new_caps_cred c a
              in if \<not> copy_to env then io_fail (- EFAULT) c' m
                 else (io_fail 0 c' m)\<lparr>io_caps := Some (a\<lparr>caps_result := 0\<rparr>)\<rparr>)))"
| "astra_ioctl env (SET_POLICY e) c m =
    (if kc_uid c \<noteq> 0 then io_fail (- EPERM) c m
     else if \<not> copy_from env then io_fail (- EFAULT) c m
     else if length (policy_table m) < ASTRA_MAX_POLICIES
       then io_fail 0 c (m\<lparr>policy_table := policy_table m @ [e]\<rparr>)
     else io_fail (- ENOSPC) c m)"
| "astra_ioctl env GET_VERSION c m =
    (if \<not> copy_to env then io_fail (- EFAULT) c m
     else (io_fail 0 c m)\<lparr>io_version := Some ASTRA_VERSION\<rparr>)"
| "astra_ioctl env (MOUNT_HELPER r) c m = io_fail (- ENOTTY) c m"
| "astra_ioctl env OTHER_CMD c m = io_fail (- ENOTTY) c m"

text \<open>
  Loading the module: \<open>reg\<close> is what \<open>misc_register\<close> returns and \<open>param\<close> the module parameter
  \<open>enforce\<close> (0 when it is not given). The file operations \<open>open\<close> and \<open>release\<close> do nothing.
\<close>

definition astra_root_init :: "int \<Rightarrow> int option \<Rightarrow> kmod option \<times> int" where
  "astra_root_init reg param =
    (if reg \<noteq> 0 then (None, reg)
     else (Some \<lparr>enforce = (case param of None \<Rightarrow> 0 | Some v \<Rightarrow> v), policy_table = []\<rparr>, 0))"

section \<open>The bridge\<close>

text \<open>\<open>KernelBridge\<close>'s statics, with the daemon's credentials and the module it talks to.\<close>

record bridge =
  fd :: int
  rooted :: bool
  br_cred :: kcred
  br_mod :: kmod

text \<open>\<open>dev_fd\<close> is what \<open>open("/dev/astra_root")\<close> returns.\<close>

definition bridge_open :: "int \<Rightarrow> bridge \<Rightarrow> bool \<times> bridge" where
  "bridge_open dev_fd b =
    (if fd b \<ge> 0 then (True, b)
     else let b1 = b\<lparr>fd := dev_fd\<rparr> in if dev_fd < 0 then (False, b1) else (True, b1))"

definition bridge_close :: "bridge \<Rightarrow> bridge" where
  "bridge_close b = (if fd b \<ge> 0 then b\<lparr>fd := -1, rooted := False\<rparr> else b)"

definition do_ioctl :: "kenv \<Rightarrow> ioctl_cmd \<Rightarrow> bridge \<Rightarrow> ioctl_result \<times> bridge" where
  "do_ioctl env cmd b =
    (let r = astra_ioctl env cmd (br_cred b) (br_mod b) in (r, b\<lparr>br_cred := io_cred r, br_mod := io_mod r\<rparr>))"

definition bridge_get_root :: "kenv \<Rightarrow> int \<Rightarrow> bridge \<Rightarrow> bool \<times> bridge" where
  "bridge_get_root env dev_fd b =
    (if rooted b then (True, b)
     else
       (let (ok, b1) = bridge_open dev_fd b
        in if \<not> ok then (False, b1)
           else
             (let (r, b2) = do_ioctl env GET_ROOT b1
              in if io_ret r \<noteq> 0 then (False, b2)
                 else if kc_uid (br_cred b2) \<noteq> 0 then (False, b2)
                 else (True, b2\<lparr>rooted := True\<rparr>))))"

definition bridge_get_capabilities :: "kenv \<Rightarrow> int \<Rightarrow> u64 \<Rightarrow> u32 \<Rightarrow> bridge \<Rightarrow> bool \<times> bridge" where
  "bridge_get_capabilities env dev_fd caps uid b =
    (let (ok, b1) = bridge_open dev_fd b
     in if \<not> ok then (False, b1)
        else
          (let (r, b2) = do_ioctl env (GET_CAPS \<lparr>cap_effective = caps, cap_permitted = caps, target_uid = uid,
                 target_gid = uid, caps_result = -1\<rparr>) b1
           in if io_ret r \<noteq> 0 \<or> (case io_caps r of None \<Rightarrow> True | Some a \<Rightarrow> caps_result a \<noteq> 0)
              then (False, b2) else (True, b2)))"

definition bridge_load_policy :: "kenv \<Rightarrow> int \<Rightarrow> u32 \<Rightarrow> u64 \<Rightarrow> bool \<Rightarrow> bridge \<Rightarrow> bool \<times> bridge" where
  "bridge_load_policy env dev_fd uid caps full_root b =
    (let (ok, b1) = bridge_open dev_fd b
     in if \<not> ok then (False, b1)
        else
          (let (r, b2) = do_ioctl env (SET_POLICY \<lparr>pe_uid = uid, allowed_caps = caps,
                 allow_full_root = (if full_root then 1 else 0)\<rparr>) b1
           in if io_ret r \<noteq> 0 then (False, b2) else (True, b2)))"

text \<open>
  The arrays of the mount request hold what \<open>strncpy\<close> fits into them. Command 5 is not a
  case of the module's switch and leaves the request as it was.
\<close>

definition mount_request :: "string \<Rightarrow> string \<Rightarrow> string \<Rightarrow> u64 \<Rightarrow> string \<Rightarrow> mount_req" where
  "mount_request source target fstype flags data =
    \<lparr>mr_source = take 255 (c_str source), mr_target = take 255 (c_str target), mr_fstype = take 63 (c_str fstype),
     mr_flags = flags, mr_data = take 255 (c_str data), mr_result = -1\<rparr>"

definition bridge_mount :: "kenv \<Rightarrow> int \<Rightarrow> string \<Rightarrow> string \<Rightarrow> string \<Rightarrow> u64 \<Rightarrow> string \<Rightarrow> bridge \<Rightarrow> bool \<times> bridge" where
  "bridge_mount env dev_fd source target fstype flags data b =
    (let (ok, b1) = bridge_open dev_fd b
     in if \<not> ok then (False, b1)
        else
          (let req = mount_request source target fstype flags data; (r, b2) = do_ioctl env (MOUNT_HELPER req) b1
           in if io_ret r \<noteq> 0 \<or> mr_result req \<noteq> 0 then (False, b2) else (True, b2)))"

text \<open>\<open>umount_ok\<close> is the answer of \<open>umount2\<close>.\<close>

definition bridge_umount :: "(string \<Rightarrow> bool) \<Rightarrow> string \<Rightarrow> bool" where
  "bridge_umount umount_ok target = (if \<not> umount_ok (c_str target) then False else True)"

definition bridge_is_root :: "bridge \<Rightarrow> bool" where
  "bridge_is_root b = (kc_uid (br_cred b) = 0)"

definition bridge_get_version :: "kenv \<Rightarrow> int \<Rightarrow> bridge \<Rightarrow> int \<times> bridge" where
  "bridge_get_version env dev_fd b =
    (let (ok, b1) = bridge_open dev_fd b
     in if \<not> ok then (-1, b1)
        else (let (r, b2) = do_ioctl env GET_VERSION b1
              in if io_ret r \<noteq> 0 then (-1, b2) else (case io_version r of None \<Rightarrow> 0 | Some v \<Rightarrow> v, b2)))"

section \<open>Capability names\<close>

definition cap_bit :: "nat \<Rightarrow> u64" where
  "cap_bit n = push_bit n 1"

definition ALL_CAPS :: u64 where
  "ALL_CAPS = push_bit 41 1 - 1"

definition CAP_MAP :: "(string \<times> u64) list" where
  "CAP_MAP =
    [(''su.shell'', ALL_CAPS),
     (''su.full'', ALL_CAPS),
     (''mount.bind'', cap_bit 21),
     (''mount.tmpfs'', cap_bit 21),
     (''mount.overlay'', cap_bit 21),
     (''filesystem.chown'', cap_bit 0 OR cap_bit 3 OR cap_bit 4),
     (''filesystem.dac'', cap_bit 1 OR cap_bit 2),
     (''network.raw'', cap_bit 13),
     (''network.admin'', cap_bit 12),
     (''network.bind'', cap_bit 10),
     (''module.load'', cap_bit 16),
     (''system.reboot'', cap_bit 22),
     (''system.time'', cap_bit 25),
     (''system.nice'', cap_bit 23),
     (''system.chroot'', cap_bit 18),
     (''system.ptrace'', cap_bit 19),
     (''system.resource'', cap_bit 24),
     (''property.set'', 0),
     (''property.read'', 0),
     (''audit.write'', cap_bit 29),
     (''audit.control'', cap_bit 30 OR cap_bit 37),
     (''security.mac'', cap_bit 33 OR cap_bit 32),
     (''security.selinux'', cap_bit 33)]"

definition astra_cap_to_linux :: "string \<Rightarrow> u64" where
  "astra_cap_to_linux n = (case map_of CAP_MAP n of Some v \<Rightarrow> v | None \<Rightarrow> 0)"

definition astra_caps_to_linux :: "string list \<Rightarrow> u64" where
  "astra_caps_to_linux ns = foldl (\<lambda>r n. r OR astra_cap_to_linux n) 0 ns"

definition sync_policies_to_kernel :: "bool \<Rightarrow> kenv \<Rightarrow> int \<Rightarrow> bridge \<Rightarrow> bridge" where
  "sync_policies_to_kernel available env dev_fd b =
    (if \<not> available then b
     else snd (bridge_load_policy env dev_fd 2000 ALL_CAPS True
            (snd (bridge_load_policy env dev_fd 0 ALL_CAPS True b))))"

section \<open>Masks\<close>

lemma and_bit_zero: "((msk::u64) AND push_bit c 1) \<noteq> 0 \<longleftrightarrow> c < 64 \<and> bit msk c"
proof -
  have "bit (msk AND push_bit c 1) n = (n = c \<and> c < 64 \<and> bit msk c)" for n
    by (auto simp: bit_simps dest: bit_imp_le_length)
  then show ?thesis by (metis bit_0_eq bit_eqI bot_apply bot_bool_def)
qed

lemma bit_raise_caps:
  "bit (raise_caps msk cs acc) n \<longleftrightarrow> bit acc n \<or> (n \<in> set cs \<and> bit msk n)"
proof (induction cs arbitrary: acc)
  case (Cons c cs)
  have "bit (if (msk AND push_bit c 1) \<noteq> 0 then acc OR push_bit c 1 else acc) n \<longleftrightarrow> bit acc n \<or> (n = c \<and> bit msk n)"
    using and_bit_zero [of msk c] by (auto simp: bit_simps dest: bit_imp_le_length)
  then show ?case using Cons.IH by auto
qed simp

lemma bit_raised: "bit (raised msk) n \<longleftrightarrow> n \<le> CAP_LAST_CAP \<and> bit msk n"
  by (auto simp: raised_def bit_raise_caps)

lemma bit_ALL_CAPS: "bit ALL_CAPS n \<longleftrightarrow> n \<le> 40"
proof -
  have "ALL_CAPS = mask 41" by (simp only: ALL_CAPS_def mask_eq_exp_minus_1 push_bit_eq_mult mult_1)
  then have "bit ALL_CAPS n = bit (mask 41 :: u64) n" by (rule arg_cong)
  then show ?thesis unfolding bit_mask_iff by auto
qed

lemma subset_mask_iff: "((r::u64) AND a) = r \<longleftrightarrow> (\<forall>n. bit r n \<longrightarrow> bit a n)"
  by (auto simp: bit_eq_iff bit_simps) (use bit_imp_le_length [of r] in fastforce)

lemma bit_cap_bit: "bit (cap_bit n) i \<longleftrightarrow> i = n \<and> n < 64"
  by (auto simp: cap_bit_def bit_simps dest: bit_imp_le_length)

lemma bit_caps_to_linux: "bit (astra_caps_to_linux ns) i \<longleftrightarrow> (\<exists>n\<in>set ns. bit (astra_cap_to_linux n) i)"
proof -
  have "bit (foldl (\<lambda>r n. r OR astra_cap_to_linux n) k ns) i \<longleftrightarrow> bit k i \<or> (\<exists>n\<in>set ns. bit (astra_cap_to_linux n) i)" for k
    by (induction ns arbitrary: k) (auto simp: bit_or_iff)
  then show ?thesis by (simp add: astra_caps_to_linux_def)
qed

section \<open>No privilege without a policy\<close>

lemma table_allows_uid: "table_allows ps uid req full \<Longrightarrow> \<exists>p\<in>set ps. pe_uid p = uid"
  by (induction ps) (auto split: if_splits)

lemma check_policy_uncovered:
  "enforce m \<noteq> 0 \<Longrightarrow> \<forall>p\<in>set (policy_table m). pe_uid p \<noteq> uid \<Longrightarrow> check_policy m uid req full = - EPERM"
  using table_allows_uid by (fastforce simp: check_policy_def)

text \<open>A process issuing ioctls one after the other.\<close>

fun ioctl_run :: "(kenv \<times> ioctl_cmd) list \<Rightarrow> kcred \<Rightarrow> kmod \<Rightarrow> kcred \<times> kmod" where
  "ioctl_run [] c m = (c, m)"
| "ioctl_run ((env, cmd) # cmds) c m =
     (let r = astra_ioctl env cmd c m in ioctl_run cmds (io_cred r) (io_mod r))"

lemma uncovered_ioctl:
  assumes "enforce m \<noteq> 0" "kc_uid c \<noteq> 0" "\<forall>p\<in>set (policy_table m). pe_uid p \<noteq> kc_uid c"
  shows "io_cred (astra_ioctl env cmd c m) = c \<and> io_mod (astra_ioctl env cmd c m) = m"
  using check_policy_uncovered [OF assms(1,3)] assms(2)
  by (cases cmd) (auto simp: io_fail_def Let_def EPERM_def)

text \<open>
  C15. No privilege without a policy: in enforcing mode a process that is not root and
  whose uid has no entry in the kernel's table changes neither its credentials nor the
  table, whatever sequence of ioctls it issues.
\<close>

theorem no_privilege_without_policy:
  assumes "enforce m \<noteq> 0" "kc_uid c \<noteq> 0" "\<forall>p\<in>set (policy_table m). pe_uid p \<noteq> kc_uid c"
  shows "ioctl_run cmds c m = (c, m)"
proof (induction cmds)
  case (Cons ec cmds)
  obtain env cmd where ec: "ec = (env, cmd)" by fastforce
  show ?case using Cons uncovered_ioctl [OF assms, of env cmd] by (simp add: ec Let_def)
qed simp

definition shell_table :: kmod where
  "shell_table = \<lparr>enforce = 1, policy_table = [\<lparr>pe_uid = 2000, allowed_caps = ALL_CAPS, allow_full_root = 1\<rparr>]\<rparr>"

definition app_cred :: "u32 \<Rightarrow> kcred" where
  "app_cred uid = \<lparr>kc_uid = uid, kc_gid = uid, kc_effective = 0, kc_permitted = 0, kc_inheritable = 0, kc_bset = 0,
     kc_groups = []\<rparr>"

definition ok_env :: kenv where
  "ok_env = \<lparr>copy_from = True, copy_to = True, cred_alloc = True\<rparr>"

theorem no_privilege_without_policy_witness:
  "ioctl_run [(ok_env, GET_ROOT), (ok_env, SET_POLICY \<lparr>pe_uid = 10123, allowed_caps = ALL_CAPS, allow_full_root = 1\<rparr>)]
     (app_cred 10123) shell_table = (app_cred 10123, shell_table)"
  by (rule no_privilege_without_policy) (simp_all add: shell_table_def app_cred_def)

section \<open>The bridge and the table\<close>

lemma open_ready: "0 \<le> dev_fd \<Longrightarrow> fst (bridge_open dev_fd b) \<and> br_cred (snd (bridge_open dev_fd b)) = br_cred b \<and>
    br_mod (snd (bridge_open dev_fd b)) = br_mod b \<and> rooted (snd (bridge_open dev_fd b)) = rooted b"
  by (simp add: bridge_open_def Let_def)

lemma table_allows_append:
  "\<forall>p\<in>set ps. pe_uid p \<noteq> uid \<Longrightarrow> table_allows (ps @ qs) uid req full = table_allows qs uid req full"
  by (induction ps) auto

text \<open>
  C17. Loading and using a policy: when the daemon is root, the table has room and no entry
  for a uid, \<open>load_policy\<close> for that uid succeeds, and afterwards, in enforcing mode, a
  process of that uid gets root exactly when the policy says so, and gets a set of
  effective capabilities exactly when it is within the allowed mask; the capabilities it
  ends up with are then, bit by bit, the requested ones among the forty-one the kernel knows.
\<close>

theorem policy_load_use:
  assumes "kc_uid (br_cred b) = 0" "length (policy_table (br_mod b)) < 128" "0 \<le> dev_fd"
    and "\<forall>p\<in>set (policy_table (br_mod b)). pe_uid p \<noteq> uid" "enforce (br_mod b) \<noteq> 0"
    and "copy_from env" "copy_to env" "cred_alloc env" "kc_uid c = uid"
  shows "(case bridge_load_policy env dev_fd uid caps full b of (ok, b') \<Rightarrow> ok \<and>
    (io_ret (astra_ioctl env GET_ROOT c (br_mod b')) = 0 \<longleftrightarrow> full) \<and>
    (io_ret (astra_ioctl env (GET_CAPS a) c (br_mod b')) = 0 \<longleftrightarrow> (cap_effective a AND caps) = cap_effective a) \<and>
    (if (cap_effective a AND caps) = cap_effective a
     then (\<forall>n. bit (kc_effective (io_cred (astra_ioctl env (GET_CAPS a) c (br_mod b')))) n \<longleftrightarrow> n \<le> 40 \<and> bit (cap_effective a) n)
     else io_cred (astra_ioctl env (GET_CAPS a) c (br_mod b')) = c))"
proof -
  let ?e = "\<lparr>pe_uid = uid, allowed_caps = caps, allow_full_root = (if full then 1 else 0)\<rparr>"
  let ?m = "(br_mod b)\<lparr>policy_table := policy_table (br_mod b) @ [?e]\<rparr>"
  obtain b1 where o: "bridge_open dev_fd b = (True, b1)" "br_cred b1 = br_cred b" "br_mod b1 = br_mod b"
    using open_ready [OF assms(3), of b] by (cases "bridge_open dev_fd b") auto
  have l: "bridge_load_policy env dev_fd uid caps full b = (True, b1\<lparr>br_cred := br_cred b, br_mod := ?m\<rparr>)"
    using assms(1,2,6) o
    by (simp add: bridge_load_policy_def do_ioctl_def io_fail_def ASTRA_MAX_POLICIES_def)
  have t: "table_allows (policy_table ?m) uid req want =
      (if want then full else (req AND caps) = req)" for req want
    using table_allows_append [OF assms(4), of "[?e]" req want] by simp
  have cp: "check_policy ?m uid req want = (if (if want then full else (req AND caps) = req) then 0 else - EPERM)"
    for req want
    unfolding check_policy_def t using assms(5) by simp
  show ?thesis
    using assms(6-9) by (simp add: l cp io_fail_def EPERM_def new_caps_cred_def bit_raised CAP_LAST_CAP_def Let_def)
qed

definition root_bridge :: bridge where
  "root_bridge = \<lparr>fd = -1, rooted = False, br_cred = app_cred 0, br_mod = \<lparr>enforce = 1, policy_table = []\<rparr>\<rparr>"

theorem policy_load_use_witness:
  "(case bridge_load_policy ok_env 5 10123 (cap_bit 21) False root_bridge of (ok, b') \<Rightarrow> ok \<and>
    (io_ret (astra_ioctl ok_env GET_ROOT (app_cred 10123) (br_mod b')) = 0 \<longleftrightarrow> False) \<and>
    (io_ret (astra_ioctl ok_env (GET_CAPS \<lparr>cap_effective = cap_bit 21, cap_permitted = 0, target_uid = 0,
        target_gid = 0, caps_result = 0\<rparr>) (app_cred 10123) (br_mod b')) = 0 \<longleftrightarrow> (cap_bit 21 AND cap_bit 21) = cap_bit 21) \<and>
    (if (cap_bit 21 AND cap_bit 21) = cap_bit 21
     then (\<forall>n. bit (kc_effective (io_cred (astra_ioctl ok_env (GET_CAPS \<lparr>cap_effective = cap_bit 21, cap_permitted = 0,
        target_uid = 0, target_gid = 0, caps_result = 0\<rparr>) (app_cred 10123) (br_mod b')))) n \<longleftrightarrow> n \<le> 40 \<and> bit (cap_bit 21) n)
     else io_cred (astra_ioctl ok_env (GET_CAPS \<lparr>cap_effective = cap_bit 21, cap_permitted = 0,
        target_uid = 0, target_gid = 0, caps_result = 0\<rparr>) (app_cred 10123) (br_mod b')) = app_cred 10123))"
  using policy_load_use [where b = root_bridge and dev_fd = 5 and uid = 10123 and env = ok_env and
      c = "app_cred 10123" and caps = "cap_bit 21" and full = False and
      a = "\<lparr>cap_effective = cap_bit 21, cap_permitted = 0, target_uid = 0, target_gid = 0, caps_result = 0\<rparr>"]
  by (simp add: root_bridge_def app_cred_def ok_env_def)

text \<open>
  The start-up policy: when the daemon, running as root, finds the module with an empty
  table in enforcing mode, synchronising leaves a table under which exactly the uids of
  root and shell get root, and exactly they get capabilities, any of the forty-one.
\<close>

theorem startup_policy:
  assumes "kc_uid (br_cred b) = 0" "policy_table (br_mod b) = []" "enforce (br_mod b) \<noteq> 0" "0 \<le> dev_fd"
    and "copy_from env"
  shows "check_policy (br_mod (sync_policies_to_kernel True env dev_fd b)) uid req full = 0 \<longleftrightarrow>
    (uid = 0 \<or> uid = 2000) \<and> (full \<or> (req AND ALL_CAPS) = req)"
proof -
  let ?e = "\<lambda>u. \<lparr>pe_uid = u, allowed_caps = ALL_CAPS, allow_full_root = 1\<rparr>"
  have "policy_table (br_mod (sync_policies_to_kernel True env dev_fd b)) = [?e 0, ?e 2000] \<and>
      enforce (br_mod (sync_policies_to_kernel True env dev_fd b)) = enforce (br_mod b)"
    using assms by (simp add: sync_policies_to_kernel_def bridge_load_policy_def bridge_open_def do_ioctl_def
        io_fail_def ASTRA_MAX_POLICIES_def Let_def)
  then show ?thesis using assms(3) by (auto simp: check_policy_def EPERM_def)
qed

theorem startup_policy_witness:
  "check_policy (br_mod (sync_policies_to_kernel True ok_env 5 root_bridge)) 10123 0 True = 0 \<longleftrightarrow>
    ((10123 :: u32) = 0 \<or> (10123 :: u32) = 2000) \<and> (True \<or> (0 AND ALL_CAPS) = 0)"
  by (rule startup_policy) (simp_all add: root_bridge_def app_cred_def ok_env_def)

section \<open>What the table does not protect\<close>

text \<open>
  C37. \<open>GET_CAPS\<close> checks the requested effective set only: in enforcing mode, as long as the kernel can copy the request
  and allocate credentials, any uid with an entry, however
  narrow, obtains every one of the forty-one capabilities in its permitted set by asking for an empty effective set, together
  with any non-root uid of its choice.
\<close>

theorem permitted_set_unchecked:
  assumes "enforce m \<noteq> 0" "p \<in> set (policy_table m)" "pe_uid p = kc_uid c" "copy_from env" "copy_to env" "cred_alloc env" "u \<noteq> 0"
  shows "io_ret (astra_ioctl env (GET_CAPS \<lparr>cap_effective = 0, cap_permitted = ALL_CAPS, target_uid = u,
      target_gid = 0, caps_result = 0\<rparr>) c m) = 0 \<and>
    (\<forall>n. bit (kc_permitted (io_cred (astra_ioctl env (GET_CAPS \<lparr>cap_effective = 0, cap_permitted = ALL_CAPS, target_uid = u,
      target_gid = 0, caps_result = 0\<rparr>) c m))) n \<longleftrightarrow> n \<le> 40) \<and>
    kc_uid (io_cred (astra_ioctl env (GET_CAPS \<lparr>cap_effective = 0, cap_permitted = ALL_CAPS, target_uid = u,
      target_gid = 0, caps_result = 0\<rparr>) c m)) = u"
proof -
  have "table_allows ps uid 0 False" if "q \<in> set ps" "pe_uid q = uid" for ps q uid
    using that by (induction ps) auto
  then have "table_allows (policy_table m) (kc_uid c) 0 False" using assms(2,3) by blast
  then have "check_policy m (kc_uid c) 0 False = 0" using assms(1,2) by (auto simp: check_policy_def)
  moreover have "bit (raised ALL_CAPS) n \<longleftrightarrow> n \<le> 40" for n
    by (auto simp: bit_raised CAP_LAST_CAP_def bit_ALL_CAPS)
  ultimately show ?thesis using assms(4-7) by (simp add: io_fail_def new_caps_cred_def Let_def)
qed

theorem permitted_set_unchecked_witness:
  "io_ret (astra_ioctl ok_env (GET_CAPS \<lparr>cap_effective = 0, cap_permitted = ALL_CAPS, target_uid = 1000,
      target_gid = 0, caps_result = 0\<rparr>) (app_cred 2000) shell_table) = 0 \<and>
    (\<forall>n. bit (kc_permitted (io_cred (astra_ioctl ok_env (GET_CAPS \<lparr>cap_effective = 0, cap_permitted = ALL_CAPS, target_uid = 1000,
      target_gid = 0, caps_result = 0\<rparr>) (app_cred 2000) shell_table))) n \<longleftrightarrow> n \<le> 40) \<and>
    kc_uid (io_cred (astra_ioctl ok_env (GET_CAPS \<lparr>cap_effective = 0, cap_permitted = ALL_CAPS, target_uid = 1000,
      target_gid = 0, caps_result = 0\<rparr>) (app_cred 2000) shell_table)) = 1000"
  by (rule permitted_set_unchecked [of _ "\<lparr>pe_uid = 2000, allowed_caps = ALL_CAPS, allow_full_root = 1\<rparr>"])
    (simp_all add: shell_table_def app_cred_def ok_env_def)

text \<open>A later policy for the same uid has no effect: the first entry decides for good.\<close>

lemma later_policy_ignored:
  "p \<in> set (policy_table m) \<Longrightarrow> pe_uid p = pe_uid e \<Longrightarrow>
     check_policy (m\<lparr>policy_table := policy_table m @ [e]\<rparr>) uid req full = check_policy m uid req full"
proof -
  assume p: "p \<in> set (policy_table m)" "pe_uid p = pe_uid e"
  have "table_allows (ps @ [e]) uid req full = table_allows ps uid req full" if "p \<in> set ps" for ps
  proof (cases "pe_uid e = uid")
    case True
    then show ?thesis using that p(2) by (induction ps) auto
  next
    case False
    then show ?thesis by (induction ps) auto
  qed
  then show ?thesis using p by (auto simp: check_policy_def)
qed

text \<open>The mount helper is not implemented by the module: every bridge mount fails.\<close>

lemma bridge_mount_fails: "\<not> fst (bridge_mount env dev_fd s t f fl dt b)"
  by (simp add: bridge_mount_def do_ioctl_def io_fail_def ENOTTY_def Let_def split: prod.split)

text \<open>
  \<open>rooted_\<close> survives a change of uid: after the daemon has been root and has taken the uid
  of an application with \<open>get_capabilities\<close>, \<open>get_root\<close> still reports success.
\<close>

lemma rooted_flag_stale:
  assumes "rooted b" "fd b \<ge> 0" "enforce (br_mod b) = 0" "copy_from env" "copy_to env" "cred_alloc env" "u \<noteq> 0"
  shows "case bridge_get_capabilities env dev_fd caps u b of (ok, b') \<Rightarrow>
    ok \<and> fst (bridge_get_root env dev_fd b') \<and> \<not> bridge_is_root (snd (bridge_get_root env dev_fd b'))"
  using assms
  by (simp add: bridge_get_capabilities_def bridge_open_def do_ioctl_def check_policy_def io_fail_def
      new_caps_cred_def bridge_get_root_def bridge_is_root_def Let_def)

section \<open>Translation\<close>

text \<open>
  The capability translation is a union: a Linux capability is in the mask of a list
  of names exactly when it is in the mask of one of them, so the order and repetition of
  names are immaterial, unknown names contribute nothing, and no mask has a bit beyond the
  last Linux capability.
\<close>

theorem caps_to_linux_union:
  "(bit (astra_caps_to_linux ns) i \<longleftrightarrow> (\<exists>n\<in>set ns. bit (astra_cap_to_linux n) i)) \<and>
   (set ns = set ns2 \<longrightarrow> astra_caps_to_linux ns = astra_caps_to_linux ns2) \<and>
   (bit (astra_caps_to_linux ns) i \<longrightarrow> i \<le> 40)"
proof -
  have "bit v i \<longrightarrow> i \<le> 40" if "(n, v) \<in> set CAP_MAP" for n v i
    using that by (auto simp: CAP_MAP_def bit_ALL_CAPS bit_cap_bit bit_or_iff)
  then have one: "bit (astra_cap_to_linux n) i \<longrightarrow> i \<le> 40" for n i
    using map_of_SomeD [of CAP_MAP n] by (auto simp: astra_cap_to_linux_def split: option.splits)
  have "astra_caps_to_linux ns = astra_caps_to_linux ns2" if "set ns = set ns2"
    by (rule bit_eqI) (simp add: bit_caps_to_linux that)
  then show ?thesis using one by (auto simp: bit_caps_to_linux)
qed

theorem caps_to_linux_union_witness:
  "(bit (astra_caps_to_linux [''mount.bind'']) 21 \<longleftrightarrow> (\<exists>n\<in>set [''mount.bind'']. bit (astra_cap_to_linux n) 21)) \<and>
   (set [''mount.bind''] = set [''mount.bind'', ''mount.bind''] \<longrightarrow>
      astra_caps_to_linux [''mount.bind''] = astra_caps_to_linux [''mount.bind'', ''mount.bind'']) \<and>
   (bit (astra_caps_to_linux [''mount.bind'']) 21 \<longrightarrow> (21::nat) \<le> 40)"
  by (rule caps_to_linux_union)

end
