(* ===== verification/Sandbox.thy ===== *)
theory Sandbox
  imports Prelude
begin

text \<open>
  The native sandbox (daemon/src/sandbox) and the process that runs a module inside it
  (the child's side of \<open>ModuleRunner::start\<close>, daemon/src/module/module_runner.cpp; the
  parent's side is in \<open>Runner\<close>). The state is the confinement of one process
  (\<open>sproc\<close>); what the kernel and libseccomp answer is in \<open>skernel\<close>. The effects are the
  documented ones of Linux: \<open>unshare(CLONE_NEWPID)\<close> moves the caller's future children and
  not the caller, a procfs mount shows the PID namespace of the process that mounts it and
  covers what was there, a detach uncovers it,
  every installed seccomp filter is consulted on each later system call, and
  \<open>landlock_create_ruleset\<close> refuses access rights its ABI does not know.
\<close>

section \<open>A process and its kernel\<close>

datatype fs_access =
    EXECUTE | WRITE_FILE | READ_FILE | READ_DIR | REMOVE_DIR | REMOVE_FILE | MAKE_CHAR | MAKE_DIR
  | MAKE_REG | MAKE_SOCK | MAKE_FIFO | MAKE_BLOCK | MAKE_SYM | REFER | TRUNCATE

text \<open>A Landlock rule is a path and the rights granted beneath it.\<close>

type_synonym ll_rule = "string \<times> fs_access list"

record ll_ruleset =
  handled_access_fs :: "fs_access list"
  ll_rules :: "ll_rule list"

text \<open>
  Namespaces are numbered; \<open>sp_next_ns\<close> is the next number. \<open>sp_proc_view\<close> is the stack of
  procfs mounts at /proc, each with the PID namespace it shows: the head is the visible one,
  and the empty stack is the plain directory. \<open>sp_filters\<close> are the allowlists of the installed filters.
\<close>

record sproc =
  sp_next_ns :: nat
  sp_mnt_ns :: nat
  sp_pid_ns :: nat
  sp_child_pid_ns :: nat
  sp_net_ns :: nat
  sp_root_private :: bool
  sp_proc_view :: "nat list"
  sp_filters :: "string list list"
  sp_no_new_privs :: bool
  sp_rulesets :: "ll_ruleset list"

record skernel =
  sk_unshare :: bool
  sk_mount_private :: bool
  sk_mount_proc :: "bool \<times> bool"
  sk_umount_proc :: bool
  sk_have_libseccomp :: bool
  sk_seccomp_init :: bool
  sk_rule_add :: "string \<Rightarrow> bool"
  sk_seccomp_load :: bool
  sk_landlock_abi :: int
  sk_prctl :: bool
  sk_create_ruleset :: bool
  sk_open_path :: "string \<Rightarrow> bool"
  sk_add_rule :: "string \<Rightarrow> bool"
  sk_restrict :: bool

text \<open>A system call reaches the kernel when every installed filter allows it.\<close>

definition permitted :: "sproc \<Rightarrow> string \<Rightarrow> bool" where
  "permitted p call = list_all (\<lambda>f. call \<in> set f) (sp_filters p)"

definition sys :: "sproc \<Rightarrow> string \<Rightarrow> bool \<Rightarrow> bool" where
  "sys p call answer = (permitted p call \<and> answer)"

section \<open>Namespaces\<close>

definition unshare_effect :: "bool \<Rightarrow> bool \<Rightarrow> bool \<Rightarrow> sproc \<Rightarrow> sproc" where
  "unshare_effect mountNs pidNs netNs p =
    (let n = sp_next_ns p
     in p\<lparr>sp_next_ns := n + 3,
         sp_mnt_ns := (if mountNs then n else sp_mnt_ns p),
         sp_child_pid_ns := (if pidNs then n + 1 else sp_child_pid_ns p),
         sp_net_ns := (if netNs then n + 2 else sp_net_ns p)\<rparr>)"

definition mark_private :: "skernel \<Rightarrow> sproc \<Rightarrow> bool \<times> sproc" where
  "mark_private k p =
    (if sys p ''mount'' (sk_mount_private k) then (True, p\<lparr>sp_root_private := True\<rparr>) else (False, p))"

text \<open>
  The remount of /proc: mount over the old one, or detach the old one and mount again. When
  the detach succeeds and the second mount fails, the old mount is gone.
\<close>

definition remount_proc :: "skernel \<Rightarrow> sproc \<Rightarrow> sproc" where
  "remount_proc k p =
    (if sys p ''mount'' (fst (sk_mount_proc k)) then p\<lparr>sp_proc_view := sp_pid_ns p # sp_proc_view p\<rparr>
     else if sys p ''umount2'' (sk_umount_proc k)
       then (let p1 = p\<lparr>sp_proc_view := tl (sp_proc_view p)\<rparr>
             in if sys p1 ''mount'' (snd (sk_mount_proc k)) then p1\<lparr>sp_proc_view := sp_pid_ns p1 # sp_proc_view p1\<rparr> else p1)
     else p)"

definition sb_ns_create :: "skernel \<Rightarrow> bool \<Rightarrow> bool \<Rightarrow> bool \<Rightarrow> sproc \<Rightarrow> bool \<times> sproc" where
  "sb_ns_create k mountNs pidNs netNs p =
    (if \<not> mountNs \<and> \<not> pidNs \<and> \<not> netNs then (True, p)
     else if \<not> sys p ''unshare'' (sk_unshare k) then (False, p)
     else
       (let p1 = unshare_effect mountNs pidNs netNs p;
            p2 = snd (mark_private k p1)
        in (True, if pidNs then remount_proc k p2 else p2)))"

definition sb_ns_enter :: bool where
  "sb_ns_enter = True"

definition mount_isolate :: "skernel \<Rightarrow> sproc \<Rightarrow> bool \<times> sproc" where
  "mount_isolate k p = mark_private k p"

section \<open>Seccomp\<close>

definition baseline_syscalls :: "string list" where
  "baseline_syscalls =
    [''read'', ''write'', ''open'', ''openat'', ''close'', ''fstat'', ''newfstatat'', ''lstat'', ''lseek'',
     ''readlink'', ''readlinkat'', ''access'', ''faccessat'', ''getdents'', ''getdents64'',
     ''mmap'', ''mmap2'', ''munmap'', ''mprotect'', ''brk'', ''madvise'',
     ''futex'', ''set_tid_address'', ''gettid'',
     ''getpid'', ''getppid'', ''getuid'', ''geteuid'', ''getgid'', ''getegid'', ''getgroups'',
     ''clock_gettime'', ''clock_gettime64'', ''nanosleep'', ''time'',
     ''rt_sigaction'', ''rt_sigprocmask'', ''rt_sigreturn'', ''sigaltstack'',
     ''poll'', ''ppoll'', ''select'', ''pselect6'', ''epoll_create1'', ''epoll_ctl'', ''epoll_wait'', ''epoll_pwait'',
     ''ioctl'', ''prctl'', ''uname'', ''getrandom'',
     ''exit'', ''exit_group'']"

definition network_syscalls :: "string list" where
  "network_syscalls =
    [''socket'', ''connect'', ''bind'', ''listen'', ''accept'', ''accept4'', ''sendto'', ''recvfrom'', ''sendmsg'',
     ''recvmsg'', ''shutdown'', ''getsockname'', ''getpeername'', ''setsockopt'', ''getsockopt'', ''socketpair'']"

text \<open>
  A rule that cannot be added is logged and left out. \<open>seccomp_load\<close> sets
  \<open>no_new_privs\<close> on its own.
\<close>

definition seccomp_apply :: "skernel \<Rightarrow> bool \<Rightarrow> sproc \<Rightarrow> bool \<times> sproc" where
  "seccomp_apply k allowNetwork p =
    (if \<not> sk_have_libseccomp k then (True, p)
     else if \<not> sk_seccomp_init k then (False, p)
     else
       (let allow = filter (sk_rule_add k) (baseline_syscalls @ (if allowNetwork then network_syscalls else []))
        in if \<not> sys p ''seccomp'' (sk_seccomp_load k) then (False, p)
           else (True, p\<lparr>sp_filters := allow # sp_filters p, sp_no_new_privs := True\<rparr>)))"

section \<open>Landlock\<close>

definition ABI1_access :: "fs_access list" where
  "ABI1_access = [EXECUTE, WRITE_FILE, READ_FILE, READ_DIR, REMOVE_DIR, REMOVE_FILE, MAKE_CHAR, MAKE_DIR,
     MAKE_REG, MAKE_SOCK, MAKE_FIFO, MAKE_BLOCK, MAKE_SYM]"

definition known_access :: "int \<Rightarrow> fs_access list" where
  "known_access abi = ABI1_access @ (if abi \<ge> 2 then [REFER] else []) @ (if abi \<ge> 3 then [TRUNCATE] else [])"

definition HANDLED :: "fs_access list" where
  "HANDLED = [EXECUTE, WRITE_FILE, READ_FILE, READ_DIR, REMOVE_DIR, REMOVE_FILE, MAKE_CHAR, MAKE_DIR,
     MAKE_REG, MAKE_SOCK, MAKE_FIFO, MAKE_BLOCK, MAKE_SYM, REFER, TRUNCATE]"

definition READ_ACCESS :: "fs_access list" where
  "READ_ACCESS = [READ_FILE, READ_DIR]"

definition WRITE_ACCESS :: "fs_access list" where
  "WRITE_ACCESS = [WRITE_FILE, REMOVE_FILE, MAKE_REG, MAKE_DIR, REMOVE_DIR, TRUNCATE]"

text \<open>One of the two binding loops: an empty path, one that cannot be opened and one whose rule is refused are passed over.\<close>

fun bind_paths :: "skernel \<Rightarrow> sproc \<Rightarrow> fs_access list \<Rightarrow> string list \<Rightarrow> ll_rule list" where
  "bind_paths k p acc [] = []"
| "bind_paths k p acc (path # paths) =
     (if path = [] then bind_paths k p acc paths
      else if \<not> sys p ''openat'' (sk_open_path k path) then bind_paths k p acc paths
      else if \<not> sys p ''landlock_add_rule'' (sk_add_rule k path) then bind_paths k p acc paths
      else (path, acc) # bind_paths k p acc paths)"

definition landlock_apply :: "skernel \<Rightarrow> string list \<Rightarrow> string list \<Rightarrow> sproc \<Rightarrow> bool \<times> sproc" where
  "landlock_apply k readPaths writePaths p =
    (if \<not> sys p ''landlock_create_ruleset'' (sk_landlock_abi k > 0) then (True, p)
     else if \<not> sys p ''prctl'' (sk_prctl k) then (False, p)
     else
       (let p1 = p\<lparr>sp_no_new_privs := True\<rparr>
        in if \<not> sys p ''landlock_create_ruleset''
                (sk_create_ruleset k \<and> list_all (\<lambda>a. a \<in> set (known_access (sk_landlock_abi k))) HANDLED)
           then (True, p1)
           else
             (let rs = \<lparr>handled_access_fs = HANDLED,
                  ll_rules = bind_paths k p1 READ_ACCESS readPaths @ bind_paths k p1 WRITE_ACCESS writePaths\<rparr>
              in if \<not> sys p1 ''landlock_restrict_self'' (sk_restrict k) then (False, p1)
                 else (True, p1\<lparr>sp_rulesets := rs # sp_rulesets p1\<rparr>))))"

section \<open>SandboxManager\<close>

record sandbox_policy =
  mountNamespace :: bool
  pidNamespace :: bool
  networkNamespace :: bool
  pol_seccomp :: bool
  pol_landlock :: bool
  allowNetwork :: bool
  pol_moduleId :: string

definition default_sandbox_policy :: sandbox_policy where
  "default_sandbox_policy = \<lparr>mountNamespace = True, pidNamespace = False, networkNamespace = False,
     pol_seccomp = False, pol_landlock = False, allowNetwork = False, pol_moduleId = []\<rparr>"

definition module_dir :: "string \<Rightarrow> string" where
  "module_dir moduleId = ''/data/astra/modules/'' @ moduleId"

definition sandbox_create :: "skernel \<Rightarrow> string \<Rightarrow> sproc \<Rightarrow> bool \<times> sproc" where
  "sandbox_create k moduleId p =
    (let policy = default_sandbox_policy\<lparr>pol_moduleId := moduleId, mountNamespace := True, pidNamespace := True,
           networkNamespace := False, pol_seccomp := True, pol_landlock := True\<rparr>;
         (ok, p1) = sb_ns_create k (mountNamespace policy) (pidNamespace policy) (networkNamespace policy) p
     in if \<not> ok then (False, p1)
        else
          (let p2 = snd (mount_isolate k p1);
               p3 = (if pol_seccomp policy then snd (seccomp_apply k (allowNetwork policy) p2) else p2);
               p4 = (if pol_landlock policy
                     then snd (landlock_apply k [''/system'', ''/vendor'', ''/product'', module_dir moduleId]
                                 [module_dir moduleId, ''/data/local/tmp''] p3)
                     else p3)
           in (True, p4)))"

definition sandbox_destroy :: "string \<Rightarrow> bool" where
  "sandbox_destroy moduleId = True"

section \<open>The module process\<close>



section \<open>Frames\<close>

text \<open>What each layer leaves alone.\<close>

definition ns_part :: "sproc \<Rightarrow> nat \<times> nat \<times> nat \<times> nat \<times> nat" where
  "ns_part p = (sp_next_ns p, sp_mnt_ns p, sp_pid_ns p, sp_child_pid_ns p, sp_net_ns p)"

definition lock_part :: "sproc \<Rightarrow> string list list \<times> ll_ruleset list" where
  "lock_part p = (sp_filters p, sp_rulesets p)"

lemma mark_private_frame [frame_simps]:
  "ns_part (snd (mark_private k p)) = ns_part p" "lock_part (snd (mark_private k p)) = lock_part p"
  "sp_proc_view (snd (mark_private k p)) = sp_proc_view p"
  by (simp_all add: mark_private_def ns_part_def lock_part_def)

lemma remount_proc_frame [frame_simps]:
  "ns_part (remount_proc k p) = ns_part p" "lock_part (remount_proc k p) = lock_part p"
  by (simp_all add: remount_proc_def ns_part_def lock_part_def Let_def)



lemma seccomp_frame [frame_simps]:
  "ns_part (snd (seccomp_apply k net p)) = ns_part p" "sp_rulesets (snd (seccomp_apply k net p)) = sp_rulesets p"
  "sp_proc_view (snd (seccomp_apply k net p)) = sp_proc_view p"
  by (simp_all add: seccomp_apply_def ns_part_def Let_def)

lemma landlock_frame [frame_simps]:
  "ns_part (snd (landlock_apply k rp wp p)) = ns_part p" "sp_filters (snd (landlock_apply k rp wp p)) = sp_filters p"
  "sp_proc_view (snd (landlock_apply k rp wp p)) = sp_proc_view p"
  by (simp_all add: landlock_apply_def ns_part_def Let_def)

text \<open>The process after the namespace and mount steps, before the filter.\<close>

definition after_ns :: "skernel \<Rightarrow> sproc \<Rightarrow> sproc" where
  "after_ns k p = snd (mark_private k (remount_proc k (snd (mark_private k (unshare_effect True True False p)))))"

lemma after_ns_part:
  "ns_part (after_ns k p) = (sp_next_ns p + 3, sp_next_ns p, sp_pid_ns p, sp_next_ns p + 1, sp_net_ns p)"
  "lock_part (after_ns k p) = lock_part p"
  by (simp_all add: after_ns_def frame_simps) (simp_all add: unshare_effect_def ns_part_def lock_part_def Let_def)


lemma sandbox_create_split:
  "sandbox_create k mid p =
    (if sys p ''unshare'' (sk_unshare k)
     then (True, snd (landlock_apply k [''/system'', ''/vendor'', ''/product'', module_dir mid]
                 [module_dir mid, ''/data/local/tmp''] (snd (seccomp_apply k False (after_ns k p)))))
     else (False, p))"
  by (simp add: sandbox_create_def sb_ns_create_def default_sandbox_policy_def mount_isolate_def after_ns_def Let_def)

section \<open>Running a module\<close>


section \<open>What the sandbox enforces\<close>

lemma landlock_blocked:
  "\<not> permitted p ''landlock_create_ruleset'' \<Longrightarrow> landlock_apply k rp wp p = (True, p)"
  by (simp add: landlock_apply_def sys_def)

lemma landlock_not_allowed:
  "''landlock_create_ruleset'' \<notin> set (baseline_syscalls @ network_syscalls)"
  by (simp add: baseline_syscalls_def network_syscalls_def)

text \<open>
  C30. Seccomp and Landlock exclude each other: whenever the seccomp filter is installed,
  the sandbox is created successfully without any Landlock ruleset, on every kernel,
  because the filter, which is installed first, does not allow the Landlock calls. The
  filter itself is sound: only calls of the baseline list remain permitted.
\<close>

theorem seccomp_disables_landlock:
  assumes "sk_have_libseccomp k" "sk_seccomp_init k" "sk_seccomp_load k" "sk_unshare k" "sp_filters p = []"
  shows "case sandbox_create k mid p of (ok, q) \<Rightarrow> ok \<and> sp_rulesets q = sp_rulesets p \<and>
    (permitted q call \<longleftrightarrow> call \<in> set baseline_syscalls \<and> sk_rule_add k call)"
proof -
  let ?s = "snd (seccomp_apply k False (after_ns k p))"
  have lp: "sp_filters (after_ns k p) = []" "sp_rulesets (after_ns k p) = sp_rulesets p"
    using after_ns_part(2) [of k p] assms(5) by (simp_all add: lock_part_def)
  then have f: "sp_filters ?s = [filter (sk_rule_add k) baseline_syscalls]"
    using assms by (simp add: seccomp_apply_def sys_def permitted_def Let_def)
  then have "\<not> permitted ?s ''landlock_create_ruleset''"
    using landlock_not_allowed by (simp add: permitted_def)
  then have "sandbox_create k mid p = (True, ?s)"
    using assms by (simp add: sandbox_create_split landlock_blocked sys_def permitted_def)
  moreover have "sp_rulesets ?s = sp_rulesets p" by (simp add: frame_simps lp)
  ultimately show ?thesis using f by (auto simp: permitted_def)
qed

definition good_skernel :: "bool \<Rightarrow> int \<Rightarrow> skernel" where
  "good_skernel lib abi = \<lparr>sk_unshare = True, sk_mount_private = True, sk_mount_proc = (True, True), sk_umount_proc = True,
     sk_have_libseccomp = lib, sk_seccomp_init = True, sk_rule_add = (\<lambda>_. True), sk_seccomp_load = True,
     sk_landlock_abi = abi, sk_prctl = True, sk_create_ruleset = True, sk_open_path = (\<lambda>_. True),
     sk_add_rule = (\<lambda>_. True), sk_restrict = True\<rparr>"

definition forked_proc :: sproc where
  "forked_proc = \<lparr>sp_next_ns = 1, sp_mnt_ns = 0, sp_pid_ns = 0, sp_child_pid_ns = 0, sp_net_ns = 0,
     sp_root_private = False, sp_proc_view = [0], sp_filters = [], sp_no_new_privs = False, sp_rulesets = []\<rparr>"

theorem seccomp_disables_landlock_witness:
  "case sandbox_create (good_skernel True 5) ''a.b'' forked_proc of (ok, q) \<Rightarrow> ok \<and> sp_rulesets q = sp_rulesets forked_proc \<and>
    (permitted q ''execve'' \<longleftrightarrow> ''execve'' \<in> set baseline_syscalls \<and> sk_rule_add (good_skernel True 5) ''execve'')"
  by (rule seccomp_disables_landlock) (simp_all add: good_skernel_def forked_proc_def)

lemma handled_known: "list_all (\<lambda>a. a \<in> set (known_access abi)) HANDLED \<longleftrightarrow> 3 \<le> abi"
  by (auto simp: HANDLED_def known_access_def ABI1_access_def)

text \<open>
  Landlock without seccomp: in a build without libseccomp, when the kernel answers
  every call, the module is confined by exactly one ruleset, which grants reading beneath
  four directories and writing beneath two, provided the kernel's Landlock ABI is at least
  3; on an older ABI, which does not know the rights REFER and TRUNCATE the code asks
  for, the sandbox is created without any ruleset.
\<close>

theorem landlock_confinement:
  assumes "\<not> sk_have_libseccomp k" "sk_unshare k" "sp_filters p = []" "sk_prctl k" "sk_create_ruleset k" "sk_restrict k"
    and "list_all (\<lambda>x. sk_open_path k x \<and> sk_add_rule k x)
      [''/system'', ''/vendor'', ''/product'', module_dir mid, ''/data/local/tmp'']"
  shows "case sandbox_create k mid p of (ok, q) \<Rightarrow> ok \<and>
    sp_rulesets q =
      (if 3 \<le> sk_landlock_abi k
       then [\<lparr>handled_access_fs = HANDLED,
              ll_rules = [(''/system'', READ_ACCESS), (''/vendor'', READ_ACCESS), (''/product'', READ_ACCESS),
                          (module_dir mid, READ_ACCESS), (module_dir mid, WRITE_ACCESS), (''/data/local/tmp'', WRITE_ACCESS)]\<rparr>]
       else []) @ sp_rulesets p"
proof -
  let ?a = "after_ns k p"
  have lp: "sp_filters ?a = []" "sp_rulesets ?a = sp_rulesets p"
    using after_ns_part(2) [of k p] assms(3) by (simp_all add: lock_part_def)
  have e: "sandbox_create k mid p = (True, snd (landlock_apply k [''/system'', ''/vendor'', ''/product'', module_dir mid]
                 [module_dir mid, ''/data/local/tmp''] ?a))"
    using assms(1-3) by (simp add: sandbox_create_split seccomp_apply_def sys_def permitted_def)
  show ?thesis
    unfolding e landlock_apply_def handled_known
    using assms(4-7) lp by (auto simp: sys_def permitted_def module_dir_def)
qed

theorem landlock_confinement_witness:
  "case sandbox_create (good_skernel False 4) ''a.b'' forked_proc of (ok, q) \<Rightarrow> ok \<and>
    sp_rulesets q =
      (if 3 \<le> sk_landlock_abi (good_skernel False 4)
       then [\<lparr>handled_access_fs = HANDLED,
              ll_rules = [(''/system'', READ_ACCESS), (''/vendor'', READ_ACCESS), (''/product'', READ_ACCESS),
                          (module_dir ''a.b'', READ_ACCESS), (module_dir ''a.b'', WRITE_ACCESS), (''/data/local/tmp'', WRITE_ACCESS)]\<rparr>]
       else []) @ sp_rulesets forked_proc"
  by (rule landlock_confinement) (simp_all add: good_skernel_def forked_proc_def)

text \<open>The result of \<open>create\<close> depends on the namespaces alone.\<close>

lemma sandbox_create_fail_open: "fst (sandbox_create k mid p) \<longleftrightarrow> sys p ''unshare'' (sk_unshare k)"
  by (simp add: sandbox_create_split)

end
