(* ===== verification/Runner.thy ===== *)
theory Runner
  imports Sandbox
begin

text \<open>
  The parent's side of \<open>ModuleRunner\<close> (daemon/src/module/module_runner.cpp): the table
  \<open>g_running\<close> of module processes, \<open>start\<close> and \<open>stop\<close>. Both functions release \<open>g_mutex\<close>
  between their critical sections, so a call is not one step: each thread has a control
  point, one definition per stretch of code between two of them, and the steps of
  different threads interleave freely. The child processes are part of the state: alive,
  or exited and not yet reaped. The kernel chooses the pid of a fork, when a process exits
  and whether a blocking \<open>waitpid\<close> is interrupted; \<open>waitpid\<close> reports a process exactly when
  it has exited and is not yet reaped, SIGKILL ends a process, and a pid is not reused
  before the process is reaped, as documented.
\<close>

section \<open>State\<close>

datatype runner_event =
    Launched int | Terminated int | Missed int | Collected int | Killed int

text \<open>
  Where a thread is: in \<open>start\<close> after the double-start check, or after the fork; in \<open>stop\<close>
  after the lookup, in the polling loop with \<open>i\<close> polls done, after SIGKILL, or at the label
  \<open>reaped\<close>.
\<close>

datatype runner_pc =
    Checked string | Forked string int
  | Found string int | Polling string int nat | KillSent string int | AtReaped string int

fun pc_module :: "runner_pc \<Rightarrow> string" where
  "pc_module (Checked m) = m"
| "pc_module (Forked m pid) = m"
| "pc_module (Found m pid) = m"
| "pc_module (Polling m pid i) = m"
| "pc_module (KillSent m pid) = m"
| "pc_module (AtReaped m pid) = m"

text \<open>
  The children are pairs of module and pid. \<open>r_log\<close> records launches, signals and polls, each
  with the module whose \<open>start\<close> or \<open>stop\<close> performed it.
\<close>

record runner =
  g_running :: "string \<rightharpoonup> int"
  r_threads :: "nat \<rightharpoonup> runner_pc"
  r_alive :: "(string \<times> int) list"
  r_zombies :: "(string \<times> int) list"
  r_log :: "(string \<times> runner_event) list"

definition runner_init :: runner where
  "runner_init = \<lparr>g_running = Map.empty, r_threads = Map.empty, r_alive = [], r_zombies = [], r_log = []\<rparr>"

definition goto :: "nat \<Rightarrow> runner_pc \<Rightarrow> runner \<Rightarrow> runner" where
  "goto t pc r = r\<lparr>r_threads := (r_threads r)(t \<mapsto> pc)\<rparr>"

definition returns :: "nat \<Rightarrow> runner \<Rightarrow> runner" where
  "returns t r = r\<lparr>r_threads := (r_threads r)(t := None)\<rparr>"

definition note_event :: "string \<Rightarrow> runner_event \<Rightarrow> runner \<Rightarrow> runner" where
  "note_event m e r = r\<lparr>r_log := r_log r @ [(m, e)]\<rparr>"

section \<open>start\<close>

text \<open>The double-start check, under the mutex.\<close>

definition start_check :: "nat \<Rightarrow> string \<Rightarrow> runner \<Rightarrow> runner" where
  "start_check t m r = (if g_running r m \<noteq> None then r else goto t (Checked m) r)"

text \<open>The fork, without the mutex; \<open>child\<close> is what it returns to the parent.\<close>

definition start_fork :: "nat \<Rightarrow> string \<Rightarrow> int \<Rightarrow> runner \<Rightarrow> runner" where
  "start_fork t m child r =
    (if child < 0 then returns t r
     else goto t (Forked m child) (note_event m (Launched child) (r\<lparr>r_alive := (m, child) # r_alive r\<rparr>)))"

text \<open>The recording of the pid, under the mutex again.\<close>

definition start_record :: "nat \<Rightarrow> string \<Rightarrow> int \<Rightarrow> runner \<Rightarrow> runner" where
  "start_record t m child r = returns t (r\<lparr>g_running := (g_running r)(m \<mapsto> child)\<rparr>)"

section \<open>stop\<close>

definition stop_find :: "nat \<Rightarrow> string \<Rightarrow> runner \<Rightarrow> runner" where
  "stop_find t m r = (case g_running r m of None \<Rightarrow> r | Some pid \<Rightarrow> goto t (Found m pid) r)"

text \<open>SIGTERM asks; when the process exits is up to it.\<close>

definition stop_term :: "nat \<Rightarrow> string \<Rightarrow> int \<Rightarrow> runner \<Rightarrow> runner" where
  "stop_term t m pid r = goto t (Polling m pid 0) (note_event m (Terminated pid) r)"

definition reap :: "int \<Rightarrow> runner \<Rightarrow> runner" where
  "reap pid r = r\<lparr>r_zombies := filter (\<lambda>c. snd c \<noteq> pid) (r_zombies r)\<rparr>"

text \<open>One round of the loop: \<open>waitpid(pid, WNOHANG)\<close>, after thirty rounds SIGKILL.\<close>

definition stop_poll :: "nat \<Rightarrow> string \<Rightarrow> int \<Rightarrow> nat \<Rightarrow> runner \<Rightarrow> runner" where
  "stop_poll t m pid i r =
    (if i < 30 then
       (if pid \<in> snd ` set (r_zombies r)
        then goto t (AtReaped m pid) (note_event m (Collected pid) (reap pid r))
        else goto t (Polling m pid (i + 1)) (note_event m (Missed pid) r))
     else goto t (KillSent m pid) (note_event m (Killed pid)
       (r\<lparr>r_alive := filter (\<lambda>c. snd c \<noteq> pid) (r_alive r),
          r_zombies := filter (\<lambda>c. snd c = pid) (r_alive r) @ r_zombies r\<rparr>)))"

text \<open>The blocking \<open>waitpid\<close>, whose result is not looked at: a signal may interrupt it.\<close>

definition stop_wait :: "nat \<Rightarrow> string \<Rightarrow> int \<Rightarrow> bool \<Rightarrow> runner \<Rightarrow> runner" where
  "stop_wait t m pid interrupted r = goto t (AtReaped m pid) (if interrupted then r else reap pid r)"

definition stop_erase :: "nat \<Rightarrow> string \<Rightarrow> runner \<Rightarrow> runner" where
  "stop_erase t m r = (let _ = sandbox_destroy m in returns t (r\<lparr>g_running := (g_running r)(m := None)\<rparr>))"

section \<open>Interleaving\<close>

definition busy :: "runner \<Rightarrow> string \<Rightarrow> bool" where
  "busy r m \<longleftrightarrow> (\<exists>t pc. r_threads r t = Some pc \<and> pc_module pc = m)"

text \<open>
  A step of one thread, or the exit of a module process. With \<open>serial\<close>, a call for a module
  begins only while no other thread is inside \<open>start\<close> or \<open>stop\<close> for the same module.
\<close>

inductive runner_step :: "bool \<Rightarrow> runner \<Rightarrow> runner \<Rightarrow> bool" for serial :: bool where
  r_check: "r_threads r t = None \<Longrightarrow> (serial \<longrightarrow> \<not> busy r m) \<Longrightarrow> runner_step serial r (start_check t m r)"
| r_fork: "r_threads r t = Some (Checked m) \<Longrightarrow> child \<noteq> 0 \<Longrightarrow> child \<notin> snd ` set (r_alive r @ r_zombies r) \<Longrightarrow>
    runner_step serial r (start_fork t m child r)"
| r_record: "r_threads r t = Some (Forked m pid) \<Longrightarrow> runner_step serial r (start_record t m pid r)"
| r_find: "r_threads r t = None \<Longrightarrow> (serial \<longrightarrow> \<not> busy r m) \<Longrightarrow> runner_step serial r (stop_find t m r)"
| r_term: "r_threads r t = Some (Found m pid) \<Longrightarrow> runner_step serial r (stop_term t m pid r)"
| r_poll: "r_threads r t = Some (Polling m pid i) \<Longrightarrow> runner_step serial r (stop_poll t m pid i r)"
| r_wait: "r_threads r t = Some (KillSent m pid) \<Longrightarrow> runner_step serial r (stop_wait t m pid interrupted r)"
| r_erase: "r_threads r t = Some (AtReaped m pid) \<Longrightarrow> runner_step serial r (stop_erase t m r)"
| r_exit: "(m, pid) \<in> set (r_alive r) \<Longrightarrow>
    runner_step serial r (r\<lparr>r_alive := filter (\<lambda>c. snd c \<noteq> pid) (r_alive r), r_zombies := (m, pid) # r_zombies r\<rparr>)"

inductive runner_reach :: "bool \<Rightarrow> runner \<Rightarrow> bool" for serial :: bool where
  reach_init: "runner_reach serial runner_init"
| reach_step: "runner_reach serial r \<Longrightarrow> runner_step serial r r' \<Longrightarrow> runner_reach serial r'"

section \<open>Specification\<close>

text \<open>
  The life of a module as the runner is meant to conduct it: launched while down, asked to
  end while up, then polled at most thirty times, and killed exactly after thirty polls in
  vain.
\<close>

datatype phase = Down | Up int | Ending int nat

fun phase_step :: "runner_event \<Rightarrow> phase \<Rightarrow> phase option" where
  "phase_step (Launched pid) Down = Some (Up pid)"
| "phase_step (Terminated pid) (Up q) = (if q = pid then Some (Ending pid 0) else None)"
| "phase_step (Missed pid) (Ending q n) = (if q = pid \<and> n < 30 then Some (Ending pid (n + 1)) else None)"
| "phase_step (Collected pid) (Ending q n) = (if q = pid \<and> n < 30 then Some Down else None)"
| "phase_step (Killed pid) (Ending q n) = (if q = pid \<and> n = 30 then Some Down else None)"
| "phase_step _ _ = None"

fun phase_pid :: "phase \<Rightarrow> int option" where
  "phase_pid Down = None"
| "phase_pid (Up pid) = Some pid"
| "phase_pid (Ending pid n) = Some pid"

definition phase_run :: "runner_event list \<Rightarrow> phase option" where
  "phase_run es = fold (\<lambda>e ph. Option.bind ph (phase_step e)) es (Some Down)"

definition module_log :: "string \<Rightarrow> runner \<Rightarrow> runner_event list" where
  "module_log m r = map snd (filter (\<lambda>e. fst e = m) (r_log r))"

section \<open>Invariant\<close>

text \<open>What a thread's control point says of its module's phase and table entry.\<close>

fun pc_phase :: "runner_pc \<Rightarrow> phase" where
  "pc_phase (Checked m) = Down"
| "pc_phase (Forked m pid) = Up pid"
| "pc_phase (Found m pid) = Up pid"
| "pc_phase (Polling m pid i) = Ending pid i"
| "pc_phase (KillSent m pid) = Down"
| "pc_phase (AtReaped m pid) = Down"

fun pc_entry :: "runner_pc \<Rightarrow> int option" where
  "pc_entry (Checked m) = None"
| "pc_entry (Forked m pid) = None"
| "pc_entry (Found m pid) = Some pid"
| "pc_entry (Polling m pid i) = Some pid"
| "pc_entry (KillSent m pid) = Some pid"
| "pc_entry (AtReaped m pid) = Some pid"

definition idle_phase :: "int option \<Rightarrow> phase" where
  "idle_phase e = (case e of None \<Rightarrow> Down | Some pid \<Rightarrow> Up pid)"

text \<open>The invariant of one module, and of the whole state.\<close>

definition mod_inv :: "runner \<Rightarrow> string \<Rightarrow> phase \<Rightarrow> bool" where
  "mod_inv r m ph \<longleftrightarrow> phase_run (module_log m r) = Some ph \<and>
    (\<forall>pid. (m, pid) \<in> set (r_alive r) \<longrightarrow> phase_pid ph = Some pid) \<and>
    (\<forall>pid. phase_pid ph = Some pid \<longrightarrow> (m, pid) \<in> set (r_alive r) \<union> set (r_zombies r)) \<and>
    (\<forall>t pc. r_threads r t = Some pc \<longrightarrow> pc_module pc = m \<longrightarrow> ph = pc_phase pc \<and> g_running r m = pc_entry pc) \<and>
    (\<forall>t pid. r_threads r t = Some (KillSent m pid) \<longrightarrow> (m, pid) \<in> set (r_zombies r)) \<and>
    (\<not> busy r m \<longrightarrow> ph = idle_phase (g_running r m))"

definition runner_inv :: "runner \<Rightarrow> bool" where
  "runner_inv r \<longleftrightarrow> (\<forall>m. \<exists>ph. mod_inv r m ph) \<and>
    (\<forall>t u pc qc. r_threads r t = Some pc \<longrightarrow> r_threads r u = Some qc \<longrightarrow> pc_module pc = pc_module qc \<longrightarrow> t = u) \<and>
    distinct (map snd (r_alive r @ r_zombies r))"

text \<open>Thread \<open>t\<close> is the only one inside a call for module \<open>m\<close>, if there is one.\<close>

definition worker :: "runner \<Rightarrow> nat \<Rightarrow> string \<Rightarrow> bool" where
  "worker r t m \<longleftrightarrow> (\<forall>u pc. r_threads r u = Some pc \<longrightarrow> pc_module pc = m \<longleftrightarrow> u = t)"

lemma worker_thread: "runner_inv r \<Longrightarrow> r_threads r t = Some pc \<Longrightarrow> worker r t (pc_module pc)"
  by (simp add: runner_inv_def worker_def) (metis option.inject)

lemma worker_new: "r_threads r t = None \<Longrightarrow> \<not> busy r m \<Longrightarrow> worker r t m"
  unfolding busy_def worker_def by force

text \<open>
  A step of the only thread inside a call for \<open>m\<close> keeps the invariant when it changes
  nothing of other modules and leaves the facts of \<open>m\<close> in order.
\<close>

lemma inv_advance:
  assumes inv: "runner_inv r" and w: "worker r t m"
    and th: "r_threads r' = (r_threads r)(t := pco)" "\<And>pc. pco = Some pc \<Longrightarrow> pc_module pc = m"
    and frame: "\<And>k. k \<noteq> m \<Longrightarrow> module_log k r' = module_log k r \<and> g_running r' k = g_running r k"
      "\<And>k pid. k \<noteq> m \<Longrightarrow> (k, pid) \<in> set (r_alive r') \<longleftrightarrow> (k, pid) \<in> set (r_alive r)"
      "\<And>k pid. k \<noteq> m \<Longrightarrow> (k, pid) \<in> set (r_zombies r') \<longleftrightarrow> (k, pid) \<in> set (r_zombies r)"
    and dist: "distinct (map snd (r_alive r' @ r_zombies r'))"
    and ph: "phase_run (module_log m r') = Some ph"
      "\<And>pid. (m, pid) \<in> set (r_alive r') \<Longrightarrow> phase_pid ph = Some pid"
      "\<And>pid. phase_pid ph = Some pid \<Longrightarrow> (m, pid) \<in> set (r_alive r') \<union> set (r_zombies r')"
      "case pco of None \<Rightarrow> ph = idle_phase (g_running r' m) | Some pc \<Rightarrow> ph = pc_phase pc \<and> g_running r' m = pc_entry pc"
      "\<And>pid. pco = Some (KillSent m pid) \<Longrightarrow> (m, pid) \<in> set (r_zombies r')"
  shows "runner_inv r'"
proof -
  have mine: "u = t \<and> pco = Some pc" if "r_threads r' u = Some pc" "pc_module pc = m" for u pc
    using that w by (auto simp: th(1) worker_def split: if_splits)
  have others: "r_threads r u = Some pc" if "r_threads r' u = Some pc" "pc_module pc \<noteq> m" for u pc
    using that th(2) by (auto simp: th(1) split: if_splits)
  have kept: "r_threads r' u = Some pc" if "r_threads r u = Some pc" "pc_module pc \<noteq> m" for u pc
    using that w by (auto simp: th(1) worker_def)
  have "ph = idle_phase (g_running r' m)" if "\<not> busy r' m"
    using that th(2) ph(4) by (cases pco) (auto simp: busy_def th(1) dest: spec [of _ t])
  moreover have "ph = pc_phase pc \<and> g_running r' m = pc_entry pc" if "r_threads r' u = Some pc" "pc_module pc = m" for u pc
    using mine [OF that] ph(4) by simp
  moreover have "(m, pid) \<in> set (r_zombies r')" if "r_threads r' u = Some (KillSent m pid)" for u pid
    using mine [OF that] ph(5) by simp
  ultimately have "mod_inv r' m ph" unfolding mod_inv_def using ph(1-3) by blast
  moreover have "\<exists>q. mod_inv r' k q" if "k \<noteq> m" for k
  proof -
    obtain q where q: "mod_inv r k q" using inv unfolding runner_inv_def by blast
    have "busy r' k = busy r k" unfolding busy_def by (metis others kept that)
    moreover have "r_threads r' u = Some pc \<Longrightarrow> pc_module pc = k \<Longrightarrow> r_threads r u = Some pc" for u pc
      using others that by simp
    ultimately have "mod_inv r' k q" using q by (simp add: mod_inv_def frame [OF that]) (metis pc_module.simps(5))
    then show ?thesis ..
  qed
  moreover have "u = v" if "r_threads r' u = Some pc" "r_threads r' v = Some qc" "pc_module pc = pc_module qc" for u v pc qc
    using that mine [of u pc] mine [of v qc] others [of u pc] others [of v qc] inv unfolding runner_inv_def by metis
  ultimately show ?thesis using dist unfolding runner_inv_def by metis
qed

lemma phase_run_snoc: "phase_run (es @ [e]) = Option.bind (phase_run es) (phase_step e)"
  by (simp add: phase_run_def)

text \<open>What the invariant says where a thread is inside a call, and where none is.\<close>

lemma inv_thread:
  assumes "runner_inv r" "r_threads r t = Some pc"
  shows "mod_inv r (pc_module pc) (pc_phase pc)" "g_running r (pc_module pc) = pc_entry pc"
proof -
  obtain ph where "mod_inv r (pc_module pc) ph" using assms(1) unfolding runner_inv_def by blast
  moreover from this have "ph = pc_phase pc \<and> g_running r (pc_module pc) = pc_entry pc"
    using assms(2) by (simp add: mod_inv_def)
  ultimately show "mod_inv r (pc_module pc) (pc_phase pc)" "g_running r (pc_module pc) = pc_entry pc" by simp_all
qed

lemma inv_idle:
  assumes "runner_inv r" "\<not> busy r m"
  shows "mod_inv r m (idle_phase (g_running r m))"
proof -
  obtain ph where "mod_inv r m ph" using assms(1) unfolding runner_inv_def by blast
  moreover from this have "ph = idle_phase (g_running r m)" using assms(2) by (simp add: mod_inv_def)
  ultimately show ?thesis by simp
qed

lemma inv_distinct: "runner_inv r \<Longrightarrow> distinct (map snd (r_alive r @ r_zombies r))"
  by (simp add: runner_inv_def)

lemma mod_invD:
  assumes "mod_inv r m ph"
  shows "phase_run (module_log m r) = Some ph" "\<And>pid. (m, pid) \<in> set (r_alive r) \<Longrightarrow> phase_pid ph = Some pid"
    "\<And>pid. phase_pid ph = Some pid \<Longrightarrow> (m, pid) \<in> set (r_alive r) \<union> set (r_zombies r)"
  using assms by (auto simp: mod_inv_def)

text \<open>A step that only moves the thread and perhaps the table entry.\<close>

lemma inv_move:
  assumes "runner_inv r" "worker r t m" "mod_inv r m ph"
    and "r' = r\<lparr>g_running := (g_running r)(m := e), r_threads := (r_threads r)(t := pco)\<rparr>"
    and "\<And>pc. pco = Some pc \<Longrightarrow> pc_module pc = m"
    and "case pco of None \<Rightarrow> ph = idle_phase e | Some pc \<Rightarrow> ph = pc_phase pc \<and> e = pc_entry pc"
    and "\<And>pid. pco \<noteq> Some (KillSent m pid)"
  shows "runner_inv r'"
  by (rule inv_advance [OF assms(1,2), of r' pco ph])
    (use assms(5,6,7) mod_invD [OF assms(3)] inv_distinct [OF assms(1)] in
      \<open>simp_all add: assms(4) module_log_def cong: option.case_cong\<close>)

lemma inv_check:
  assumes "runner_inv r" "r_threads r t = None" "\<not> busy r m"
  shows "runner_inv (start_check t m r)"
proof (cases "g_running r m")
  case None
  show ?thesis
    by (rule inv_move [OF assms(1) worker_new [OF assms(2,3)] inv_idle [OF assms(1,3)], where pco = "Some (Checked m)" and e = None])
      (simp_all add: start_check_def None goto_def idle_phase_def fun_upd_idem)
qed (simp add: start_check_def assms)

lemma inv_find:
  assumes "runner_inv r" "r_threads r t = None" "\<not> busy r m"
  shows "runner_inv (stop_find t m r)"
proof (cases "g_running r m")
  case (Some pid)
  show ?thesis
    by (rule inv_move [OF assms(1) worker_new [OF assms(2,3)] inv_idle [OF assms(1,3)], where pco = "Some (Found m pid)" and e = "Some pid"])
      (simp_all add: stop_find_def Some goto_def idle_phase_def fun_upd_idem)
qed (simp add: stop_find_def assms)

lemma inv_record:
  assumes "runner_inv r" "r_threads r t = Some (Forked m pid)"
  shows "runner_inv (start_record t m pid r)"
  using inv_move [OF assms(1) worker_thread [OF assms] inv_thread(1) [OF assms], where pco = None and e = "Some pid"]
  by (simp add: start_record_def returns_def idle_phase_def)

lemma inv_erase:
  assumes "runner_inv r" "r_threads r t = Some (AtReaped m pid)"
  shows "runner_inv (stop_erase t m r)"
  using inv_move [OF assms(1) worker_thread [OF assms] inv_thread(1) [OF assms], where pco = None and e = None]
  by (simp add: stop_erase_def returns_def idle_phase_def)

text \<open>
  A step that logs an event of the specification: the children are those of before up to
  the module's own, and the new phase is the specification's.
\<close>

lemma inv_event:
  assumes "runner_inv r" "worker r t m" "mod_inv r m ph0" "phase_step ev ph0 = Some ph"
    and "r' = goto t pc (note_event m ev (r\<lparr>r_alive := al, r_zombies := zo\<rparr>))"
    and "pc_module pc = m" "ph = pc_phase pc" "g_running r m = pc_entry pc"
    and "\<And>k pid. k \<noteq> m \<Longrightarrow> ((k, pid) \<in> set al \<longleftrightarrow> (k, pid) \<in> set (r_alive r)) \<and> ((k, pid) \<in> set zo \<longleftrightarrow> (k, pid) \<in> set (r_zombies r))"
    and "distinct (map snd (al @ zo))" "\<And>pid. (m, pid) \<in> set al \<Longrightarrow> phase_pid ph = Some pid"
    and "\<And>pid. phase_pid ph = Some pid \<Longrightarrow> (m, pid) \<in> set al \<union> set zo"
    and "\<And>pid. pc = KillSent m pid \<Longrightarrow> (m, pid) \<in> set zo"
  shows "runner_inv r'"
proof (rule inv_advance [OF assms(1,2), of r' "Some pc" ph])
  have log: "module_log k r' = module_log k r @ (if k = m then [ev] else [])" for k
    by (simp add: assms(5) module_log_def goto_def note_event_def)
  show "phase_run (module_log m r') = Some ph"
    using assms(4) mod_invD(1) [OF assms(3)] by (simp add: log phase_run_snoc)
  show "module_log k r' = module_log k r \<and> g_running r' k = g_running r k" if "k \<noteq> m" for k
    using that by (simp add: log) (simp add: assms(5) goto_def note_event_def)
qed (use assms(6-13) in \<open>simp_all add: assms(5) goto_def note_event_def\<close>)

lemma child_unique:
  "distinct (map snd cs) \<Longrightarrow> (k, pid) \<in> set cs \<Longrightarrow> (m, pid) \<in> set cs \<Longrightarrow> k = m"
  by (metis distinct_map inj_on_def prod.inject snd_conv)

lemma inv_fork:
  assumes "runner_inv r" "r_threads r t = Some (Checked m)" "child \<notin> snd ` set (r_alive r @ r_zombies r)"
  shows "runner_inv (start_fork t m child r)"
proof (cases "child < 0")
  case True
  have "g_running r m = None" using inv_thread(2) [OF assms(1,2)] by simp
  then show ?thesis
    using inv_move [OF assms(1) worker_thread [OF assms(1,2)] inv_thread(1) [OF assms(1,2)], where pco = None and e = None]
    by (simp add: start_fork_def True returns_def idle_phase_def fun_upd_idem)
next
  case False
  note i = inv_thread [OF assms(1,2), simplified]
  have "\<not> (m, pid) \<in> set (r_alive r)" for pid using mod_invD(2) [OF i(1)] by auto
  then show ?thesis
    by (intro inv_event [OF assms(1) worker_thread [OF assms(1,2), simplified] i(1), where ev = "Launched child" and
          ph = "Up child" and al = "(m, child) # r_alive r" and zo = "r_zombies r"])
      (use False assms(3) i(2) inv_distinct [OF assms(1)] in \<open>auto simp: start_fork_def\<close>)
qed

lemma inv_log_only:
  assumes "runner_inv r" "r_threads r t = Some pc0" "phase_step ev (pc_phase pc0) = Some (pc_phase pc)"
    and "pc_module pc = pc_module pc0" "pc_entry pc = pc_entry pc0" "phase_pid (pc_phase pc) = phase_pid (pc_phase pc0)"
    and "\<And>pid. pc \<noteq> KillSent (pc_module pc0) pid"
  shows "runner_inv (goto t pc (note_event (pc_module pc0) ev r))"
proof (rule inv_event [OF assms(1) worker_thread [OF assms(1,2)] inv_thread(1) [OF assms(1,2)] assms(3)])
  show "goto t pc (note_event (pc_module pc0) ev r) =
      goto t pc (note_event (pc_module pc0) ev (r\<lparr>r_alive := r_alive r, r_zombies := r_zombies r\<rparr>))" by simp
  show "distinct (map snd (r_alive r @ r_zombies r))" by (rule inv_distinct [OF assms(1)])
  show "g_running r (pc_module pc0) = pc_entry pc" by (simp add: inv_thread(2) [OF assms(1,2)] assms(5))
  fix pid
  show "phase_pid (pc_phase pc) = Some pid" if "(pc_module pc0, pid) \<in> set (r_alive r)"
    unfolding assms(6) by (rule mod_invD(2) [OF inv_thread(1) [OF assms(1,2)] that])
  show "(pc_module pc0, pid) \<in> set (r_alive r) \<union> set (r_zombies r)" if "phase_pid (pc_phase pc) = Some pid"
    using that unfolding assms(6) by (rule mod_invD(3) [OF inv_thread(1) [OF assms(1,2)]])
qed (simp_all add: assms(4,7))

lemma inv_term:
  assumes "runner_inv r" "r_threads r t = Some (Found m pid)"
  shows "runner_inv (stop_term t m pid r)"
  using inv_log_only [OF assms, of "Terminated pid" "Polling m pid 0"] by (simp add: stop_term_def)

lemma inv_miss:
  assumes "runner_inv r" "r_threads r t = Some (Polling m pid i)" "i < 30" "pid \<notin> snd ` set (r_zombies r)"
  shows "runner_inv (stop_poll t m pid i r)"
  using inv_log_only [OF assms(1,2), of "Missed pid" "Polling m pid (i + 1)"] assms(3,4) by (simp add: stop_poll_def)

lemma inv_hit:
  assumes "runner_inv r" "r_threads r t = Some (Polling m pid i)" "i < 30" "pid \<in> snd ` set (r_zombies r)"
  shows "runner_inv (stop_poll t m pid i r)"
proof -
  note k = inv_thread [OF assms(1,2), simplified]
  note d = inv_distinct [OF assms(1)]
  have c: "(m, pid) \<in> set (r_alive r @ r_zombies r)" using mod_invD(3) [OF k(1)] by simp
  have "pid \<notin> snd ` set (r_alive r)" using assms(4) d by auto
  then have "\<not> (m, q) \<in> set (r_alive r)" for q using mod_invD(2) [OF k(1), of q] by force
  moreover have "n \<noteq> m \<Longrightarrow> (n, pid) \<notin> set (r_zombies r)" for n using child_unique [OF d _ c] by auto
  ultimately show ?thesis
    by (intro inv_event [OF assms(1) worker_thread [OF assms(1,2), simplified] k(1), where ev = "Collected pid" and
          ph = Down and al = "r_alive r" and zo = "filter (\<lambda>c. snd c \<noteq> pid) (r_zombies r)"])
      (use k(2) assms(3,4) d in \<open>auto simp: stop_poll_def reap_def distinct_map_filter\<close>)
qed

lemma inv_kill:
  assumes "runner_inv r" "r_threads r t = Some (Polling m pid i)" "i = 30"
  shows "runner_inv (stop_poll t m pid i r)"
proof -
  note k = inv_thread [OF assms(1,2), simplified]
  note d = inv_distinct [OF assms(1)]
  have c: "(m, pid) \<in> set (r_alive r @ r_zombies r)" using mod_invD(3) [OF k(1)] by simp
  have o: "(n, pid) \<notin> set (r_alive r)" if "n \<noteq> m" for n using child_unique [OF d _ c] that by auto
  show ?thesis
  proof (rule inv_event [OF assms(1) worker_thread [OF assms(1,2), simplified] k(1)])
    show "phase_step (Killed pid) (Ending pid i) = Some Down" by (simp add: assms(3))
    show "stop_poll t m pid i r = goto t (KillSent m pid) (note_event m (Killed pid)
        (r\<lparr>r_alive := filter (\<lambda>c. snd c \<noteq> pid) (r_alive r), r_zombies := filter (\<lambda>c. snd c = pid) (r_alive r) @ r_zombies r\<rparr>))"
      by (simp add: stop_poll_def assms(3))
    show "distinct (map snd (filter (\<lambda>c. snd c \<noteq> pid) (r_alive r) @ filter (\<lambda>c. snd c = pid) (r_alive r) @ r_zombies r))"
      using d by (auto simp: distinct_map_filter)
    show "phase_pid Down = Some q" if "(m, q) \<in> set (filter (\<lambda>c. snd c \<noteq> pid) (r_alive r))" for q
      using that mod_invD(2) [OF k(1), of q] by simp
  qed (use o c k(2) in auto)
qed

lemma inv_wait:
  assumes "runner_inv r" "r_threads r t = Some (KillSent m pid)"
  shows "runner_inv (stop_wait t m pid interrupted r)"
proof -
  note k = inv_thread [OF assms, simplified]
  note d = inv_distinct [OF assms(1)]
  have "(m, pid) \<in> set (r_alive r @ r_zombies r)" using k(1) assms(2) by (auto simp: mod_inv_def)
  then have "n \<noteq> m \<Longrightarrow> (n, pid) \<notin> set (r_zombies r)" for n using child_unique [OF d, of n pid m] by auto
  moreover have "module_log n (stop_wait t m pid interrupted r) = module_log n r" for n
    by (simp add: stop_wait_def goto_def reap_def module_log_def)
  ultimately show ?thesis
    by (cases interrupted; intro inv_advance [OF assms(1) worker_thread [OF assms, simplified], where pco = "Some (AtReaped m pid)" and ph = Down])
      (use k(2) mod_invD [OF k(1)] d in \<open>auto simp: stop_wait_def goto_def reap_def distinct_map_filter\<close>)
qed

lemma inv_exit:
  assumes "runner_inv r" "(m, pid) \<in> set (r_alive r)"
  shows "runner_inv (r\<lparr>r_alive := filter (\<lambda>c. snd c \<noteq> pid) (r_alive r), r_zombies := (m, pid) # r_zombies r\<rparr>)"
proof -
  let ?r = "r\<lparr>r_alive := filter (\<lambda>c. snd c \<noteq> pid) (r_alive r), r_zombies := (m, pid) # r_zombies r\<rparr>"
  note d = inv_distinct [OF assms(1)]
  have "(n, pid) \<in> set (r_alive r) \<Longrightarrow> n = m" for n using child_unique [of "r_alive r" n pid m] assms(2) d by simp
  then have "mod_inv r n ph \<Longrightarrow> mod_inv ?r n ph" for n ph
    by (auto simp: mod_inv_def busy_def module_log_def)
  moreover have "pid \<notin> snd ` set (r_zombies r)" using d assms(2) by force
  then have "distinct (map snd (r_alive ?r @ r_zombies ?r))"
    using d by (auto simp: distinct_map_filter)
  ultimately show ?thesis using assms(1) by (simp add: runner_inv_def) metis
qed

lemma phase_run_bound: "phase_run es = Some (Ending pid n) \<Longrightarrow> n \<le> 30"
proof (induction es rule: rev_induct)
  case (snoc e es)
  then show ?case by (cases e; cases "phase_run es"; cases "the (phase_run es)") (auto simp: phase_run_snoc split: if_splits)
qed (simp add: phase_run_def)

lemma inv_poll:
  assumes "runner_inv r" "r_threads r t = Some (Polling m pid i)"
  shows "runner_inv (stop_poll t m pid i r)"
proof -
  have "i \<le> 30" using phase_run_bound mod_invD(1) [OF inv_thread(1) [OF assms]] by simp
  then consider "i = 30" | "i < 30" "pid \<in> snd ` set (r_zombies r)" | "i < 30" "pid \<notin> snd ` set (r_zombies r)" by linarith
  then show ?thesis by cases (use inv_kill inv_hit inv_miss assms in blast)+
qed

lemma inv_init: "runner_inv runner_init"
  by (simp add: runner_inv_def mod_inv_def runner_init_def busy_def module_log_def phase_run_def idle_phase_def)

lemma inv_step: "runner_step True r r' \<Longrightarrow> runner_inv r \<Longrightarrow> runner_inv r'"
  by (induction rule: runner_step.induct)
    (blast intro: inv_check inv_fork inv_record inv_find inv_term inv_poll inv_wait inv_erase inv_exit)+

lemma inv_reach: "runner_reach True r \<Longrightarrow> runner_inv r"
  by (induction rule: runner_reach.induct) (blast intro: inv_init inv_step)+

section \<open>The life of a module process\<close>

text \<open>The overlap of two calls of \<open>start\<close>: both check, both fork, both record.\<close>

definition overlapping_starts :: "string \<Rightarrow> runner" where
  "overlapping_starts m = start_record 1 m 8 (start_record 0 m 7 (start_fork 1 m 8 (start_fork 0 m 7
     (start_check 1 m (start_check 0 m runner_init)))))"

lemma overlapping_starts_state:
  "overlapping_starts m = \<lparr>g_running = [m \<mapsto> 8], r_threads = Map.empty, r_alive = [(m, 8), (m, 7)], r_zombies = [],
     r_log = [(m, Launched 7), (m, Launched 8)]\<rparr>"
  by (simp add: overlapping_starts_def start_record_def start_fork_def start_check_def goto_def returns_def note_event_def
      runner_init_def fun_upd_twist)

lemma overlapping_starts_reachable: "runner_reach False (overlapping_starts m)"
  unfolding overlapping_starts_def
  by (intro reach_step [OF _ r_record] reach_step [OF _ r_fork] reach_step [OF _ r_check] reach_init)
    (simp_all add: start_record_def start_fork_def start_check_def goto_def returns_def note_event_def runner_init_def)

text \<open>
  C31. As long as no two calls for the same module overlap, whatever the interleaving of
  calls for different modules, of the kernel's answers and of the exits of processes: the
  launches, signals and polls of each module follow its life cycle, in which a process is
  launched only when the previous one is gone, SIGTERM goes to the launched process, then
  come at most thirty polls, and SIGKILL is sent to it exactly after thirty polls in vain. At
  most one process of the module is alive, the one of the current life; while it is not ended
  its pid names a child of this module and of no other; and when no call is in progress the
  table records exactly it. Overlapping calls are not excluded by the mutex: two
  calls of \<open>start\<close> can end with two live processes and only one of them in the table.
\<close>

theorem runner_life_cycle:
  "(runner_reach True r \<longrightarrow>
     (\<exists>ph. phase_run (module_log m r) = Some ph \<and>
       (\<forall>pid. (m, pid) \<in> set (r_alive r) \<longrightarrow> phase_pid ph = Some pid) \<and>
       (\<forall>pid. phase_pid ph = Some pid \<longrightarrow> (\<forall>k. (k, pid) \<in> set (r_alive r) \<union> set (r_zombies r) \<longleftrightarrow> k = m)) \<and>
       (\<not> busy r m \<longrightarrow> ph = (case g_running r m of None \<Rightarrow> Down | Some pid \<Rightarrow> Up pid)))) \<and>
   (\<exists>q. runner_reach False q \<and> r_threads q = Map.empty \<and> (m, 7) \<in> set (r_alive q) \<and> (m, 8) \<in> set (r_alive q) \<and>
      g_running q = [m \<mapsto> 8])"
proof (intro conjI impI)
  assume "runner_reach True r"
  then have inv: "runner_inv r" by (rule inv_reach)
  then obtain ph where ph: "mod_inv r m ph" unfolding runner_inv_def by blast
  have "(k, pid) \<in> set (r_alive r) \<union> set (r_zombies r) \<longleftrightarrow> k = m" if "phase_pid ph = Some pid" for k pid
    using mod_invD(3) [OF ph that] child_unique [OF inv_distinct [OF inv], of k pid m] by auto
  then show "\<exists>ph. phase_run (module_log m r) = Some ph \<and>
       (\<forall>pid. (m, pid) \<in> set (r_alive r) \<longrightarrow> phase_pid ph = Some pid) \<and>
       (\<forall>pid. phase_pid ph = Some pid \<longrightarrow> (\<forall>k. (k, pid) \<in> set (r_alive r) \<union> set (r_zombies r) \<longleftrightarrow> k = m)) \<and>
       (\<not> busy r m \<longrightarrow> ph = (case g_running r m of None \<Rightarrow> Down | Some pid \<Rightarrow> Up pid))"
    using ph mod_invD(1,2) [OF ph] by (intro exI [of _ ph]) (simp add: mod_inv_def idle_phase_def)
next
  show "\<exists>q. runner_reach False q \<and> r_threads q = Map.empty \<and> (m, 7) \<in> set (r_alive q) \<and> (m, 8) \<in> set (r_alive q) \<and>
      g_running q = [m \<mapsto> 8]"
    using overlapping_starts_reachable by (intro exI [of _ "overlapping_starts m"]) (simp add: overlapping_starts_state)
qed

definition one_start :: runner where
  "one_start = start_record 0 ''a'' 7 (start_fork 0 ''a'' 7 (start_check 0 ''a'' runner_init))"

lemma one_start_reachable: "runner_reach True one_start"
  unfolding one_start_def
  by (intro reach_step [OF _ r_record] reach_step [OF _ r_fork] reach_step [OF _ r_check] reach_init)
    (simp_all add: start_record_def start_fork_def start_check_def goto_def returns_def note_event_def runner_init_def busy_def)

theorem runner_life_cycle_witness:
  "\<exists>ph. phase_run (module_log ''a'' one_start) = Some ph \<and>
       (\<forall>pid. (''a'', pid) \<in> set (r_alive one_start) \<longrightarrow> phase_pid ph = Some pid) \<and>
       (\<forall>pid. phase_pid ph = Some pid \<longrightarrow> (\<forall>k. (k, pid) \<in> set (r_alive one_start) \<union> set (r_zombies one_start) \<longleftrightarrow> k = ''a'')) \<and>
       (\<not> busy one_start ''a'' \<longrightarrow> ph = (case g_running one_start ''a'' of None \<Rightarrow> Down | Some pid \<Rightarrow> Up pid))"
  using runner_life_cycle [of one_start "''a''"] one_start_reachable by (elim conjE) (rule mp)

end
