(* ===== verification/Platform.thy ===== *)
theory Platform
  imports RootFacade
begin

text \<open>
  The device-facing helpers of the daemon: the crash guard and the snapshot manager
  (daemon/src/recovery), the boot-image parser and provider (daemon/src/boot), the Android
  version detection (daemon/src/platform), the property store (daemon/src/android) and the
  SELinux probes (daemon/src/security/selinux_manager.cpp, policy_loader.cpp). Files are
  those of the host record of the prelude, or the file map of the root facade where the
  code writes.
\<close>

section \<open>The crash guard\<close>

definition kCrashThreshold :: int where
  "kCrashThreshold = 3"

text \<open>The counters; fewer than \<open>2 ^ 31\<close> crashes of a module are taken for granted.\<close>

type_synonym crash_counts = "string \<rightharpoonup> int"

definition register_module :: "crash_counts \<Rightarrow> string \<Rightarrow> crash_counts" where
  "register_module cc i = cc(i \<mapsto> 0)"

text \<open>\<open>operator[]\<close> creates a missing counter at 0.\<close>

definition report_crash :: "crash_counts \<Rightarrow> string \<Rightarrow> bool \<times> crash_counts" where
  "report_crash cc i =
    (let count = (case cc i of None \<Rightarrow> 0 | Some n \<Rightarrow> n) + 1 in (count \<ge> kCrashThreshold, cc(i \<mapsto> count)))"

definition should_disable :: "crash_counts \<Rightarrow> string \<Rightarrow> bool" where
  "should_disable cc i = (case cc i of None \<Rightarrow> False | Some n \<Rightarrow> n \<ge> kCrashThreshold)"

datatype crash_op = Register string | Crash string

fun crash_step :: "crash_counts \<Rightarrow> crash_op \<Rightarrow> crash_counts" where
  "crash_step cc (Register i) = register_module cc i"
| "crash_step cc (Crash i) = snd (report_crash cc i)"

text \<open>The specification: how often each module has crashed since it was last registered.\<close>

fun crashes :: "(string \<Rightarrow> nat) \<Rightarrow> crash_op \<Rightarrow> (string \<Rightarrow> nat)" where
  "crashes f (Register i) = f(i := 0)"
| "crashes f (Crash i) = f(i := Suc (f i))"

definition counts :: "crash_counts \<Rightarrow> (string \<Rightarrow> nat) \<Rightarrow> bool" where
  "counts cc f \<longleftrightarrow> (\<forall>i. (case cc i of None \<Rightarrow> 0 | Some n \<Rightarrow> n) = int (f i))"

interpretation guard: simulation crash_step "\<lambda>_. True" "\<lambda>_. True" crashes counts
proof
  show "counts (crash_step cc op) (crashes f op)" if "counts cc f" for cc f op
    using that by (cases op) (auto simp: counts_def register_module_def report_crash_def Let_def)
qed simp

text \<open>
  The crash guard: after any history, a module is to be disabled exactly when it has
  crashed at least three times since it was last registered (or ever, if it never was),
  whatever happened to other modules; and the report that reaches the threshold says so.
\<close>

theorem crash_guard_threshold:
  "(should_disable (foldl crash_step Map.empty ops) i \<longleftrightarrow> 3 \<le> foldl crashes (\<lambda>_. 0) ops i) \<and>
   (fst (report_crash (foldl crash_step Map.empty ops) i) \<longleftrightarrow> 2 \<le> foldl crashes (\<lambda>_. 0) ops i)"
proof -
  have "counts (foldl crash_step Map.empty ops) (foldl crashes (\<lambda>_. 0) ops)"
    by (rule guard.rel_run) (simp_all add: counts_def list_all_iff)
  then have "(case foldl crash_step Map.empty ops i of None \<Rightarrow> 0 | Some n \<Rightarrow> n) = int (foldl crashes (\<lambda>_. 0) ops i)"
    unfolding counts_def by blast
  then show ?thesis
    by (auto simp: should_disable_def report_crash_def kCrashThreshold_def Let_def split: option.splits)
qed

section \<open>Snapshots\<close>

definition snapshot_path :: "string \<Rightarrow> string" where
  "snapshot_path i = ''/data/astra/recovery/'' @ i @ ''.snap''"

text \<open>Opening decides the result; a write that stops short goes unnoticed.\<close>

definition create_snapshot :: "file_sys \<Rightarrow> files \<Rightarrow> string \<Rightarrow> bool \<times> files" where
  "create_snapshot sys fs i =
    (if \<not> fs_open_write sys (snapshot_path i) then (False, fs)
     else (True, snd (file_write sys fs (snapshot_path i) (''astra-snapshot:'' @ i @ [nl]))))"

text \<open>\<open>restore\<close> throws (None) when \<open>stat\<close> fails for another reason than that the file is missing.\<close>

definition restore_snapshot :: "(string \<Rightarrow> bool) \<Rightarrow> files \<Rightarrow> string \<Rightarrow> bool option" where
  "restore_snapshot stat_error fs i =
    (if stat_error (snapshot_path i) then None else if fs (snapshot_path i) = None then Some False else Some True)"

lemma snapshot_path_inj: "snapshot_path i = snapshot_path j \<longleftrightarrow> i = j"
  by (simp add: snapshot_path_def)

text \<open>
  Snapshots: a snapshot that was created can be restored unless \<open>stat\<close> fails, and until then nothing else is
  affected: the other snapshots are as restorable as before, and every other file is
  unchanged; a snapshot that could not be created leaves the files as they were.
\<close>

theorem snapshot_then_restore:
  "(case create_snapshot sys fs i of (ok, fs') \<Rightarrow>
     (if ok then restore_snapshot e fs' i \<noteq> Some False else fs' = fs) \<and>
     (if j = i then True else restore_snapshot e fs' j = restore_snapshot e fs j) \<and>
     (if path = snapshot_path i then True else fs' path = fs path))"
  by (auto simp: create_snapshot_def restore_snapshot_def file_write_def snapshot_path_inj)

section \<open>Boot images\<close>

record boot_info =
  bi_valid :: bool
  bi_android_version :: int
  bi_has_ramdisk :: bool

definition default_boot_info :: boot_info where
  "default_boot_info = \<lparr>bi_valid = False, bi_android_version = 0, bi_has_ramdisk = False\<rparr>"

definition boot_parse :: "host \<Rightarrow> string \<Rightarrow> boot_info" where
  "boot_parse h path = (case h_read h path of
      None \<Rightarrow> default_boot_info
    | Some content \<Rightarrow>
        (let magic = take 8 content
         in if length magic \<noteq> 8 then default_boot_info
            else if magic \<noteq> ''ANDROID!'' then
              (if magic = ''VNDRBOOT'' then default_boot_info\<lparr>bi_valid := True, bi_has_ramdisk := True\<rparr>
               else default_boot_info)
            else default_boot_info\<lparr>bi_valid := True, bi_has_ramdisk := True\<rparr>))"

definition kBootPaths :: "string list" where
  "kBootPaths = [''/dev/block/by-name/init_boot'', ''/dev/block/by-name/vendor_boot'', ''/dev/block/by-name/boot'']"

text \<open>\<open>boot_path_\<close>, empty until an image is found.\<close>

definition abp_detect :: "host \<Rightarrow> string \<Rightarrow> (bool \<times> string) option" where
  "abp_detect h boot_path = (case find_existing h kBootPaths of
      None \<Rightarrow> None
    | Some None \<Rightarrow> Some (False, boot_path)
    | Some (Some p) \<Rightarrow> Some (True, p))"

definition abp_unpack :: "host \<Rightarrow> string \<Rightarrow> (bool \<times> string) option" where
  "abp_unpack h boot_path =
    (case (if boot_path = [] then abp_detect h boot_path else Some (True, boot_path)) of
       None \<Rightarrow> None
     | Some (found, bp) \<Rightarrow> if \<not> found then Some (False, bp) else Some (bi_valid (boot_parse h bp), bp))"

definition abp_patch :: "host \<Rightarrow> string \<Rightarrow> (bool \<times> string) option" where
  "abp_patch h boot_path = (case abp_unpack h boot_path of
      None \<Rightarrow> None
    | Some (ok, bp) \<Rightarrow> if \<not> ok then Some (False, bp) else Some (True, bp))"

definition abp_restore :: bool where
  "abp_restore = True"

lemma boot_parse_valid:
  "bi_valid (boot_parse h path) \<longleftrightarrow>
     (case h_read h path of None \<Rightarrow> False | Some s \<Rightarrow> prefix ''ANDROID!'' s \<or> prefix ''VNDRBOOT'' s)"
proof -
  have take8: "take 8 s = m \<longleftrightarrow> prefix m s" if "length m = 8" for s m :: string
    using that by (auto simp: take_is_prefix prefix_def) (metis append_take_drop_id)
  have len: "length (take 8 s) = 8" if "prefix m s" "length m = 8" for s m :: string
    using that prefix_length_le [of m s] by simp
  show ?thesis
  proof (cases "h_read h path")
    case (Some s)
    have "take 8 s = ''ANDROID!'' \<longleftrightarrow> prefix ''ANDROID!'' s" "take 8 s = ''VNDRBOOT'' \<longleftrightarrow> prefix ''VNDRBOOT'' s"
      by (rule take8, simp)+
    then show ?thesis
      using Some len [of "''ANDROID!''" s] len [of "''VNDRBOOT''" s]
      by (simp add: boot_parse_def default_boot_info_def Let_def)
  qed (simp add: boot_parse_def default_boot_info_def)
qed

text \<open>
  Patching a boot image, as long as \<open>stat\<close> works on the three partitions: a fresh provider reports success exactly when one of the three
  partitions exists and the first of them, in the order init_boot, vendor_boot, boot,
  starts with one of the two known magics; a later partition is never used when an earlier
  one exists, even if only the later one is an image.
\<close>

theorem boot_patch_iff:
  assumes "list_all (\<lambda>p. \<not> h_stat_error h p) kBootPaths"
  shows "map_option fst (abp_patch h []) = Some
     (case find (h_exists h) [''/dev/block/by-name/init_boot'', ''/dev/block/by-name/vendor_boot'', ''/dev/block/by-name/boot''] of
        None \<Rightarrow> False
      | Some p \<Rightarrow> (case h_read h p of None \<Rightarrow> False | Some s \<Rightarrow> prefix ''ANDROID!'' s \<or> prefix ''VNDRBOOT'' s))"
proof -
  have "find_existing h kBootPaths = Some (find (h_exists h) kBootPaths)"
    using assms by (intro find_existing_ok) (simp add: list_all_iff)
  then show ?thesis
    by (auto simp: abp_patch_def abp_unpack_def abp_detect_def boot_parse_valid kBootPaths_def [symmetric] split: option.splits)
qed

section \<open>The Android version\<close>

datatype android_version =
    VERSION_UNKNOWN | ANDROID_10 | ANDROID_11 | ANDROID_12 | ANDROID_13 | ANDROID_14 | ANDROID_15 | ANDROID_16

fun platform_label :: "android_version \<Rightarrow> string" where
  "platform_label ANDROID_10 = ''Android 10''"
| "platform_label ANDROID_11 = ''Android 11''"
| "platform_label ANDROID_12 = ''Android 12''"
| "platform_label ANDROID_13 = ''Android 13''"
| "platform_label ANDROID_14 = ''Android 14''"
| "platform_label ANDROID_15 = ''Android 15''"
| "platform_label ANDROID_16 = ''Android 16''"
| "platform_label VERSION_UNKNOWN = ''Android (unknown)''"

fun api_level_from_version :: "android_version \<Rightarrow> int" where
  "api_level_from_version ANDROID_10 = 29"
| "api_level_from_version ANDROID_11 = 30"
| "api_level_from_version ANDROID_12 = 31"
| "api_level_from_version ANDROID_13 = 33"
| "api_level_from_version ANDROID_14 = 34"
| "api_level_from_version ANDROID_15 = 35"
| "api_level_from_version ANDROID_16 = 36"
| "api_level_from_version VERSION_UNKNOWN = 0"

text \<open>
  Android's property store: reading gives the value, empty for a property that is not set;
  a host build (\<open>p_android\<close> false) has none.
\<close>

record props =
  p_android :: bool
  p_get :: "string \<Rightarrow> string"
  p_set_ok :: "string \<Rightarrow> string \<Rightarrow> bool"

text \<open>The fallback: the first line with the key, read from the 24th character after its start.\<close>

fun release_from_lines :: "string list \<Rightarrow> int" where
  "release_from_lines [] = 0"
| "release_from_lines (l # ls) = (case find_sub ''ro.build.version.release='' l of
      None \<Rightarrow> release_from_lines ls
    | Some pos \<Rightarrow> atoi (c_str (drop (pos + 24) l)))"

definition version_of_release :: "int \<Rightarrow> android_version" where
  "version_of_release release =
    (if release = 10 then ANDROID_10
     else if release = 11 then ANDROID_11
     else if release = 12 then ANDROID_12
     else if release = 13 then ANDROID_13
     else if release = 14 then ANDROID_14
     else if release = 15 then ANDROID_15
     else if release = 16 then ANDROID_16
     else VERSION_UNKNOWN)"

definition detect_android_version :: "props \<Rightarrow> host \<Rightarrow> android_version" where
  "detect_android_version ps h =
    version_of_release
      (if p_android ps
       then (let v = p_get ps ''ro.build.version.release'' in if v \<noteq> [] then atoi v else 0)
       else (case h_read h ''/system/build.prop'' of None \<Rightarrow> 0 | Some s \<Rightarrow> release_from_lines (getlines s)))"

definition make_android_platform :: "props \<Rightarrow> host \<Rightarrow> android_version option" where
  "make_android_platform ps h =
    (let v = detect_android_version ps h in if v = VERSION_UNKNOWN then None else Some v)"

definition property_get :: "props \<Rightarrow> string \<Rightarrow> string" where
  "property_get ps key = (if p_android ps then (let v = p_get ps (c_str key) in if v \<noteq> [] then v else []) else [])"

definition property_set :: "props \<Rightarrow> string \<Rightarrow> string \<Rightarrow> bool" where
  "property_set ps key v = (if p_android ps then p_set_ok ps (c_str key) (c_str v) else True)"

lemma atoi_equals_sign: "atoi (CHR ''='' # s) = 0"
  by (simp add: atoi_def decimal_int_def is_space_def is_blank_def digits_value_def is_digit_def)

lemma release_from_lines_zero: "release_from_lines ls = 0"
proof (induction ls)
  case (Cons l ls)
  show ?case
  proof (cases "find_sub ''ro.build.version.release='' l")
    case None
    then show ?thesis using Cons by simp
  next
    case (Some pos)
    then obtain rest where "drop pos l = ''ro.build.version.release='' @ rest"
      using find_sub_prefix [OF Some] by (elim prefixE)
    then have "drop 24 (drop pos l) = CHR ''='' # rest" by (simp only:) simp
    then have "drop (pos + 24) l = CHR ''='' # rest" by (simp add: add.commute)
    then show ?thesis using Some by (simp add: c_str_def atoi_equals_sign)
  qed
qed simp

text \<open>
  Version detection: on Android the version is the one whose number the release
  property starts with; in a host build, which reads /system/build.prop instead, no version
  is ever detected and no platform is ever made, whatever the file says, because the number
  is read from the equals sign on.
\<close>

theorem android_version_detection:
  "make_android_platform ps h =
    (if p_android ps \<and> 10 \<le> atoi (p_get ps ''ro.build.version.release'') \<and> atoi (p_get ps ''ro.build.version.release'') \<le> 16
     then Some (version_of_release (atoi (p_get ps ''ro.build.version.release''))) else None)"
proof -
  have "atoi [] = 0" by (simp add: atoi_def decimal_int_def)
  moreover have "version_of_release r = VERSION_UNKNOWN \<longleftrightarrow> \<not> (10 \<le> r \<and> r \<le> 16)" for r
    by (auto simp: version_of_release_def)
  ultimately show ?thesis
    by (auto simp: make_android_platform_def detect_android_version_def Let_def release_from_lines_zero
        split: option.splits)
qed

section \<open>SELinux\<close>

definition selinux_enabled :: "host \<Rightarrow> bool" where
  "selinux_enabled h = (h_read h ''/sys/fs/selinux/enforce'' \<noteq> None)"

definition selinux_enforcing :: "host \<Rightarrow> bool" where
  "selinux_enforcing h =
    ((case h_read h ''/sys/fs/selinux/enforce'' of None \<Rightarrow> -1 | Some s \<Rightarrow> atoi s) = 1)"

definition selinux_load_policy :: "host \<Rightarrow> bool" where
  "selinux_load_policy h = (if \<not> selinux_enabled h then False else True)"

definition policy_loader_load :: "host \<Rightarrow> string \<Rightarrow> bool option" where
  "policy_loader_load h path = (case fs_exists h path of
      None \<Rightarrow> None
    | Some present \<Rightarrow> if \<not> present then Some False else Some True)"

lemma enforcing_enabled: "selinux_enforcing h \<Longrightarrow> selinux_load_policy h"
  by (auto simp: selinux_enforcing_def selinux_load_policy_def selinux_enabled_def split: option.splits)

end
