(* ===== verification/EnvShield.thy ===== *)
theory EnvShield
  imports Prelude
begin

text \<open>
  The environment shield of the Zygisk module (module-spoof/jni/src/env_shield.cpp): the line
  filters for files under /proc, the list of hidden paths, the hooks that replace \<open>openat\<close> and
  \<open>syscall\<close> in an application, and their installation. What the real system answers is a
  parameter; the outcome of a hooked call tells what the application gets.
\<close>

unbundle bit_operations_syntax

section \<open>Configuration\<close>

record shield_config =
  hide_root :: bool
  hide_magisk :: bool
  hide_xposed :: bool
  hide_mounts :: bool
  hide_maps :: bool
  hide_selinux :: bool
  hide_debugger :: bool
  hide_frida :: bool
  hide_net_unix :: bool
  momo_bypass :: bool
  ruru_bypass :: bool
  chunqiu_bypass :: bool
  hunter_bypass :: bool

definition default_shield :: shield_config where
  "default_shield = \<lparr>hide_root = True, hide_magisk = True, hide_xposed = True, hide_mounts = True, hide_maps = True,
     hide_selinux = True, hide_debugger = True, hide_frida = True, hide_net_unix = True,
     momo_bypass = False, ruru_bypass = False, chunqiu_bypass = False, hunter_bypass = False\<rparr>"

definition HIDDEN_PREFIXES :: "string list" where
  "HIDDEN_PREFIXES =
    [''/data/adb/magisk'', ''/data/adb/modules'', ''/data/adb/lspd'', ''/data/adb/lsposed'', ''/data/adb/astraveil'',
     ''/data/adb/post-fs-data.d'', ''/data/adb/service.d'',
     ''/sbin/su'', ''/system/bin/su'', ''/system/xbin/su'', ''/system/sbin/su'', ''/vendor/bin/su'', ''/odm/bin/su'',
     ''/data/local/su'', ''/data/local/bin/su'', ''/data/local/xbin/su'', ''/system/etc/.installed_su_daemon'',
     ''/data/misc/riru'', ''/system/lib/libxposed'', ''/system/lib64/libxposed'', ''/data/data/de.robv.android.xposed'',
     ''/data/data/org.lsposed'', ''/data/data/org.meowcat.edxposed'',
     ''/data/local/tmp/frida'', ''/data/local/tmp/re.frida'', ''/tmp/frida'',
     ''/system/app/Superuser.apk'', ''/system/app/SuperSU'', ''/system/app/KingRoot'']"

definition MOUNT_SIGNATURES :: "string list" where
  "MOUNT_SIGNATURES =
    [''magisk'', ''worker'', ''/data/adb'', ''tmpfs /system'', ''tmpfs /vendor'', ''tmpfs /product'', ''mirror'']"

definition UNIX_SOCKET_SIGNATURES :: "string list" where
  "UNIX_SOCKET_SIGNATURES = [''magisk'', ''zygisk'', ''lsposed'', ''riru'', ''astraveil'']"

definition MAPS_SIGNATURES :: "string list" where
  "MAPS_SIGNATURES = [''astraveil'', ''dobby'', ''zygisk'', ''lsposed'', ''riru'', ''xposed'', ''magisk'', ''frida'']"

text \<open>The files \<open>hooked_openat\<close> compares the path with.\<close>

definition MOUNT_FILES :: "string set" where
  "MOUNT_FILES = {''/proc/self/mountinfo'', ''/proc/mounts'', ''/proc/self/mounts''}"

definition TCP_FILES :: "string set" where
  "TCP_FILES = {''/proc/net/tcp'', ''/proc/net/tcp6''}"

definition MAPS_FILES :: "string set" where
  "MAPS_FILES = {''/proc/self/maps'', ''/proc/self/smaps''}"

section \<open>Line filters\<close>

text \<open>
  The loop the filters share: \<open>pos\<close> runs over the text, each line is cut with its newline
  (the last one may have none), and \<open>f\<close> gives what is appended for it.
\<close>

function each_line :: "(string \<Rightarrow> string) \<Rightarrow> string \<Rightarrow> nat \<Rightarrow> string \<Rightarrow> string" where
  "each_line f raw pos out =
    (if pos < length raw then
       (let n = (case find_char nl (drop pos raw) of None \<Rightarrow> length raw | Some k \<Rightarrow> pos + k);
            line = substr raw pos (n - pos + 1)
        in each_line f raw (n + 1) (out @ f line))
     else out)"
  by pat_completeness auto
termination
  by (relation "measure (\<lambda>(f, raw, pos, out). length raw - pos)") (auto split: option.splits)

declare each_line.simps [simp del]

definition drop_if :: "(string \<Rightarrow> bool) \<Rightarrow> string \<Rightarrow> string" where
  "drop_if hide line = (if hide line then [] else line)"

definition filter_mounts :: "string \<Rightarrow> string" where
  "filter_mounts raw = each_line (drop_if (\<lambda>line. list_ex (str_contains line) MOUNT_SIGNATURES)) raw 0 []"

definition untraced :: string where
  "untraced = ''TracerPid:'' @ [CHR 0x09] @ ''0'' @ [nl]"

definition filter_status :: "string \<Rightarrow> string" where
  "filter_status raw = each_line (\<lambda>line. if str_contains line ''TracerPid:'' then untraced else line) raw 0 []"

definition filter_unix :: "string \<Rightarrow> string" where
  "filter_unix raw = each_line (drop_if (\<lambda>line. list_ex (str_contains line) UNIX_SOCKET_SIGNATURES)) raw 0 []"

definition filter_tcp :: "shield_config \<Rightarrow> string \<Rightarrow> string" where
  "filter_tcp g raw = each_line (drop_if (\<lambda>line. hide_frida g \<and>
     (str_contains line '':69A2'' \<or> str_contains line '':69A3''))) raw 0 []"

text \<open>The loop inside \<open>hooked_openat\<close> for maps and smaps.\<close>

definition filter_maps :: "string \<Rightarrow> string" where
  "filter_maps raw = each_line (drop_if (\<lambda>line. list_ex (str_contains line) MAPS_SIGNATURES)) raw 0 []"

section \<open>Hooks\<close>

text \<open>
  The real system below the hooks: what \<open>read\<close> answers on a path opened with the original call (None
  for the whole when it cannot be opened; a None in the list is an error, an interruption included), and whether
  \<open>memfd_create\<close> works. A write to the memory file is complete.
\<close>

record real_system =
  orig_reads :: "string \<Rightarrow> u32 \<Rightarrow> string option list option"
  memfd_create :: bool

fun read_loop :: "string option list \<Rightarrow> string \<Rightarrow> string" where
  "read_loop (Some (c # cs) # rs) content = read_loop rs (content @ c # cs)"
| "read_loop rs content = content"

definition read_real :: "real_system \<Rightarrow> string \<Rightarrow> u32 \<Rightarrow> string" where
  "read_real sys path flags = (case orig_reads sys path flags of None \<Rightarrow> [] | Some rs \<Rightarrow> read_loop rs [])"

text \<open>
  What the application gets: ENOENT, a descriptor on an in-memory file, -1 when that could not
  be made, or the result of the original call with the given arguments.
\<close>

datatype open_result =
    Enoent
  | Memory_file string
  | Memfd_failed
  | Original "string option" u32 "u32 option"

definition memfd_with :: "real_system \<Rightarrow> string \<Rightarrow> open_result" where
  "memfd_with sys content = (if memfd_create sys then Memory_file content else Memfd_failed)"

definition should_hide_path :: "shield_config \<Rightarrow> string \<Rightarrow> bool" where
  "should_hide_path g path \<longleftrightarrow>
     list_ex (\<lambda>p. prefix p path) HIDDEN_PREFIXES \<or> hide_magisk g \<and> prefix ''/data/adb'' path"

definition O_CREAT :: u32 where
  "O_CREAT = 0x40"

text \<open>The chain of tests in \<open>hooked_openat\<close>: the first that answers ends the call.\<close>

definition shielded :: "shield_config \<Rightarrow> real_system \<Rightarrow> string \<Rightarrow> u32 \<Rightarrow> open_result option" where
  "shielded g sys path flags =
    (let raw = read_real sys path flags
     in if should_hide_path g path then Some Enoent
        else if hide_mounts g \<and> path \<in> MOUNT_FILES \<and> raw \<noteq> []
        then Some (memfd_with sys (filter_mounts raw))
        else if hide_debugger g \<and> path = ''/proc/self/status'' \<and> raw \<noteq> []
        then Some (memfd_with sys (filter_status raw))
        else if hide_net_unix g \<and> path = ''/proc/net/unix'' \<and> raw \<noteq> []
        then Some (memfd_with sys (filter_unix raw))
        else if hide_frida g \<and> path \<in> TCP_FILES \<and> raw \<noteq> []
        then Some (memfd_with sys (filter_tcp g raw))
        else if hide_selinux g \<and> path = ''/sys/fs/selinux/enforce''
        then Some (memfd_with sys ''1'')
        else if hide_maps g \<and> path \<in> MAPS_FILES \<and> raw \<noteq> []
        then Some (memfd_with sys (filter_maps raw))
        else None)"

definition hooked_openat :: "shield_config \<Rightarrow> real_system \<Rightarrow> string option \<Rightarrow> u32 \<Rightarrow> u32 \<Rightarrow> open_result" where
  "hooked_openat g sys pathname flags mode =
    (case Option.bind pathname (\<lambda>path. shielded g sys path flags) of
       Some r \<Rightarrow> r
     | None \<Rightarrow> if flags AND O_CREAT \<noteq> 0 then Original pathname flags (Some mode) else Original pathname flags None)"

text \<open>
  \<open>hooked_syscall\<close>: for \<open>openat\<close> the path is looked at, and the original call gets three
  arguments; every other call gets six.
\<close>

datatype syscall_result = Sys_enoent | Sys_openat "string option" u32 | Sys_other int "int list"

datatype syscall_args = Openat_args "string option" u32 "u32 option" | Other_args int "int list"

definition hooked_syscall :: "shield_config \<Rightarrow> syscall_args \<Rightarrow> syscall_result" where
  "hooked_syscall g args = (case args of
      Openat_args pathname flags mode \<Rightarrow>
        (case pathname of
           Some path \<Rightarrow> if should_hide_path g path then Sys_enoent else Sys_openat pathname flags
         | None \<Rightarrow> Sys_openat pathname flags)
    | Other_args n as \<Rightarrow> Sys_other n (take 6 as))"

section \<open>Installation\<close>

text \<open>
  The statics of the file: the configuration and which hooks are in place. \<open>found_openat\<close> and
  \<open>found_syscall\<close> are the answers of \<open>dlsym\<close>.
\<close>

record shield_state =
  g_config :: shield_config
  openat_hooked :: bool
  syscall_hooked :: bool

definition shield_install :: "bool \<Rightarrow> bool \<Rightarrow> shield_config \<Rightarrow> shield_state \<Rightarrow> shield_state" where
  "shield_install found_openat found_syscall config st =
    (let st1 = st\<lparr>g_config := config\<rparr>;
         st2 = (if found_openat \<and> \<not> openat_hooked st1 then st1\<lparr>openat_hooked := True\<rparr> else st1)
     in if momo_bypass config \<and> found_syscall \<and> \<not> syscall_hooked st2 then st2\<lparr>syscall_hooked := True\<rparr> else st2)"

text \<open>What a call of the application comes to, through the hooks or not.\<close>

definition app_openat :: "shield_state \<Rightarrow> real_system \<Rightarrow> string option \<Rightarrow> u32 \<Rightarrow> u32 \<Rightarrow> open_result" where
  "app_openat st sys pathname flags mode =
    (if openat_hooked st then hooked_openat (g_config st) sys pathname flags mode
     else Original pathname flags (if flags AND O_CREAT \<noteq> 0 then Some mode else None))"

section \<open>Lines\<close>

fun split_lines :: "string \<Rightarrow> string \<Rightarrow> string list" where
  "split_lines acc [] = (if acc = [] then [] else [rev acc])"
| "split_lines acc (c # s) = (if c = nl then rev (c # acc) # split_lines [] s else split_lines (c # acc) s)"

definition lines_of :: "string \<Rightarrow> string list" where
  "lines_of s = split_lines [] s"

lemma lines_of_concat: "concat (lines_of s) = s"
proof -
  have "concat (split_lines acc s) = rev acc @ s" for acc by (induction acc s rule: split_lines.induct) auto
  then show ?thesis by (simp add: lines_of_def)
qed

lemma split_lines_no_nl: "nl \<notin> set l \<Longrightarrow> split_lines acc (l @ s) = split_lines (rev l @ acc) s"
  by (induction l arbitrary: acc) auto

lemma lines_of_cut:
  "lines_of s = (if s = [] then [] else case find_char nl s of
     None \<Rightarrow> [s] | Some k \<Rightarrow> take (k + 1) s # lines_of (drop (k + 1) s))"
proof (cases "find_char nl s")
  case None
  then have "nl \<notin> set s" by (simp add: find_char_None)
  then show ?thesis using None split_lines_no_nl [of s "[]" "[]"] by (simp add: lines_of_def)
next
  case (Some k)
  have k: "k < length s" "s ! k = nl" "nl \<notin> set (take k s)" using find_char_Some [OF Some] by auto
  then have "s = take k s @ nl # drop (k + 1) s" using id_take_nth_drop [of k s] by simp
  then have "lines_of s = rev (nl # rev (take k s)) # lines_of (drop (k + 1) s)"
    using split_lines_no_nl [OF k(3), of "[]" "nl # drop (k + 1) s"] by (simp add: lines_of_def)
  moreover have "take (k + 1) s = take k s @ [nl]" using k by (simp add: take_Suc_conv_app_nth)
  ultimately show ?thesis using Some k(1) by auto
qed

lemma each_line_lines: "each_line f raw pos out = out @ concat (map f (lines_of (drop pos raw)))"
proof (induction f raw pos out rule: each_line.induct)
  case (1 f raw pos out)
  show ?case
  proof (cases "pos < length raw")
    case True
    let ?s = "drop pos raw"
    define n where "n = (case find_char nl ?s of None \<Rightarrow> length raw | Some k \<Rightarrow> pos + k)"
    have "each_line f raw pos out = each_line f raw (n + 1) (out @ f (substr raw pos (n - pos + 1)))"
      using True by (simp add: each_line.simps [of f raw pos] n_def Let_def)
    also have "\<dots> = (out @ f (substr raw pos (n - pos + 1))) @ concat (map f (lines_of (drop (n + 1) raw)))"
      using 1 [OF True refl refl] by (simp add: n_def)
    also have "\<dots> = out @ concat (map f (lines_of ?s))"
    proof (cases "find_char nl ?s")
      case None
      then have "n = length raw" by (simp add: n_def)
      then show ?thesis using True None by (simp add: lines_of_cut [of ?s] lines_of_cut [of "[]"] substr_def)
    next
      case (Some k)
      then have "n = pos + k" by (simp add: n_def)
      then show ?thesis using True Some by (simp add: lines_of_cut [of ?s] substr_def add.commute)
    qed
    finally show ?thesis .
  next
    case False
    then show ?thesis by (simp add: each_line.simps [of f raw pos] lines_of_cut [of "[]"])
  qed
qed

text \<open>A list of lines as the filters see them: a newline at the end of each but perhaps the last.\<close>

fun text_lines :: "string list \<Rightarrow> bool" where
  "text_lines [] = True"
| "text_lines [l] = (l \<noteq> [] \<and> nl \<notin> set (butlast l))"
| "text_lines (l # ls) = (l \<noteq> [] \<and> nl \<notin> set (butlast l) \<and> last l = nl \<and> text_lines ls)"

lemma lines_of_line: "l \<noteq> [] \<Longrightarrow> nl \<notin> set (butlast l) \<Longrightarrow> last l = nl \<Longrightarrow> lines_of (l @ s) = l # lines_of s"
proof -
  assume a: "l \<noteq> []" "nl \<notin> set (butlast l)" "last l = nl"
  then have b: "butlast l @ [nl] = l" using append_butlast_last_id by metis
  have "lines_of ((butlast l @ [nl]) @ s) = (butlast l @ [nl]) # lines_of s"
    using split_lines_no_nl [OF a(2), of "[]" "nl # s"] by (simp add: lines_of_def)
  then show ?thesis unfolding b .
qed

lemma lines_of_text: "text_lines ls \<Longrightarrow> lines_of (concat ls) = ls"
proof (induction ls rule: text_lines.induct)
  case (2 l)
  show ?case
  proof (cases "last l = nl")
    case True
    then show ?thesis using 2 lines_of_line [of l "[]"] by (simp add: lines_of_def)
  next
    case False
    then have "nl \<notin> set l" using 2 by (metis append_butlast_last_id in_set_conv_decomp rotate1.simps(2) set_ConsD set_rotate1 text_lines.simps(2))
    then show ?thesis using 2 split_lines_no_nl [of l "[]" "[]"] by (simp add: lines_of_def)
  qed
next
  case (3 l m ls)
  then show ?case using lines_of_line [of l "concat (m # ls)"] by simp
qed (simp add: lines_of_def)

lemma text_lines_Cons: "text_lines (l # ls) \<longleftrightarrow> l \<noteq> [] \<and> nl \<notin> set (butlast l) \<and> (ls \<noteq> [] \<longrightarrow> last l = nl) \<and> text_lines ls"
  by (cases ls) auto

lemma text_lines_of: "text_lines (lines_of s)"
proof -
  have "nl \<notin> set acc \<Longrightarrow> text_lines (split_lines acc s)" for acc
  proof (induction acc s rule: split_lines.induct)
    case (1 acc)
    then show ?case by (auto dest: in_set_butlastD list.set_sel(2) simp: butlast_rev)
  qed (auto simp: text_lines_Cons)
  then show ?thesis by (simp add: lines_of_def)
qed

lemma text_lines_filter: "text_lines ls \<Longrightarrow> text_lines (filter P ls)"
  by (induction ls) (auto simp: text_lines_Cons)

lemma lines_of_filter:
  "lines_of (each_line (drop_if hide) raw 0 []) = filter (\<lambda>l. \<not> hide l) (lines_of raw)"
proof -
  have "concat (map (drop_if hide) ls) = concat (filter (\<lambda>l. \<not> hide l) ls)" for ls
    by (induction ls) (simp_all add: drop_if_def)
  then have "each_line (drop_if hide) raw 0 [] = concat (filter (\<lambda>l. \<not> hide l) (lines_of raw))"
    by (simp add: each_line_lines)
  then show ?thesis using lines_of_text [OF text_lines_filter [OF text_lines_of]] by simp
qed

lemma lines_of_status:
  "lines_of (filter_status raw) = map (\<lambda>l. if str_contains l ''TracerPid:'' then untraced else l) (lines_of raw)"
proof -
  let ?f = "\<lambda>l. if str_contains l ''TracerPid:'' then untraced else l"
  have "text_lines ls \<Longrightarrow> text_lines (map ?f ls)" for ls
  proof (induction ls)
    case (Cons l ls)
    have "untraced \<noteq> []" "nl \<notin> set (butlast untraced)" "last untraced = nl"
      by (simp_all add: untraced_def nl_def)
    then show ?case using Cons by (auto simp: text_lines_Cons)
  qed simp
  then show ?thesis
    using lines_of_text [of "map ?f (lines_of raw)"] text_lines_of [of raw] by (simp add: filter_status_def each_line_lines)
qed


section \<open>What an application sees\<close>

text \<open>The lines a protected file may show, by its path and the configuration.\<close>

definition hides_line :: "shield_config \<Rightarrow> string \<Rightarrow> string \<Rightarrow> bool" where
  "hides_line g path line \<longleftrightarrow>
     hide_mounts g \<and> path \<in> MOUNT_FILES \<and>
       list_ex (str_contains line) MOUNT_SIGNATURES \<or>
     hide_net_unix g \<and> path = ''/proc/net/unix'' \<and> list_ex (str_contains line) UNIX_SOCKET_SIGNATURES \<or>
     hide_frida g \<and> path \<in> TCP_FILES \<and>
       (str_contains line '':69A2'' \<or> str_contains line '':69A3'') \<or>
     hide_maps g \<and> path \<in> MAPS_FILES \<and> list_ex (str_contains line) MAPS_SIGNATURES"

definition shown_line :: "shield_config \<Rightarrow> string \<Rightarrow> string \<Rightarrow> string" where
  "shown_line g path line =
    (if hide_debugger g \<and> path = ''/proc/self/status'' \<and> str_contains line ''TracerPid:'' then untraced else line)"

text \<open>The files that are answered from memory, and the file they are made from.\<close>

definition filtered_file :: "shield_config \<Rightarrow> string \<Rightarrow> bool" where
  "filtered_file g path \<longleftrightarrow>
     hide_mounts g \<and> path \<in> MOUNT_FILES \<or>
     hide_debugger g \<and> path = ''/proc/self/status'' \<or> hide_net_unix g \<and> path = ''/proc/net/unix'' \<or>
     hide_frida g \<and> path \<in> TCP_FILES \<or>
     hide_maps g \<and> path \<in> MAPS_FILES"

lemma files_distinct:
  "path \<in> MOUNT_FILES \<Longrightarrow> path \<notin> TCP_FILES \<and> path \<notin> MAPS_FILES \<and> path \<noteq> ''/proc/self/status'' \<and> path \<noteq> ''/proc/net/unix''"
  "path \<in> TCP_FILES \<Longrightarrow> path \<notin> MAPS_FILES \<and> path \<noteq> ''/proc/self/status'' \<and> path \<noteq> ''/proc/net/unix'' \<and> path \<noteq> ''/sys/fs/selinux/enforce''"
  "path \<in> MAPS_FILES \<Longrightarrow> path \<noteq> ''/proc/self/status'' \<and> path \<noteq> ''/proc/net/unix'' \<and> path \<noteq> ''/sys/fs/selinux/enforce''"
  unfolding MOUNT_FILES_def TCP_FILES_def MAPS_FILES_def by (elim insertE emptyE; simp)+

lemma files_distinct':
  "''/proc/self/status'' \<notin> MOUNT_FILES \<union> TCP_FILES \<union> MAPS_FILES" "''/proc/net/unix'' \<notin> MOUNT_FILES \<union> TCP_FILES \<union> MAPS_FILES"
  by (simp_all add: MOUNT_FILES_def TCP_FILES_def MAPS_FILES_def)

lemma proc_not_hidden: "prefix ''/proc/'' path \<Longrightarrow> \<not> should_hide_path g path"
  by (auto simp: should_hide_path_def HIDDEN_PREFIXES_def prefix_def)

lemma filtered_not_hidden: "filtered_file g path \<Longrightarrow> \<not> should_hide_path g path"
proof (rule proc_not_hidden)
  assume "filtered_file g path"
  then have "path \<in> MOUNT_FILES \<union> TCP_FILES \<union> MAPS_FILES \<union> {''/proc/self/status'', ''/proc/net/unix''}"
    by (auto simp: filtered_file_def)
  then show "prefix ''/proc/'' path"
    unfolding MOUNT_FILES_def TCP_FILES_def MAPS_FILES_def by (elim UnE insertE emptyE; simp)
qed

text \<open>The content the application gets of a filtered file, from what \<open>read_real\<close> collects.\<close>

lemma shield_shows:
  assumes "openat_hooked st" "g_config st = g" "memfd_create sys" "filtered_file g path" "read_real sys path flags \<noteq> []"
  shows "\<exists>content. app_openat st sys (Some path) flags mode = Memory_file content \<and>
    lines_of content = map (shown_line g path) (filter (\<lambda>l. \<not> hides_line g path l) (lines_of (read_real sys path flags)))"
proof -
  let ?raw = "read_real sys path flags"
  have nh: "\<not> should_hide_path g path" using assms(4) by (rule filtered_not_hidden)
  have other: "map (shown_line g path) ls = ls" if "path \<noteq> ''/proc/self/status''" for ls
    using that by (induction ls) (simp_all add: shown_line_def)
  note defs = app_openat_def hooked_openat_def shielded_def memfd_with_def Let_def assms(1-3,5) nh
  consider (mounts) "hide_mounts g" "path \<in> MOUNT_FILES"
    | (status) "hide_debugger g" "path = ''/proc/self/status''" | (unix) "hide_net_unix g" "path = ''/proc/net/unix''"
    | (tcp) "hide_frida g" "path \<in> TCP_FILES"
    | (maps) "hide_maps g" "path \<in> MAPS_FILES"
    using assms(4) unfolding filtered_file_def by blast
  then show ?thesis
  proof cases
    case mounts
    note d = files_distinct(1) [OF mounts(2)]
    have "app_openat st sys (Some path) flags mode = Memory_file (filter_mounts ?raw)" using mounts by (simp add: defs)
    moreover have "hides_line g path l = list_ex (str_contains l) MOUNT_SIGNATURES" for l using mounts d by (simp add: hides_line_def)
    ultimately show ?thesis using d other by (simp add: filter_mounts_def lines_of_filter)
  next
    case status
    then have "app_openat st sys (Some path) flags mode = Memory_file (filter_status ?raw)" using files_distinct'(1) nh assms(5) by (simp add: defs)
    moreover have "\<not> hides_line g path l" for l using status files_distinct'(1) by (simp add: hides_line_def)
    ultimately show ?thesis using status by (simp add: lines_of_status shown_line_def)
  next
    case unix
    then have "app_openat st sys (Some path) flags mode = Memory_file (filter_unix ?raw)" using files_distinct'(2) nh assms(5) by (simp add: defs)
    moreover have "hides_line g path l = list_ex (str_contains l) UNIX_SOCKET_SIGNATURES" for l
      using unix files_distinct'(2) by (simp add: hides_line_def)
    ultimately show ?thesis using unix(2) other by (simp add: filter_unix_def lines_of_filter)
  next
    case tcp
    note d = files_distinct(2) [OF tcp(2)]
    have m: "path \<notin> MOUNT_FILES" using d tcp(2) files_distinct(1) by blast
    have "app_openat st sys (Some path) flags mode = Memory_file (filter_tcp g ?raw)" using tcp d m by (simp add: defs)
    moreover have "hides_line g path l = (str_contains l '':69A2'' \<or> str_contains l '':69A3'')" for l
      using tcp d m by (simp add: hides_line_def)
    ultimately show ?thesis using tcp(1) d other by (simp add: filter_tcp_def lines_of_filter)
  next
    case maps
    note d = files_distinct(3) [OF maps(2)]
    have m: "path \<notin> MOUNT_FILES" "path \<notin> TCP_FILES" using maps(2) files_distinct(1,2) by blast+
    have "app_openat st sys (Some path) flags mode = Memory_file (filter_maps ?raw)" using maps d m by (simp add: defs)
    moreover have "hides_line g path l = list_ex (str_contains l) MAPS_SIGNATURES" for l using maps d m by (simp add: hides_line_def)
    ultimately show ?thesis using d other by (simp add: filter_maps_def lines_of_filter)
  qed
qed

text \<open>
  What \<open>read_real\<close> collects: a file that is delivered in pieces is read as a whole, and a read that fails, also when
  a signal interrupts it, cuts the content off without a trace, so that the application sees the beginning of a file only.
\<close>

lemma read_loop_pieces: "[] \<notin> set cs \<Longrightarrow> read_loop (map Some cs @ rs) content = read_loop rs (content @ concat cs)"
proof (induction cs arbitrary: content)
  case (Cons c cs)
  then show ?case by (cases c) simp_all
qed simp

lemma read_real_pieces:
  assumes "orig_reads sys path flags = Some (map Some cs @ r # rs)" "[] \<notin> set cs" "r \<in> {None, Some []}"
  shows "read_real sys path flags = concat cs"
  using assms read_loop_pieces [OF assms(2), of "r # rs" "[]"] by (auto simp: read_real_def)

text \<open>
  C38. What the shield shows of a filtered file: with the hook in place, when the real file delivers some
  content in pieces of any size and \<open>memfd_create\<close> succeeds, the application gets an in-memory file
  whose lines are those of all the pieces together, in order and unchanged, without the lines that
  carry a signature of the file's filter; in the process status the lines with TracerPid are replaced
  by one that says 0. The pieces are the whole file when the read after them reports its end; a
  read that fails is taken for the end, and the pieces delivered before it are shown.
\<close>

theorem shield_filters_lines:
  assumes "openat_hooked st" "g_config st = g" "memfd_create sys" "filtered_file g path"
    and "orig_reads sys path flags = Some (map Some cs @ r # rs)" "cs \<noteq> []" "[] \<notin> set cs" "r \<in> {Some [], None}"
  shows "\<exists>content. app_openat st sys (Some path) flags mode = Memory_file content \<and>
    lines_of content = map (shown_line g path) (filter (\<lambda>l. \<not> hides_line g path l) (lines_of (concat cs)))"
proof -
  have raw: "read_real sys path flags = concat cs" using read_real_pieces [OF assms(5,7)] assms(8) by auto
  moreover have "concat cs \<noteq> []" using assms(6,7) by (cases cs) auto
  ultimately show ?thesis using shield_shows [OF assms(1-4), of flags mode] by simp
qed

definition toy_system :: real_system where
  "toy_system = \<lparr>orig_reads = (\<lambda>p f. Some [Some (''magisk x'' @ [nl] @ ''roo''), Some (''tfs y'' @ [nl]), Some []]), memfd_create = True\<rparr>"

definition toy_shield :: shield_state where
  "toy_shield = \<lparr>g_config = default_shield, openat_hooked = True, syscall_hooked = False\<rparr>"

theorem shield_filters_lines_witness:
  "\<exists>content. app_openat toy_shield toy_system (Some ''/proc/mounts'') 0 0 = Memory_file content \<and>
    lines_of content = map (shown_line default_shield ''/proc/mounts'')
      (filter (\<lambda>l. \<not> hides_line default_shield ''/proc/mounts'' l) (lines_of (concat [''magisk x'' @ [nl] @ ''roo'', ''tfs y'' @ [nl]])))"
  by (rule shield_filters_lines [where r = "Some []" and rs = "[]"])
    (simp_all add: toy_shield_def toy_system_def filtered_file_def default_shield_def MOUNT_FILES_def)

text \<open>
  What the shield does to a path: a hidden path does not exist for the application, through
  \<open>openat\<close> or through \<open>syscall\<close>; a call on a path that is neither hidden nor filtered nor the
  SELinux switch reaches the system with its own arguments. The module's own directory is hidden
  under every configuration.
\<close>

theorem shield_hides_paths:
  "(\<forall>path flags mode. should_hide_path g path \<longrightarrow>
      hooked_openat g sys (Some path) flags mode = Enoent \<and>
      hooked_syscall g (Openat_args (Some path) flags (Some mode)) = Sys_enoent) \<and>
   (\<forall>path flags mode. \<not> should_hide_path g path \<and> \<not> filtered_file g path \<and> path \<noteq> ''/sys/fs/selinux/enforce'' \<longrightarrow>
      hooked_openat g sys (Some path) flags mode = Original (Some path) flags (if flags AND O_CREAT \<noteq> 0 then Some mode else None)) \<and>
   (\<forall>rest. should_hide_path g (''/data/adb/astraveil'' @ rest))"
proof (intro conjI allI impI)
  fix path flags mode
  assume "\<not> should_hide_path g path \<and> \<not> filtered_file g path \<and> path \<noteq> ''/sys/fs/selinux/enforce''"
  then have "shielded g sys path flags = None"
    unfolding shielded_def Let_def filtered_file_def by presburger
  then show "hooked_openat g sys (Some path) flags mode = Original (Some path) flags (if flags AND O_CREAT \<noteq> 0 then Some mode else None)"
    by (simp add: hooked_openat_def)
qed (simp_all add: hooked_openat_def hooked_syscall_def shielded_def should_hide_path_def HIDDEN_PREFIXES_def)

theorem shield_hides_paths_witness:
  "should_hide_path default_shield ''/data/adb/astraveil'' \<and>
    hooked_openat default_shield toy_system (Some ''/data/adb/astraveil'') 0 0 = Enoent"
  using shield_hides_paths [of default_shield toy_system]
  by (simp add: should_hide_path_def HIDDEN_PREFIXES_def)

text \<open>
  Where the shield does not do what its configuration says. The switches \<open>hide_root\<close>,
  \<open>hide_xposed\<close> and three of the tool switches change nothing; the prefixes are compared without
  regard to path components, so that /system/bin/surfaceflinger vanishes with /system/bin/su; the
  content filters do not apply to an \<open>openat\<close> made through \<open>syscall\<close>, and its mode is lost.
\<close>

theorem shield_defects:
  "hooked_openat (g\<lparr>hide_root := a, hide_xposed := b, ruru_bypass := c, chunqiu_bypass := d, hunter_bypass := e\<rparr>) = hooked_openat g \<and>
   hooked_syscall (g\<lparr>hide_root := a, hide_xposed := b, ruru_bypass := c, chunqiu_bypass := d, hunter_bypass := e\<rparr>) = hooked_syscall g \<and>
   hooked_openat g sys (Some ''/system/bin/surfaceflinger'') flags mode = Enoent \<and>
   hooked_syscall g (Openat_args (Some ''/proc/self/mounts'') flags (Some mode)) = Sys_openat (Some ''/proc/self/mounts'') flags"
proof (intro conjI)
  let ?g = "g\<lparr>hide_root := a, hide_xposed := b, ruru_bypass := c, chunqiu_bypass := d, hunter_bypass := e\<rparr>"
  have p: "should_hide_path ?g = should_hide_path g" by (rule ext) (simp add: should_hide_path_def)
  have "filter_tcp ?g = filter_tcp g" by (rule ext) (simp add: filter_tcp_def)
  moreover have "hide_mounts ?g = hide_mounts g" "hide_debugger ?g = hide_debugger g" "hide_net_unix ?g = hide_net_unix g"
    "hide_frida ?g = hide_frida g" "hide_selinux ?g = hide_selinux g" "hide_maps ?g = hide_maps g" by simp_all
  ultimately have "shielded ?g = shielded g" by (intro ext) (simp only: shielded_def p)
  then show "hooked_openat ?g = hooked_openat g" by (intro ext) (simp add: hooked_openat_def)
  show "hooked_syscall ?g = hooked_syscall g" by (rule ext) (simp only: hooked_syscall_def p)
  show "hooked_openat g sys (Some ''/system/bin/surfaceflinger'') flags mode = Enoent"
    by (simp add: hooked_openat_def shielded_def should_hide_path_def HIDDEN_PREFIXES_def)
  show "hooked_syscall g (Openat_args (Some ''/proc/self/mounts'') flags (Some mode)) = Sys_openat (Some ''/proc/self/mounts'') flags"
    using proc_not_hidden [of "''/proc/self/mounts''" g] by (simp add: hooked_syscall_def)
qed

text \<open>Installing twice replaces the configuration and keeps the hooks; nothing is hooked again.\<close>

lemma shield_install_again:
  "shield_install fo fs c2 (shield_install fo fs c1 st) =
     (shield_install fo fs c1 st)\<lparr>g_config := c2, syscall_hooked := syscall_hooked st \<or> fs \<and> (momo_bypass c1 \<or> momo_bypass c2)\<rparr>"
  by (cases fo; cases fs; cases "momo_bypass c1"; cases "momo_bypass c2"; cases "openat_hooked st"; cases "syscall_hooked st")
    (simp_all add: shield_install_def Let_def)

end
