(* ===== verification/SpoofModule.thy ===== *)
theory SpoofModule
  imports EnvShield JsonCodec
begin

text \<open>
  The Zygisk module around the shield (module-spoof/jni): the configuration reader, the hooks on
  system properties and on OpenGL strings, and \<open>preAppSpecialize\<close>, which decides per application what
  is installed. The sources under src/ are the ones the build uses; entry.cpp beside them is an
  earlier version, modelled here as \<open>pre_app_specialize_plain\<close>. Files are a parameter: None for a
  file that does not exist or cannot be read.
\<close>

section \<open>The configuration reader\<close>

record spoof_config =
  sc_enabled :: bool
  profile_name :: string
  props :: "(string \<times> string) list"
  gl_renderer :: string
  gl_vendor :: string

definition no_spoof :: spoof_config where
  "no_spoof = \<lparr>sc_enabled = False, profile_name = [], props = [], gl_renderer = [], gl_vendor = []\<rparr>"

definition string_members :: "(string \<times> json) list \<Rightarrow> (string \<times> string) list" where
  "string_members ob = concat (map (\<lambda>(k, v). case v of JString s \<Rightarrow> [(k, s)] | _ \<Rightarrow> []) ob)"

text \<open>
  The body of the try block. A typed access that throws ends it; what was assigned before stays
  in the configuration that is returned.
\<close>

definition read_gl :: "(string \<times> json) list \<Rightarrow> spoof_config \<Rightarrow> spoof_config" where
  "read_gl ob c = (case map_of ob ''gl'' of
      Some (JObject gl) \<Rightarrow>
        (case value_string gl ''renderer'' [] of
           None \<Rightarrow> c
         | Some r \<Rightarrow> (case value_string gl ''vendor'' [] of
               None \<Rightarrow> c\<lparr>gl_renderer := r\<rparr>
             | Some v \<Rightarrow> c\<lparr>gl_renderer := r, gl_vendor := v\<rparr>))
    | _ \<Rightarrow> c)"

definition read_config :: "(string \<times> json) list \<Rightarrow> spoof_config" where
  "read_config ob = (case value_bool ob ''enabled'' False of
      None \<Rightarrow> no_spoof
    | Some en \<Rightarrow> (case value_string ob ''profile'' [] of
          None \<Rightarrow> no_spoof\<lparr>sc_enabled := en\<rparr>
        | Some pr \<Rightarrow>
            (let c = no_spoof\<lparr>sc_enabled := en, profile_name := pr\<rparr>
             in read_gl ob (case map_of ob ''props'' of
                  Some (JObject ps) \<Rightarrow> c\<lparr>props := string_members ps\<rparr>
                | _ \<Rightarrow> c))))"

definition parse_config :: "(string \<Rightarrow> string option) \<Rightarrow> string \<Rightarrow> spoof_config" where
  "parse_config files path = (case files path of
      None \<Rightarrow> no_spoof
    | Some text \<Rightarrow> (case jl_parse text of Some (JObject ob) \<Rightarrow> read_config ob | _ \<Rightarrow> no_spoof))"

definition CONFIG_DIR :: string where
  "CONFIG_DIR = ''/data/adb/astraveil/spoof''"

definition config_load :: "(string \<Rightarrow> bool) \<Rightarrow> (string \<Rightarrow> string option) \<Rightarrow> string \<Rightarrow> spoof_config" where
  "config_load file_exists files pkg =
    (let per_app = CONFIG_DIR @ ''/'' @ pkg @ ''.json''; global = CONFIG_DIR @ ''/global.json''
     in if file_exists per_app then parse_config files per_app
        else if file_exists global then parse_config files global
        else no_spoof)"

section \<open>System properties\<close>

text \<open>
  The statics of property_hook.cpp: the spoofed properties, whether the mutex is held, and which
  hooks are in place. \<open>Blocked\<close> is a thread that waits for a mutex it holds itself.
\<close>

record prop_state =
  g_props :: "(string \<times> string) list"
  g_mutex :: bool
  get_hooked :: bool
  read_hooked :: bool

definition PROP_VALUE_MAX :: nat where
  "PROP_VALUE_MAX = 92"

datatype prop_result =
    Prop_value string nat
  | Prop_overflow
  | Blocked

text \<open>
  \<open>hooked_prop_get\<close> into the caller's buffer of \<open>PROP_VALUE_MAX\<close> bytes: the value copied and the
  length returned. \<open>real\<close> is the original function.
\<close>

definition hooked_prop_get :: "prop_state \<Rightarrow> (string option \<Rightarrow> prop_result) \<Rightarrow> string option \<Rightarrow> prop_result" where
  "hooked_prop_get st real name = (case name of
      None \<Rightarrow> real name
    | Some n \<Rightarrow>
        if g_mutex st then Blocked
        else (case map_of (g_props st) n of
            Some v \<Rightarrow> if length (c_str v) < PROP_VALUE_MAX then Prop_value (c_str v) (length v) else Prop_overflow
          | None \<Rightarrow> real name))"

text \<open>
  \<open>trampoline\<close>: the user's callback runs on the spoofed value with the mutex held, and on the real
  one after it was released.
\<close>

definition trampoline :: "prop_state \<Rightarrow> (prop_state \<Rightarrow> string option \<Rightarrow> string \<Rightarrow> 'r) \<Rightarrow> 'r \<Rightarrow> string option \<Rightarrow> string \<Rightarrow> 'r" where
  "trampoline st user_cb blocked name val = (case name of
      None \<Rightarrow> user_cb st name val
    | Some n \<Rightarrow>
        if g_mutex st then blocked
        else (case map_of (g_props st) n of
            Some v \<Rightarrow> user_cb (st\<lparr>g_mutex := True\<rparr>) name (c_str v)
          | None \<Rightarrow> user_cb st name val))"

definition prop_install :: "bool \<Rightarrow> bool \<Rightarrow> (string \<times> string) list \<Rightarrow> prop_state \<Rightarrow> prop_state" where
  "prop_install found_get found_read ps st =
    (let st1 = st\<lparr>g_props := ps\<rparr>;
         st2 = (if found_get \<and> \<not> get_hooked st1 then st1\<lparr>get_hooked := True\<rparr> else st1)
     in if found_read \<and> \<not> read_hooked st2 then st2\<lparr>read_hooked := True\<rparr> else st2)"

text \<open>What the application's calls come to.\<close>

definition app_prop_get :: "prop_state \<Rightarrow> (string option \<Rightarrow> prop_result) \<Rightarrow> string option \<Rightarrow> prop_result" where
  "app_prop_get st real name = (if get_hooked st then hooked_prop_get st real name else real name)"

definition app_prop_read :: "prop_state \<Rightarrow> (prop_state \<Rightarrow> string option \<Rightarrow> string \<Rightarrow> 'r) \<Rightarrow> 'r \<Rightarrow> string option \<Rightarrow> string \<Rightarrow> 'r" where
  "app_prop_read st user_cb blocked name val =
    (if read_hooked st then trampoline st user_cb blocked name val else user_cb st name val)"

section \<open>OpenGL strings\<close>

record gl_state =
  g_renderer :: string
  g_vendor :: string
  gl_hooked :: bool
  dlsym_hooked :: bool

datatype gl_name = GL_RENDERER | GL_VENDOR | GL_OTHER nat

definition hooked_glGetString :: "gl_state \<Rightarrow> (gl_name \<Rightarrow> string) \<Rightarrow> gl_name \<Rightarrow> string" where
  "hooked_glGetString st real name =
    (if name = GL_RENDERER \<and> g_renderer st \<noteq> [] then c_str (g_renderer st)
     else if name = GL_VENDOR \<and> g_vendor st \<noteq> [] then c_str (g_vendor st)
     else real name)"

text \<open>\<open>hooked_dlsym\<close>: the address it gives, either the hook's or the one the linker found.\<close>

datatype symbol_address = Hooked_glGetString | Real_symbol

definition hooked_dlsym :: "gl_state \<Rightarrow> string option \<Rightarrow> symbol_address" where
  "hooked_dlsym st symbol =
    (if symbol = Some ''glGetString'' \<and> gl_hooked st then Hooked_glGetString else Real_symbol)"

definition gl_install :: "bool \<Rightarrow> bool \<Rightarrow> string \<Rightarrow> string \<Rightarrow> gl_state \<Rightarrow> gl_state" where
  "gl_install found_gl found_dlsym renderer vendor st =
    (let st1 = st\<lparr>g_renderer := renderer, g_vendor := vendor\<rparr>;
         st2 = (if found_gl \<and> \<not> gl_hooked st1 then st1\<lparr>gl_hooked := True\<rparr> else st1)
     in if found_dlsym \<and> \<not> dlsym_hooked st2 then st2\<lparr>dlsym_hooked := True\<rparr> else st2)"

definition app_glGetString :: "gl_state \<Rightarrow> (gl_name \<Rightarrow> string) \<Rightarrow> gl_name \<Rightarrow> string" where
  "app_glGetString st real name = (if gl_hooked st then hooked_glGetString st real name else real name)"

section \<open>The entry point\<close>

text \<open>The module's state in one application process, and what \<open>dlsym\<close> finds there.\<close>

record spoof_process =
  sp_unload :: bool
  sp_props :: prop_state
  sp_gl :: gl_state
  sp_shield :: shield_state

record process_symbols =
  sym_prop_get :: bool
  sym_prop_read :: bool
  sym_gl :: bool
  sym_dlsym :: bool
  sym_openat :: bool
  sym_syscall :: bool

definition fresh_process :: spoof_process where
  "fresh_process = \<lparr>sp_unload = False,
     sp_props = \<lparr>g_props = [], g_mutex = False, get_hooked = False, read_hooked = False\<rparr>,
     sp_gl = \<lparr>g_renderer = [], g_vendor = [], gl_hooked = False, dlsym_hooked = False\<rparr>,
     sp_shield = \<lparr>g_config = default_shield, openat_hooked = False, syscall_hooked = False\<rparr>\<rparr>"

definition excluded_package :: "string \<Rightarrow> bool" where
  "excluded_package pkg \<longleftrightarrow> pkg = ''android'' \<or> pkg = ''com.astraveil.app'' \<or> pkg = ''com.astraveil.xposed'' \<or>
     prefix ''com.android.'' pkg"

text \<open>
  The try block that reads shield.json, as the sequence of its assignments: the first typed access
  that throws ends it, and what was assigned before stays.
\<close>

record shield_switches =
  sw_shield :: bool
  sw_spoof :: bool
  sw_config :: shield_config

definition default_switches :: shield_switches where
  "default_switches = \<lparr>sw_shield = True, sw_spoof = True, sw_config = default_shield\<rparr>"

definition set_bool :: "string \<Rightarrow> (bool \<Rightarrow> shield_switches \<Rightarrow> shield_switches) \<Rightarrow>
    (string \<times> json) list \<Rightarrow> shield_switches \<Rightarrow> shield_switches option" where
  "set_bool key upd ob s = map_option (\<lambda>b. upd b s) (value_bool ob key True)"

definition set_text :: "string \<Rightarrow> (bool \<Rightarrow> shield_switches \<Rightarrow> shield_switches) \<Rightarrow>
    (string \<times> json) list \<Rightarrow> shield_switches \<Rightarrow> shield_switches option" where
  "set_text key upd ob s = map_option (\<lambda>t. upd (t = ''true'') s) (value_string ob key ''false'')"

definition shield_steps :: "((string \<times> json) list \<Rightarrow> shield_switches \<Rightarrow> shield_switches option) list" where
  "shield_steps =
    [set_bool ''enabled'' (\<lambda>b s. s\<lparr>sw_shield := b\<rparr>),
     set_bool ''spoof_enabled'' (\<lambda>b s. s\<lparr>sw_spoof := b\<rparr>),
     set_bool ''hide_root'' (\<lambda>b s. s\<lparr>sw_config := (sw_config s)\<lparr>hide_root := b\<rparr>\<rparr>),
     set_bool ''hide_magisk'' (\<lambda>b s. s\<lparr>sw_config := (sw_config s)\<lparr>hide_magisk := b\<rparr>\<rparr>),
     set_bool ''hide_xposed'' (\<lambda>b s. s\<lparr>sw_config := (sw_config s)\<lparr>hide_xposed := b\<rparr>\<rparr>),
     set_bool ''hide_mounts'' (\<lambda>b s. s\<lparr>sw_config := (sw_config s)\<lparr>hide_mounts := b\<rparr>\<rparr>),
     set_bool ''hide_maps'' (\<lambda>b s. s\<lparr>sw_config := (sw_config s)\<lparr>hide_maps := b\<rparr>\<rparr>),
     set_bool ''hide_selinux'' (\<lambda>b s. s\<lparr>sw_config := (sw_config s)\<lparr>hide_selinux := b\<rparr>\<rparr>),
     set_bool ''hide_debugger'' (\<lambda>b s. s\<lparr>sw_config := (sw_config s)\<lparr>hide_debugger := b\<rparr>\<rparr>),
     set_bool ''hide_frida'' (\<lambda>b s. s\<lparr>sw_config := (sw_config s)\<lparr>hide_frida := b\<rparr>\<rparr>),
     set_bool ''hide_net_unix'' (\<lambda>b s. s\<lparr>sw_config := (sw_config s)\<lparr>hide_net_unix := b\<rparr>\<rparr>),
     set_text ''shield_momo'' (\<lambda>b s. s\<lparr>sw_config := (sw_config s)\<lparr>momo_bypass := b\<rparr>\<rparr>),
     set_text ''shield_ruru'' (\<lambda>b s. s\<lparr>sw_config := (sw_config s)\<lparr>ruru_bypass := b\<rparr>\<rparr>),
     set_text ''shield_chunqiu'' (\<lambda>b s. s\<lparr>sw_config := (sw_config s)\<lparr>chunqiu_bypass := b\<rparr>\<rparr>),
     set_text ''shield_hunter'' (\<lambda>b s. s\<lparr>sw_config := (sw_config s)\<lparr>hunter_bypass := b\<rparr>\<rparr>)]"

fun run_steps :: "((string \<times> json) list \<Rightarrow> shield_switches \<Rightarrow> shield_switches option) list \<Rightarrow>
    (string \<times> json) list \<Rightarrow> shield_switches \<Rightarrow> shield_switches" where
  "run_steps [] ob s = s"
| "run_steps (step # steps) ob s = (case step ob s of None \<Rightarrow> s | Some s' \<Rightarrow> run_steps steps ob s')"

definition SHIELD_JSON :: string where
  "SHIELD_JSON = ''/data/adb/astraveil/shield.json''"

definition read_shield :: "(string \<Rightarrow> string option) \<Rightarrow> shield_switches" where
  "read_shield files = (case files SHIELD_JSON of
      None \<Rightarrow> default_switches
    | Some text \<Rightarrow> (case jl_parse text of
          Some (JObject ob) \<Rightarrow> run_steps shield_steps ob default_switches
        | _ \<Rightarrow> default_switches))"

definition install_spoof :: "process_symbols \<Rightarrow> spoof_config \<Rightarrow> spoof_process \<Rightarrow> spoof_process" where
  "install_spoof sy c p =
    (let p1 = p\<lparr>sp_props := prop_install (sym_prop_get sy) (sym_prop_read sy) (props c) (sp_props p)\<rparr>
     in if gl_renderer c \<noteq> []
        then p1\<lparr>sp_gl := gl_install (sym_gl sy) (sym_dlsym sy) (gl_renderer c) (gl_vendor c) (sp_gl p1)\<rparr>
        else p1)"

definition pre_app_specialize :: "(string \<Rightarrow> bool) \<Rightarrow> (string \<Rightarrow> string option) \<Rightarrow> process_symbols \<Rightarrow> string option \<Rightarrow>
    spoof_process \<Rightarrow> spoof_process" where
  "pre_app_specialize file_exists files sy nice_name p = (case nice_name of
      None \<Rightarrow> p\<lparr>sp_unload := True\<rparr>
    | Some pkg \<Rightarrow>
        if excluded_package pkg then p\<lparr>sp_unload := True\<rparr>
        else
          (let s = read_shield files
           in if \<not> sw_shield s \<and> \<not> sw_spoof s then p\<lparr>sp_unload := True\<rparr>
              else
                (let c = config_load file_exists files pkg;
                     p1 = (if sw_spoof s \<and> sc_enabled c then install_spoof sy c p else p)
                 in if sw_shield s
                    then p1\<lparr>sp_shield := shield_install (sym_openat sy) (sym_syscall sy) (sw_config s) (sp_shield p1)\<rparr>
                    else p1)))"

text \<open>The earlier entry.cpp, without the shield.\<close>

definition pre_app_specialize_plain :: "(string \<Rightarrow> bool) \<Rightarrow> (string \<Rightarrow> string option) \<Rightarrow> process_symbols \<Rightarrow> string option \<Rightarrow>
    spoof_process \<Rightarrow> spoof_process" where
  "pre_app_specialize_plain file_exists files sy nice_name p = (case nice_name of
      None \<Rightarrow> p\<lparr>sp_unload := True\<rparr>
    | Some pkg \<Rightarrow>
        if excluded_package pkg then p\<lparr>sp_unload := True\<rparr>
        else
          (let c = config_load file_exists files pkg
           in if \<not> sc_enabled c then p\<lparr>sp_unload := True\<rparr> else install_spoof sy c p))"


section \<open>What is installed\<close>

definition untouched :: "spoof_process \<Rightarrow> bool" where
  "untouched p \<longleftrightarrow> \<not> get_hooked (sp_props p) \<and> \<not> read_hooked (sp_props p) \<and> \<not> gl_hooked (sp_gl p) \<and>
     \<not> dlsym_hooked (sp_gl p) \<and> \<not> openat_hooked (sp_shield p) \<and> \<not> syscall_hooked (sp_shield p)"

lemma untouched_fresh: "untouched fresh_process"
  by (simp add: untouched_def fresh_process_def)

lemma prop_install_fields:
  "g_props (prop_install fg fr ps st) = ps" "g_mutex (prop_install fg fr ps st) = g_mutex st"
  "get_hooked (prop_install fg fr ps st) = (fg \<or> get_hooked st)" "read_hooked (prop_install fg fr ps st) = (fr \<or> read_hooked st)"
  by (auto simp: prop_install_def Let_def)

lemma gl_install_fields:
  "g_renderer (gl_install fg fd r v st) = r" "g_vendor (gl_install fg fd r v st) = v"
  "gl_hooked (gl_install fg fd r v st) = (fg \<or> gl_hooked st)" "dlsym_hooked (gl_install fg fd r v st) = (fd \<or> dlsym_hooked st)"
  by (auto simp: gl_install_def Let_def)

lemma shield_install_fields:
  "g_config (shield_install fo fs c st) = c" "openat_hooked (shield_install fo fs c st) = (fo \<or> openat_hooked st)"
  "syscall_hooked (shield_install fo fs c st) = (momo_bypass c \<and> fs \<or> syscall_hooked st)"
  by (auto simp: shield_install_def Let_def)

lemma install_spoof_fields:
  "sp_props (install_spoof sy c p) = prop_install (sym_prop_get sy) (sym_prop_read sy) (props c) (sp_props p)"
  "sp_shield (install_spoof sy c p) = sp_shield p" "sp_unload (install_spoof sy c p) = sp_unload p"
  by (simp_all add: install_spoof_def Let_def)

lemmas install_fields = prop_install_fields gl_install_fields shield_install_fields install_spoof_fields

text \<open>
  Which processes are touched: in a fresh process nothing is hooked and the library is
  unloaded exactly when the process has no name, is excluded (the system framework and the
  project's own applications), or both switches are off; and a process that keeps the library has
  the shield's hook on \<open>openat\<close> exactly when the shield is on and the symbol was found, with the
  configuration read from shield.json.
\<close>

theorem touched_processes:
  "(let p = pre_app_specialize ex files sy name fresh_process; s = read_shield files
    in (sp_unload p \<longleftrightarrow> (case name of None \<Rightarrow> True | Some pkg \<Rightarrow> excluded_package pkg \<or> \<not> sw_shield s \<and> \<not> sw_spoof s)) \<and>
       (if sp_unload p then untouched p
        else (openat_hooked (sp_shield p) \<longleftrightarrow> sw_shield s \<and> sym_openat sy) \<and>
          (openat_hooked (sp_shield p) \<longrightarrow> g_config (sp_shield p) = sw_config s)))"
  using untouched_fresh
  by (cases name) (auto simp: pre_app_specialize_def Let_def install_fields fresh_process_def untouched_def)

theorem touched_processes_witness:
  "(let p = pre_app_specialize (\<lambda>_. False) (\<lambda>_. None) \<lparr>sym_prop_get = True, sym_prop_read = True, sym_gl = True, sym_dlsym = True, sym_openat = True, sym_syscall = True\<rparr> (Some ''a.b'') fresh_process; s = read_shield (\<lambda>_. None)
    in (sp_unload p \<longleftrightarrow> (case Some ''a.b'' of None \<Rightarrow> True | Some pkg \<Rightarrow> excluded_package pkg \<or> \<not> sw_shield s \<and> \<not> sw_spoof s)) \<and>
       (if sp_unload p then untouched p
        else (openat_hooked (sp_shield p) \<longleftrightarrow> sw_shield s \<and> sym_openat \<lparr>sym_prop_get = True, sym_prop_read = True, sym_gl = True, sym_dlsym = True, sym_openat = True, sym_syscall = True\<rparr>) \<and>
          (openat_hooked (sp_shield p) \<longrightarrow> g_config (sp_shield p) = sw_config s)))"
  by (rule touched_processes)

section \<open>A profile end to end\<close>

text \<open>The configuration file the protocol describes, as a JSON value.\<close>

definition profile_json :: "string \<Rightarrow> (string \<times> string) list \<Rightarrow> string \<Rightarrow> string \<Rightarrow> json" where
  "profile_json profile ps renderer vendor =
    JObject (mk_obj [(''enabled'', JBool True), (''profile'', JString profile),
      (''props'', JObject (mk_obj (map (\<lambda>(k, v). (k, JString v)) ps))),
      (''gl'', JObject (mk_obj [(''renderer'', JString renderer), (''vendor'', JString vendor)]))])"

lemma map_of_string_members:
  "obj_sorted ob \<Longrightarrow> map_of (string_members ob) k = (case map_of ob k of Some (JString v) \<Rightarrow> Some v | _ \<Rightarrow> None)"
proof (induction ob)
  case (Cons e ob)
  obtain k' v' where e: "e = (k', v')" by (cases e)
  have rest: "map_of (string_members ob) k' = None"
    using Cons.IH Cons.prems e by (cases "map_of ob k'") (auto simp: obj_sorted_Cons string_members_def map_of_eq_None_iff dest!: map_of_SomeD split: json.splits)
  have IH: "map_of (string_members ob) k = (case map_of ob k of Some (JString v) \<Rightarrow> Some v | _ \<Rightarrow> None)"
    using Cons by (simp add: obj_sorted_Cons)
  then show ?case using e rest by (cases v') (auto simp: string_members_def map_add_def split: option.splits)
qed (simp add: string_members_def)

lemma profile_read:
  "distinct (map fst ps) \<Longrightarrow>
    (case profile_json profile ps renderer vendor of JObject ob \<Rightarrow>
      sc_enabled (read_config ob) \<and> profile_name (read_config ob) = profile \<and>
      map_of (props (read_config ob)) = map_of ps \<and>
      gl_renderer (read_config ob) = renderer \<and> gl_vendor (read_config ob) = vendor
     | _ \<Rightarrow> False)"
proof -
  assume d: "distinct (map fst ps)"
  let ?ob = "mk_obj (map (\<lambda>(k, v). (k, JString v)) ps)"
  have "map_of ?ob k = map_option JString (map_of (rev ps) k)" for k
    unfolding map_of_mk_obj rev_map map_of_map by simp
  moreover have "map_of (rev ps) = map_of ps"
    using d map_of_inject_set [of "rev ps" ps] by (simp add: rev_map [symmetric])
  ultimately have "map_of (string_members ?ob) = map_of ps"
    using map_of_string_members [OF mk_obj_sorted_keys] by (auto split: option.splits)
  then show ?thesis
    by (simp add: profile_json_def read_config_def read_gl_def value_bool_def value_string_def map_of_mk_obj no_spoof_def Let_def)
qed


lemma profile_json_shape:
  assumes "distinct (map fst ps)"
  shows "json_typed (profile_json profile ps renderer vendor)" "\<not> has_float (profile_json profile ps renderer vendor)"
    "json_ok (profile_json profile ps renderer vendor) \<longleftrightarrow>
       utf8 profile \<and> (\<forall>(k, v)\<in>set ps. utf8 k \<and> utf8 v) \<and> utf8 renderer \<and> utf8 vendor"
proof -
  let ?m = "map (\<lambda>(k, v). (k, JString v)) ps"
  have "map fst ?m = map fst ps" by (simp add: case_prod_beta comp_def)
  then have d: "distinct (map fst ?m)" using assms by (simp only:)
  define inner where "inner = JObject (mk_obj ?m)"
  have i: "json_typed inner" "\<not> has_float inner" "json_ok inner \<longleftrightarrow> (\<forall>(k, v)\<in>set ps. utf8 k \<and> utf8 v)"
    unfolding inner_def mk_obj_typed [OF d] mk_obj_ok_iff [OF d] mk_obj_float [OF d] by auto
  have j: "profile_json profile ps renderer vendor = JObject (mk_obj [(''enabled'', JBool True), (''profile'', JString profile),
      (''props'', inner), (''gl'', JObject (mk_obj [(''renderer'', JString renderer), (''vendor'', JString vendor)]))])"
    by (simp only: profile_json_def inner_def)
  show "json_typed (profile_json profile ps renderer vendor)" "\<not> has_float (profile_json profile ps renderer vendor)"
    unfolding j using i(1,2) by simp_all
  show "json_ok (profile_json profile ps renderer vendor) \<longleftrightarrow>
       utf8 profile \<and> (\<forall>(k, v)\<in>set ps. utf8 k \<and> utf8 v) \<and> utf8 renderer \<and> utf8 vendor"
    unfolding j i(3) [symmetric] by (simp add: utf8_ascii_string)
qed

text \<open>The configuration file that is consulted for an application.\<close>

definition config_path :: "(string \<Rightarrow> bool) \<Rightarrow> string \<Rightarrow> string" where
  "config_path file_exists pkg =
    (if file_exists (CONFIG_DIR @ ''/'' @ pkg @ ''.json'') then CONFIG_DIR @ ''/'' @ pkg @ ''.json'' else CONFIG_DIR @ ''/global.json'')"

text \<open>
  C39. A profile takes effect as written: let the configuration file of an application be its own
  one, or the global one when its own does not exist. When that file holds a profile as the library
  writes it, with distinct property names, a GL renderer that is not empty and no NUL in the GL strings, the application is
  not excluded, spoofing is not switched off and the functions to hook are found, then every property
  of the profile reads as its value in the application (through both interfaces, for values that fit
  the buffer and have no NUL), every other property and GL string is the real one, and the GL
  renderer and, if not empty, the vendor are the profile's.
\<close>

theorem profile_takes_effect:
  assumes "jl_dump lib (profile_json profile ps renderer vendor) = Some text"
    and "files (config_path ex pkg) = Some text" "ex (config_path ex pkg)"
    and "\<not> excluded_package pkg" "sw_spoof (read_shield files)"
    and "sym_prop_get sy" "sym_prop_read sy" "sym_gl sy"
    and "distinct (map fst ps)" "renderer \<noteq> []" "CHR 0x00 \<notin> set renderer" "CHR 0x00 \<notin> set vendor"
    and "\<forall>(k, v)\<in>set ps. CHR 0x00 \<notin> set v \<and> length v < PROP_VALUE_MAX"
    and "p = pre_app_specialize ex files sy (Some pkg) fresh_process"
  shows "app_prop_get (sp_props p) real (Some n) =
      (case map_of ps n of Some v \<Rightarrow> Prop_value v (length v) | None \<Rightarrow> real (Some n)) \<and>
    app_prop_read (sp_props p) (\<lambda>st nm v. v) [] (Some n) rv = (case map_of ps n of Some v \<Rightarrow> v | None \<Rightarrow> rv) \<and>
    app_glGetString (sp_gl p) glreal GL_RENDERER = renderer \<and>
    app_glGetString (sp_gl p) glreal GL_VENDOR = (if vendor = [] then glreal GL_VENDOR else vendor) \<and>
    app_glGetString (sp_gl p) glreal (GL_OTHER i) = glreal (GL_OTHER i)"
proof -
  let ?j = "profile_json profile ps renderer vendor"
  obtain ob where ob: "?j = JObject ob" by (simp add: profile_json_def)
  have "jl_parse text = Some (JObject ob)" using jl_round [OF assms(1) profile_json_shape(1,2) [OF assms(9)]] ob by simp
  then have c: "config_load ex files pkg = read_config ob"
    using assms(2,3) by (auto simp: config_load_def config_path_def parse_config_def Let_def split: if_splits)
  have r: "sc_enabled (read_config ob)" "map_of (props (read_config ob)) = map_of ps"
    "gl_renderer (read_config ob) = renderer" "gl_vendor (read_config ob) = vendor"
    using profile_read [OF assms(9), of profile renderer vendor] ob by simp_all
  note cs = c_str_id
  have v: "c_str v = v \<and> length v < PROP_VALUE_MAX" if "map_of ps n = Some v" for v
    using assms(13) map_of_SomeD [OF that] cs by fastforce
  have pp: "sp_props p = prop_install True True (props (read_config ob)) (sp_props fresh_process)"
    and pg: "sp_gl p = gl_install True (sym_dlsym sy) renderer vendor (sp_gl fresh_process)"
    using assms(4-8,10,14) c r by (simp_all add: pre_app_specialize_def Let_def install_spoof_def)
  show ?thesis
    using v assms(10-12) cs
    by (simp add: app_prop_get_def app_prop_read_def hooked_prop_get_def trampoline_def app_glGetString_def hooked_glGetString_def
        pp pg install_fields r(2) fresh_process_def split: option.split)
qed


definition all_symbols :: process_symbols where
  "all_symbols = \<lparr>sym_prop_get = True, sym_prop_read = True, sym_gl = True, sym_dlsym = True, sym_openat = True, sym_syscall = True\<rparr>"

definition pixel_props :: "(string \<times> string) list" where
  "pixel_props = [(''ro.product.model'', ''Pixel 9'')]"

definition pixel_text :: string where
  "pixel_text = the (jl_dump toy_lib (profile_json ''pixel'' pixel_props ''Mali'' ''ARM''))"

definition pixel_files :: "string \<Rightarrow> string option" where
  "pixel_files path = (if path = CONFIG_DIR @ ''/global.json'' then Some pixel_text else None)"

lemma pixel_dump: "jl_dump toy_lib (profile_json ''pixel'' pixel_props ''Mali'' ''ARM'') = Some pixel_text"
proof -
  have "distinct (map fst pixel_props)" by (simp add: pixel_props_def)
  note shape = profile_json_shape [OF this]
  have "json_ok (profile_json ''pixel'' pixel_props ''Mali'' ''ARM'')"
    unfolding shape(3) by (simp add: pixel_props_def utf8_ascii_string)
  then show ?thesis using jl_dump_None [OF shape(1), of toy_lib] by (auto simp: pixel_text_def)
qed

text \<open>A device with a global profile only.\<close>

definition only_global :: "string \<Rightarrow> bool" where
  "only_global path \<longleftrightarrow> path = CONFIG_DIR @ ''/global.json''"

theorem profile_takes_effect_witness:
  "app_prop_get (sp_props (pre_app_specialize only_global pixel_files all_symbols (Some ''a.b'') fresh_process)) (\<lambda>_. Blocked) (Some ''ro.product.model'') =
      (case map_of pixel_props ''ro.product.model'' of Some v \<Rightarrow> Prop_value v (length v) | None \<Rightarrow> Blocked) \<and>
    app_prop_read (sp_props (pre_app_specialize only_global pixel_files all_symbols (Some ''a.b'') fresh_process)) (\<lambda>st nm v. v) [] (Some ''ro.product.model'') ''x'' =
      (case map_of pixel_props ''ro.product.model'' of Some v \<Rightarrow> v | None \<Rightarrow> ''x'') \<and>
    app_glGetString (sp_gl (pre_app_specialize only_global pixel_files all_symbols (Some ''a.b'') fresh_process)) (\<lambda>_. ''real'') GL_RENDERER = ''Mali'' \<and>
    app_glGetString (sp_gl (pre_app_specialize only_global pixel_files all_symbols (Some ''a.b'') fresh_process)) (\<lambda>_. ''real'') GL_VENDOR =
      (if ''ARM'' = [] then ''real'' else ''ARM'') \<and>
    app_glGetString (sp_gl (pre_app_specialize only_global pixel_files all_symbols (Some ''a.b'') fresh_process)) (\<lambda>_. ''real'') (GL_OTHER 7) = ''real''"
proof (rule profile_takes_effect [where ex = only_global and sy = all_symbols and pkg = "''a.b''" and files = pixel_files, OF pixel_dump])
  have "config_path only_global ''a.b'' = CONFIG_DIR @ ''/global.json''" by (simp add: config_path_def only_global_def)
  then show "pixel_files (config_path only_global ''a.b'') = Some pixel_text" "only_global (config_path only_global ''a.b'')"
    by (simp_all add: pixel_files_def only_global_def)
  show "sw_spoof (read_shield pixel_files)"
    by (simp add: read_shield_def pixel_files_def SHIELD_JSON_def CONFIG_DIR_def default_switches_def)
qed (simp_all add: excluded_package_def all_symbols_def pixel_props_def PROP_VALUE_MAX_def)

section \<open>Defects\<close>

text \<open>
  The comment at the \<open>strcpy\<close> of \<open>hooked_prop_get\<close> relies on values shorter than the buffer, but
  nothing checks them: a longer value in a profile overruns the caller's buffer.
\<close>

theorem long_property_overflows:
  assumes "map_of (g_props st) n = Some v" "PROP_VALUE_MAX \<le> length (c_str v)" "get_hooked st" "\<not> g_mutex st"
  shows "app_prop_get st real (Some n) = Prop_overflow"
  using assms by (simp add: app_prop_get_def hooked_prop_get_def)

text \<open>
  The user's callback runs with the mutex held, so a callback that reads any property while it is
  being told a spoofed one never returns.
\<close>

theorem property_callback_deadlock:
  assumes "map_of (g_props st) n = Some v" "get_hooked st" "read_hooked st" "\<not> g_mutex st"
  shows "app_prop_read st (\<lambda>st' name val. app_prop_get st' real (Some m)) Blocked (Some n) rv = Blocked"
  using assms by (simp add: app_prop_read_def trampoline_def app_prop_get_def hooked_prop_get_def)

text \<open>
  A value of the wrong type in shield.json does not give the defaults, as the comment says: the
  switches before it keep what the file says. A file that turns the shield off and has a wrong type
  later leaves it off; and the tool switches are read as texts, so that the JSON value \<open>true\<close> for
  \<open>shield_momo\<close> leaves the bypass off.
\<close>

theorem malformed_shield_file:
  assumes "files SHIELD_JSON = Some text" "jl_parse text = Some (JObject ob)"
  shows "(map_of ob ''enabled'' = Some (JBool False) \<and> map_of ob ''spoof_enabled'' = Some (JString s) \<longrightarrow>
      \<not> sw_shield (read_shield files) \<and> sw_config (read_shield files) = default_shield) \<and>
    (map_of ob ''shield_momo'' = Some (JBool True) \<longrightarrow> \<not> momo_bypass (sw_config (read_shield files)))"
proof -
  have keep: "momo_bypass (sw_config (run_steps steps ob s)) = momo_bypass (sw_config s)"
    if "\<forall>st\<in>set steps. \<forall>s s'. st ob s = Some s' \<longrightarrow> momo_bypass (sw_config s') = momo_bypass (sw_config s)" for steps s
    using that by (induction steps arbitrary: s) (simp_all split: option.split)
  have "\<not> momo_bypass (sw_config (run_steps shield_steps ob default_switches))" if "map_of ob ''shield_momo'' = Some (JBool True)"
  proof -
    have "momo_bypass (sw_config (run_steps shield_steps ob default_switches)) = momo_bypass (sw_config default_switches)"
      using that by (intro keep) (auto simp: shield_steps_def set_bool_def set_text_def value_string_def)
    then show ?thesis by (simp add: default_switches_def default_shield_def)
  qed
  moreover have "\<not> sw_shield (run_steps shield_steps ob default_switches) \<and> sw_config (run_steps shield_steps ob default_switches) = default_shield"
    if "map_of ob ''enabled'' = Some (JBool False)" "map_of ob ''spoof_enabled'' = Some (JString s)"
    using that by (simp add: shield_steps_def set_bool_def value_bool_def default_switches_def)
  ultimately show ?thesis using assms by (simp add: read_shield_def)
qed

text \<open>
  The two entry points agree: when shield.json turns the shield off and leaves spoofing on, the
  new one installs what the earlier one did; it differs only in that it keeps the library loaded
  when there is no profile.
\<close>

theorem entry_versions_agree:
  assumes "\<not> sw_shield (read_shield files)" "sw_spoof (read_shield files)"
  shows "(pre_app_specialize ex files sy name p)\<lparr>sp_unload := u\<rparr> = (pre_app_specialize_plain ex files sy name p)\<lparr>sp_unload := u\<rparr>"
  using assms by (cases name) (simp_all add: pre_app_specialize_def pre_app_specialize_plain_def Let_def)

end
