(* ===== verification/SuTool.thy ===== *)
theory SuTool
  imports Kernel
begin

text \<open>
  The two programs that talk to the kernel module from the command line: the su binary
  (native/astra_su.c), from its arguments to the shell it executes, and the privilege test
  (native/test_root.c). Both run in a process whose credentials the module changes; the
  system calls that change them afterwards (\<open>setuid\<close>, \<open>setgid\<close>, \<open>setgroups\<close>) and
  \<open>execv\<close> are the parameter \<open>sys_calls\<close>, of which only their documented behaviour
  is used.
\<close>

section \<open>The process and the system calls\<close>

record proc =
  p_cred :: kcred
  p_env :: "string \<rightharpoonup> string"

record sys_calls =
  sys_setuid :: "u32 \<Rightarrow> kcred \<Rightarrow> int \<times> kcred"
  sys_setgid :: "u32 \<Rightarrow> kcred \<Rightarrow> int \<times> kcred"
  sys_setgroups :: "u32 list \<Rightarrow> kcred \<Rightarrow> int \<times> kcred"
  sys_execv :: "string \<Rightarrow> string list \<Rightarrow> kcred \<Rightarrow> bool"

definition CAP_SETGID :: nat where "CAP_SETGID = 6"
definition CAP_SETUID :: nat where "CAP_SETUID = 7"

text \<open>
  setuid(2), setgid(2) and setgroups(2) for a caller that has the capability: a call either fails (for the identifier
  -1 always, with EINVAL; for any other one when the kernel is short of resources, with EAGAIN or ENOMEM) and changes
  nothing, or the identifier becomes the real, effective
  and saved one; and capabilities(7): leaving uid 0 clears the effective and the
  permitted set. Nothing is said of a caller without the capability.
\<close>

definition documented_calls :: "sys_calls \<Rightarrow> bool" where
  "documented_calls k \<longleftrightarrow>
    (\<forall>u c. bit (kc_effective c) CAP_SETUID \<longrightarrow>
       sys_setuid k u c = (-1, c) \<or>
       u \<noteq> -1 \<and> sys_setuid k u c =
         (0, if kc_uid c = 0 \<and> u \<noteq> 0 then c\<lparr>kc_uid := u, kc_effective := 0, kc_permitted := 0\<rparr>
             else c\<lparr>kc_uid := u\<rparr>)) \<and>
    (\<forall>g c. bit (kc_effective c) CAP_SETGID \<longrightarrow>
       sys_setgid k g c = (-1, c) \<or> g \<noteq> -1 \<and> sys_setgid k g c = (0, c\<lparr>kc_gid := g\<rparr>)) \<and>
    (\<forall>gs c. bit (kc_effective c) CAP_SETGID \<longrightarrow>
       sys_setgroups k gs c = (-1, c) \<or> sys_setgroups k gs c = (0, c\<lparr>kc_groups := gs\<rparr>))"

section \<open>astra_su.c\<close>

definition SHELL_PATH :: string where
  "SHELL_PATH = ''/system/bin/sh''"

text \<open>What the arguments ask for: the usage text, nothing (\<open>-c\<close> alone), or a shell for a uid.\<close>

datatype su_request = SuUsage | SuNoCommand | SuRun "string option" u32

text \<open>\<open>(uid_t)atoi(argv[arg_offset])\<close>; without that argument the uid is 0.\<close>

definition target_arg :: "string list \<Rightarrow> nat \<Rightarrow> u32" where
  "target_arg argv arg_offset =
    (if length argv > arg_offset then of_int (atoi (c_str (argv ! arg_offset))) else 0)"

definition su_parse :: "string list \<Rightarrow> su_request" where
  "su_parse argv =
    (if length argv > 1 \<and> argv ! 1 = ''-h'' then SuUsage
     else if length argv > 1 \<and> argv ! 1 = ''-c'' then
       (if length argv < 3 then SuNoCommand else SuRun (Some (argv ! 2)) (target_arg argv 3))
     else SuRun None (target_arg argv 1))"

text \<open>\<open>dev_fd\<close> is what \<open>open("/dev/astra_root")\<close> returns.\<close>

definition escalate :: "kenv \<Rightarrow> int \<Rightarrow> kmod \<Rightarrow> proc \<Rightarrow> int \<times> proc" where
  "escalate env dev_fd m p =
    (if dev_fd < 0 then (-1, p)
     else
       (let r = astra_ioctl env GET_ROOT (p_cred p) m; p1 = p\<lparr>p_cred := io_cred r\<rparr>
        in if io_ret r \<noteq> 0 then (-1, p1)
           else if kc_uid (p_cred p1) \<noteq> 0 then (-1, p1)
           else (0, p1)))"

definition su_groups :: "u32 list" where
  "su_groups = [0, 1003, 1004, 1007, 1011, 1015, 1028, 1078, 3001, 3002, 3003, 3006, 9997]"

text \<open>The results of the calls are not looked at.\<close>

definition setup_env :: "sys_calls \<Rightarrow> u32 \<Rightarrow> proc \<Rightarrow> proc" where
  "setup_env k uid p =
    (let p1 = p\<lparr>p_env := (p_env p)
           (''PATH'' \<mapsto> ''/sbin:/system/bin:/system/xbin:/vendor/bin:/system/sbin:/product/bin:/apex/com.android.runtime/bin'',
            ''HOME'' \<mapsto> (if uid = 0 then ''/data'' else ''/data''),
            ''USER'' \<mapsto> (if uid = 0 then ''root'' else ''shell''),
            ''SHELL'' \<mapsto> SHELL_PATH,
            ''TERM'' \<mapsto> ''xterm-256color'')\<rparr>
     in if uid = 0
        then p1\<lparr>p_cred := snd (sys_setgroups k su_groups (snd (sys_setuid k 0 (snd (sys_setgid k 0 (p_cred p1))))))\<rparr>
        else p1)"

datatype su_outcome = SuExit int | SuExec string "string list" proc

definition drop_to :: "sys_calls \<Rightarrow> u32 \<Rightarrow> proc \<Rightarrow> proc" where
  "drop_to k uid p =
    (if uid \<noteq> 0 then p\<lparr>p_cred := snd (sys_setuid k uid (snd (sys_setgid k uid (p_cred p))))\<rparr> else p)"

definition su_exec :: "sys_calls \<Rightarrow> string option \<Rightarrow> proc \<Rightarrow> su_outcome" where
  "su_exec k cmd p =
    (let args = (case cmd of Some command \<Rightarrow> [SHELL_PATH, ''-c'', command] | None \<Rightarrow> [SHELL_PATH])
     in if sys_execv k SHELL_PATH args (p_cred p) then SuExec SHELL_PATH args p else SuExit 1)"

definition su_main :: "sys_calls \<Rightarrow> kenv \<Rightarrow> int \<Rightarrow> kmod \<Rightarrow> string list \<Rightarrow> proc \<Rightarrow> su_outcome" where
  "su_main k env dev_fd m argv p =
    (case su_parse argv of
       SuUsage \<Rightarrow> SuExit 0
     | SuNoCommand \<Rightarrow> SuExit 1
     | SuRun cmd uid \<Rightarrow>
         (let (ret, p1) = escalate env dev_fd m p
          in if ret \<noteq> 0 then SuExit 1
             else su_exec k cmd (drop_to k uid (setup_env k uid p1))))"

section \<open>test_root.c\<close>

text \<open>
  The steps of the test and what they leave behind: \<open>TestRead\<close> a root-only file was opened,
  \<open>TestWrite\<close> a file was created in /dev and removed again, \<open>TestSystem\<close> a shell command
  was run.
\<close>

datatype test_effect = TestRead string | TestWrite string | TestSystem string

record test_fs =
  fs_present :: "string \<Rightarrow> bool"
  fs_readable :: "string \<Rightarrow> bool"
  fs_creatable :: "string \<Rightarrow> bool"

definition check_device :: "test_fs \<Rightarrow> int" where
  "check_device fs = (if \<not> fs_present fs ''/dev/astra_root'' then -1 else 0)"

definition check_version :: "kenv \<Rightarrow> kmod \<Rightarrow> proc \<Rightarrow> int \<times> proc" where
  "check_version env m p =
    (let r = astra_ioctl env GET_VERSION (p_cred p) m; p1 = p\<lparr>p_cred := io_cred r\<rparr>
     in if io_ret r \<noteq> 0 then (-1, p1) else (0, p1))"

definition check_root :: "kenv \<Rightarrow> kmod \<Rightarrow> proc \<Rightarrow> int \<times> proc" where
  "check_root env m p =
    (let r = astra_ioctl env GET_ROOT (p_cred p) m; p1 = p\<lparr>p_cred := io_cred r\<rparr>
     in if io_ret r \<noteq> 0 then (-1, p1)
        else if kc_uid (p_cred p1) = 0 then (0, p1) else (-1, p1))"

definition check_capabilities :: "test_fs \<Rightarrow> test_effect list" where
  "check_capabilities fs =
    (if fs_readable fs ''/data/adb/magisk/config'' then [TestRead ''/data/adb/magisk/config'']
     else if fs_readable fs ''/data/misc/keystore/user_0'' then [TestRead ''/data/misc/keystore/user_0'']
     else []) @
    (if fs_creatable fs ''/dev/astra_test_write'' then [TestWrite ''/dev/astra_test_write''] else []) @
    [TestSystem ''mount -o bind /system /system 2>/dev/null; echo $?'']"

text \<open>The version check is made and its result dropped.\<close>

definition test_main :: "test_fs \<Rightarrow> kenv \<Rightarrow> int \<Rightarrow> kmod \<Rightarrow> string list \<Rightarrow> proc \<Rightarrow> int \<times> test_effect list \<times> proc" where
  "test_main fs env dev_fd m argv p =
    (let verbose = (length argv > 1 \<and> argv ! 1 = ''-v'')
     in if check_device fs \<noteq> 0 then (1, [], p)
        else if dev_fd < 0 then (1, [], p)
        else
          (let (_, p1) = check_version env m p; (ret, p2) = check_root env m p1
           in (ret, if ret = 0 \<and> verbose then check_capabilities fs else [], p2)))"

section \<open>The identity of the shell\<close>

text \<open>The environment and the credentials that the shell for a target uid is to have.\<close>

definition su_env :: "u32 \<Rightarrow> (string \<rightharpoonup> string) \<Rightarrow> (string \<rightharpoonup> string)" where
  "su_env uid en = en
     (''PATH'' \<mapsto> ''/sbin:/system/bin:/system/xbin:/vendor/bin:/system/sbin:/product/bin:/apex/com.android.runtime/bin'',
      ''HOME'' \<mapsto> ''/data'', ''USER'' \<mapsto> (if uid = 0 then ''root'' else ''shell''),
      ''SHELL'' \<mapsto> SHELL_PATH, ''TERM'' \<mapsto> ''xterm-256color'')"

definition shell_cred :: "sys_calls \<Rightarrow> u32 \<Rightarrow> kcred" where
  "shell_cred k uid =
    (if uid = 0 then
       (if fst (sys_setgroups k su_groups init_cred) = 0 then init_cred\<lparr>kc_groups := su_groups\<rparr> else init_cred)
     else
       (let c = (if fst (sys_setgid k uid init_cred) = 0 then init_cred\<lparr>kc_gid := uid\<rparr> else init_cred)
        in if fst (sys_setuid k uid c) = 0 then c\<lparr>kc_uid := uid, kc_effective := 0, kc_permitted := 0\<rparr> else c))"

definition shell_args :: "string option \<Rightarrow> string list" where
  "shell_args cmd = (case cmd of Some command \<Rightarrow> [SHELL_PATH, ''-c'', command] | None \<Rightarrow> [SHELL_PATH])"

lemma init_cred_ids [simp]: "kc_uid init_cred = 0" "kc_groups init_cred = []" "kc_gid init_cred = 0"
  by (simp_all add: init_cred_def)

lemma init_cred_caps [simp]: "bit (kc_effective init_cred) CAP_SETUID" "bit (kc_effective init_cred) CAP_SETGID"
  by (simp_all add: init_cred_def CAP_SETUID_def CAP_SETGID_def bit_mask_iff flip: mask_eq_exp_minus_1)

lemma escalate_iff:
  "escalate env dev_fd m p = (0, p1) \<longleftrightarrow>
     0 \<le> dev_fd \<and> check_policy m (kc_uid (p_cred p)) 0 True = 0 \<and> cred_alloc env \<and> p1 = p\<lparr>p_cred := init_cred\<rparr>"
  by (auto simp: escalate_def Let_def io_fail_def ENOMEM_def)

lemma escalate_ret: "fst (escalate env dev_fd m p) = 0 \<longleftrightarrow>
     0 \<le> dev_fd \<and> check_policy m (kc_uid (p_cred p)) 0 True = 0 \<and> cred_alloc env"
  by (auto simp: escalate_def Let_def io_fail_def ENOMEM_def)

lemma root_calls:
  assumes "documented_calls k"
  shows "snd (sys_setgid k 0 init_cred) = init_cred" "snd (sys_setuid k 0 init_cred) = init_cred"
    "snd (sys_setgroups k su_groups init_cred) = shell_cred k 0"
proof -
  have "init_cred\<lparr>kc_gid := 0\<rparr> = init_cred" "init_cred\<lparr>kc_uid := 0\<rparr> = init_cred" by (simp_all add: init_cred_def)
  moreover have "sys_setgid k 0 init_cred = (-1, init_cred) \<or> sys_setgid k 0 init_cred = (0, init_cred\<lparr>kc_gid := 0\<rparr>)"
    using assms init_cred_caps(2) unfolding documented_calls_def by blast
  moreover have "sys_setuid k 0 init_cred = (-1, init_cred) \<or> sys_setuid k 0 init_cred = (0, init_cred\<lparr>kc_uid := 0\<rparr>)"
    using assms init_cred_caps(1) unfolding documented_calls_def by fastforce
  ultimately show "snd (sys_setgid k 0 init_cred) = init_cred" "snd (sys_setuid k 0 init_cred) = init_cred" by auto
  have "sys_setgroups k su_groups init_cred = (-1, init_cred) \<or> sys_setgroups k su_groups init_cred = (0, init_cred\<lparr>kc_groups := su_groups\<rparr>)"
    using assms init_cred_caps(2) unfolding documented_calls_def by blast
  then show "snd (sys_setgroups k su_groups init_cred) = shell_cred k 0" by (auto simp: shell_cred_def)
qed

lemma setuid_law:
  assumes "documented_calls k" "bit (kc_effective c) CAP_SETUID" "kc_uid c = 0" "uid \<noteq> 0"
  shows "sys_setuid k uid c = (-1, c) \<or> sys_setuid k uid c = (0, c\<lparr>kc_uid := uid, kc_effective := 0, kc_permitted := 0\<rparr>)"
proof -
  have "sys_setuid k uid c = (-1, c) \<or> uid \<noteq> -1 \<and> sys_setuid k uid c =
      (0, if kc_uid c = 0 \<and> uid \<noteq> 0 then c\<lparr>kc_uid := uid, kc_effective := 0, kc_permitted := 0\<rparr> else c\<lparr>kc_uid := uid\<rparr>)"
    using assms(1,2) unfolding documented_calls_def by blast
  then show ?thesis using assms(3,4) by auto
qed

lemma user_calls:
  assumes "documented_calls k" "uid \<noteq> 0"
  shows "snd (sys_setuid k uid (snd (sys_setgid k uid init_cred))) = shell_cred k uid"
proof -
  let ?c = "if fst (sys_setgid k uid init_cred) = 0 then init_cred\<lparr>kc_gid := uid\<rparr> else init_cred"
  have "sys_setgid k uid init_cred = (-1, init_cred) \<or> sys_setgid k uid init_cred = (0, init_cred\<lparr>kc_gid := uid\<rparr>)"
    using assms(1) init_cred_caps(2) unfolding documented_calls_def by blast
  then have g: "snd (sys_setgid k uid init_cred) = ?c" by auto
  have "bit (kc_effective ?c) CAP_SETUID" "kc_uid ?c = 0" by simp_all
  then have "sys_setuid k uid ?c = (-1, ?c) \<or> sys_setuid k uid ?c = (0, ?c\<lparr>kc_uid := uid, kc_effective := 0, kc_permitted := 0\<rparr>)"
    using setuid_law [OF assms(1) _ _ assms(2)] by blast
  then show ?thesis unfolding g using assms(2) by (auto simp: shell_cred_def Let_def)
qed

lemma setup_drop:
  assumes "documented_calls k"
  shows "drop_to k uid (setup_env k uid (p\<lparr>p_cred := init_cred\<rparr>)) = p\<lparr>p_cred := shell_cred k uid, p_env := su_env uid (p_env p)\<rparr>"
  using root_calls [OF assms] user_calls [OF assms, of uid]
  by (cases "uid = 0") (simp_all add: drop_to_def setup_env_def su_env_def Let_def)

lemma shell_cred_none: "documented_calls k \<Longrightarrow> shell_cred k (-1) = init_cred"
proof -
  assume k: "documented_calls k"
  have "sys_setgid k (-1) init_cred = (-1, init_cred)" "sys_setuid k (-1) init_cred = (-1, init_cred)"
    using k init_cred_caps unfolding documented_calls_def by blast+
  then show ?thesis by (simp add: shell_cred_def)
qed

text \<open>
  C16. Who gets a shell from the su binary and as whom. It replaces itself by the shell
  exactly when the arguments ask for one, the device opens, the module's policy gives the
  calling uid full root, the kernel can allocate credentials and the shell can be executed. For uid 0 the
  shell has the credentials of root, and the listed groups if \<open>setgroups\<close> succeeded. For any other uid it
  has that uid without effective and permitted capabilities exactly when \<open>setuid\<close> succeeded, and its group exactly when
  \<open>setgid\<close> did; a call that fails is not noticed, and without \<open>setuid\<close> the caller has a root shell with all capabilities.
  For the identifier -1 both calls always fail. In every other case the program ends without a shell.
\<close>

theorem su_shell_identity:
  assumes "documented_calls k"
  shows "(su_main k env dev_fd m argv p = SuExec path args q \<longleftrightarrow>
    (\<exists>cmd uid. su_parse argv = SuRun cmd uid \<and> 0 \<le> dev_fd \<and>
       check_policy m (kc_uid (p_cred p)) 0 True = 0 \<and> cred_alloc env \<and>
       path = SHELL_PATH \<and> args = shell_args cmd \<and> sys_execv k path args (shell_cred k uid) \<and>
       q = p\<lparr>p_cred := shell_cred k uid, p_env := su_env uid (p_env p)\<rparr>)) \<and>
    shell_cred k (-1) = init_cred"
proof (cases "su_parse argv")
  case (SuRun cmd uid)
  obtain ret p1 where e: "escalate env dev_fd m p = (ret, p1)" by fastforce
  show ?thesis
  proof (cases "ret = 0")
    case True
    then have ok: "0 \<le> dev_fd" "check_policy m (kc_uid (p_cred p)) 0 True = 0" "cred_alloc env"
      and p1: "p1 = p\<lparr>p_cred := init_cred\<rparr>" using e escalate_iff by blast+
    have "su_main k env dev_fd m argv p = su_exec k cmd (p\<lparr>p_cred := shell_cred k uid, p_env := su_env uid (p_env p)\<rparr>)"
      using SuRun e True setup_drop [OF assms, of uid p] by (simp add: su_main_def p1)
    then show ?thesis using SuRun ok shell_cred_none [OF assms] by (auto simp: su_exec_def shell_args_def Let_def)
  next
    case False
    then show ?thesis using SuRun e escalate_ret [of env dev_fd m p] shell_cred_none [OF assms] by (auto simp: su_main_def)
  qed
qed (simp_all add: su_main_def shell_cred_none [OF assms])

text \<open>A kernel whose calls behave as documented, for a caller with or without the capabilities.\<close>

definition linux_calls :: sys_calls where
  "linux_calls =
    \<lparr>sys_setuid = (\<lambda>u c. if u = -1 \<or> \<not> bit (kc_effective c) CAP_SETUID then (-1, c)
        else (0, if kc_uid c = 0 \<and> u \<noteq> 0 then c\<lparr>kc_uid := u, kc_effective := 0, kc_permitted := 0\<rparr>
                 else c\<lparr>kc_uid := u\<rparr>)),
     sys_setgid = (\<lambda>g c. if g = -1 \<or> \<not> bit (kc_effective c) CAP_SETGID then (-1, c) else (0, c\<lparr>kc_gid := g\<rparr>)),
     sys_setgroups = (\<lambda>gs c. if \<not> bit (kc_effective c) CAP_SETGID then (-1, c) else (0, c\<lparr>kc_groups := gs\<rparr>)),
     sys_execv = (\<lambda>path args c. path = SHELL_PATH)\<rparr>"

lemma linux_documented: "documented_calls linux_calls"
  by (simp add: documented_calls_def linux_calls_def)

lemma shell_request: "su_parse [''su'', ''-c'', ''id'', ''10123''] = SuRun (Some ''id'') 10123"
  by (simp add: su_parse_def target_arg_def c_str_def atoi_def decimal_int_def is_space_def is_blank_def is_digit_def digits_value_def)

theorem su_shell_identity_witness:
  "su_main linux_calls ok_env 3 shell_table [''su'', ''-c'', ''id'', ''10123''] \<lparr>p_cred = app_cred 2000, p_env = Map.empty\<rparr> =
     SuExec SHELL_PATH [SHELL_PATH, ''-c'', ''id'']
       \<lparr>p_cred = init_cred\<lparr>kc_gid := 10123, kc_uid := 10123, kc_effective := 0, kc_permitted := 0\<rparr>, p_env = su_env 10123 Map.empty\<rparr>"
proof -
  have c: "shell_cred linux_calls 10123 = init_cred\<lparr>kc_gid := 10123, kc_uid := 10123, kc_effective := 0, kc_permitted := 0\<rparr>"
    by (simp add: shell_cred_def linux_calls_def)
  show ?thesis
    unfolding su_shell_identity [OF linux_documented, THEN conjunct1]
    by (simp add: shell_request shell_args_def c, simp add: linux_calls_def check_policy_def shell_table_def app_cred_def ok_env_def)
qed

lemma su_without_policy:
  assumes "enforce m \<noteq> 0" "\<forall>e\<in>set (policy_table m). pe_uid e \<noteq> kc_uid (p_cred p)"
  shows "\<exists>code. su_main k env dev_fd m argv p = SuExit code"
  using assms table_allows_uid [of "policy_table m" "kc_uid (p_cred p)" 0 True] escalate_ret [of env dev_fd m p]
  by (auto simp: su_main_def check_policy_def EPERM_def split: su_request.splits prod.splits if_splits)

text \<open>
  What the mode of a freshly loaded module means for su and for the privilege test. The
  test program passes exactly when su would obtain root; and right after loading, before any
  policy is set, both work for every uid when the parameter enforce is absent or 0, and for
  none otherwise.
\<close>

theorem fresh_module_modes:
  assumes "astra_root_init reg param = (Some m, r)" "fs_present fs ''/dev/astra_root''" "0 \<le> dev_fd" "cred_alloc env"
  shows "(fst (test_main fs env dev_fd m argv p) = 0 \<longleftrightarrow> fst (escalate env dev_fd m p) = 0) \<and>
    (fst (escalate env dev_fd m p) = 0 \<longleftrightarrow> param \<in> {None, Some 0})"
proof
  show "fst (test_main fs env dev_fd m argv p) = 0 \<longleftrightarrow> fst (escalate env dev_fd m p) = 0"
    using assms(2-4) unfolding escalate_ret
    by (auto simp: test_main_def check_device_def check_version_def check_root_def io_fail_def Let_def split: prod.splits)
  show "fst (escalate env dev_fd m p) = 0 \<longleftrightarrow> param \<in> {None, Some 0}"
    using assms by (auto simp: escalate_ret astra_root_init_def check_policy_def EPERM_def split: if_splits option.splits)
qed

definition test_host :: test_fs where
  "test_host = \<lparr>fs_present = (\<lambda>p. p = ''/dev/astra_root''), fs_readable = (\<lambda>_. False), fs_creatable = (\<lambda>_. True)\<rparr>"

theorem fresh_module_modes_witness:
  "fst (test_main test_host ok_env 3 \<lparr>enforce = 0, policy_table = []\<rparr> [''t''] \<lparr>p_cred = app_cred 10055, p_env = Map.empty\<rparr>) = 0"
  using fresh_module_modes [where reg = 0 and param = None and m = "\<lparr>enforce = 0, policy_table = []\<rparr>" and r = 0
      and fs = test_host and dev_fd = 3 and env = ok_env and argv = "[''t'']"
      and p = "\<lparr>p_cred = app_cred 10055, p_env = Map.empty\<rparr>"]
  by (simp add: astra_root_init_def test_host_def ok_env_def)

text \<open>A name in place of a number is uid 0: the caller who asks for the user shell gets root.\<close>

lemma su_name_is_root: "su_parse [''su'', ''shell''] = SuRun None 0"
  by (simp add: su_parse_def target_arg_def c_str_def atoi_def decimal_int_def is_space_def is_blank_def is_digit_def digits_value_def)

text \<open>The verbose test really mounts, whatever else it finds.\<close>

lemma test_mounts: "last (check_capabilities fs) = TestSystem ''mount -o bind /system /system 2>/dev/null; echo $?''"
  by (simp add: check_capabilities_def)

end
