(* ===== verification/IpcClient.thy ===== *)
theory IpcClient
  imports Framing
begin

text \<open>
  The test client of the daemon's socket (native/p4_ipc_client.c): the type argument, one
  request frame, one response frame. Unlike the daemon it makes a single \<open>write\<close> for each
  part of the request and a single \<open>read\<close> for the length of the response, so the scripts of
  the two sides decide whether a request succeeds. Program arguments and output are byte
  lists, as on the wire.
\<close>

section \<open>System calls\<close>

text \<open>
  What the next \<open>read\<close> gives: data (of which it takes what it asks for, the rest stays), or
  an error. \<open>RdData []\<close> and the end of the script are end of file.
\<close>

datatype rd_ev = RdErr | RdData "byte list"

fun read_once :: "nat \<Rightarrow> rd_ev list \<Rightarrow> byte list option \<times> rd_ev list" where
  "read_once n [] = (Some [], [])"
| "read_once n (RdErr # es) = (None, es)"
| "read_once n (RdData bs # es) =
     (if length bs \<le> n then (Some bs, es) else (Some (take n bs), RdData (drop n bs) # es))"

text \<open>One \<open>write\<close> of all bytes: anything but a complete write is a failure.\<close>

fun write_once :: "byte list \<Rightarrow> write_ev list \<Rightarrow> write_result \<times> byte list \<times> write_ev list" where
  "write_once bs [] = (Blocked, [], [])"
| "write_once bs (Accept k # es) = (if length bs \<le> k then Written else Failed, take k bs, es)"
| "write_once bs (e # es) = (Failed, [], es)"

section \<open>Frames\<close>

definition p4_send_frame :: "byte \<Rightarrow> byte list \<Rightarrow> write_ev list \<Rightarrow> write_result \<times> byte list" where
  "p4_send_frame type body ws =
    (let payload_len = 1 + length body
     in case write_once (be32 (of_nat payload_len)) ws of
          (Written, o1, ws1) \<Rightarrow>
            (case write_once [type] ws1 of
               (Written, o2, ws2) \<Rightarrow>
                 (if length body > 0
                  then (case write_once body ws2 of (r, o3, ws3) \<Rightarrow> (r, o1 @ o2 @ o3))
                  else (Written, o1 @ o2))
             | (r, o2, ws2) \<Rightarrow> (r, o1 @ o2))
        | (r, o1, ws1) \<Rightarrow> (r, o1))"

text \<open>The loop that reads \<open>len\<close> bytes.\<close>

fun recv_body :: "nat \<Rightarrow> byte list \<Rightarrow> rd_ev list \<Rightarrow> byte list option" where
  "recv_body len buf evs =
    (if len \<le> length buf then Some buf
     else (case evs of
         [] \<Rightarrow> None
       | RdErr # es \<Rightarrow> None
       | RdData bs # es \<Rightarrow>
           if bs = [] then None
           else if length bs \<le> len - length buf then recv_body len (buf @ bs) es
           else Some (buf @ take (len - length buf) bs)))"

declare recv_body.simps [simp del]

definition max_response :: nat where
  "max_response = 16 * 1024 * 1024"

text \<open>\<open>mem\<close>: whether \<open>malloc\<close> succeeds.\<close>

definition recv_frame :: "bool \<Rightarrow> rd_ev list \<Rightarrow> byte list option" where
  "recv_frame mem evs =
    (case read_once 4 evs of
       (None, es) \<Rightarrow> None
     | (Some net_len, es) \<Rightarrow>
         if length net_len \<noteq> 4 then None
         else
           (let len = unat (ntohl_bytes net_len)
            in if len = 0 then Some []
               else if len > max_response then None
               else if \<not> mem then None
               else recv_body len [] es))"

section \<open>The program\<close>

definition byte_chr :: "byte \<Rightarrow> char" where
  "byte_chr b = char_of (unat b)"

definition hex_digit :: "char \<Rightarrow> nat option" where
  "hex_digit c = (let n = of_char c in
     if 48 \<le> n \<and> n \<le> 57 then Some (n - 48)
     else if 65 \<le> n \<and> n \<le> 70 then Some (n - 55)
     else if 97 \<le> n \<and> n \<le> 102 then Some (n - 87)
     else None)"

definition hex_value :: "string \<Rightarrow> nat" where
  "hex_value s = foldl (\<lambda>n c. 16 * n + the (hex_digit c)) 0 s"

text \<open>
  \<open>sscanf(s, "%x", &v)\<close>: leading blanks, a sign, the prefix 0x, then at least one hexadecimal digit;
  None when there is no match. The value is stored in an \<open>unsigned int\<close>; C leaves a value
  that does not fit undefined, and here it is reduced.
\<close>

definition scan_hex :: "string \<Rightarrow> u32 option" where
  "scan_hex s =
    (let t = dropWhile is_space s;
         (neg, u) = (case t of c # cs \<Rightarrow> if c = CHR ''-'' then (True, cs) else if c = CHR ''+'' then (False, cs) else (False, t)
                     | [] \<Rightarrow> (False, t));
         v = (if prefix ''0x'' u \<or> prefix ''0X'' u then drop 2 u else u);
         ds = takeWhile (\<lambda>c. hex_digit c \<noteq> None) v
     in if ds = [] then None
        else Some (if neg then - of_nat (hex_value ds) else of_nat (hex_value ds)))"

text \<open>What the process meets: \<open>connect\<close>, the scripts of the socket, and memory.\<close>

record p4_sys =
  p4_connects :: bool
  p4_writes :: "write_ev list"
  p4_reads :: "rd_ev list"
  p4_memory :: bool

text \<open>How the program ends: with an exit code and its output, or waiting in a \<open>write\<close> forever.\<close>

datatype p4_end = P4Exit int "byte list" | P4Waits

definition newline_byte :: byte where
  "newline_byte = 10"

definition p4_empty :: "byte list" where
  "p4_empty = map (\<lambda>c. of_nat (of_char c)) ''(empty response)'' @ [newline_byte]"

text \<open>The bytes of an argument as the C string the program sees.\<close>

definition arg_bytes :: "byte list \<Rightarrow> byte list" where
  "arg_bytes a = takeWhile (\<lambda>b. b \<noteq> 0) a"

definition p4_main :: "p4_sys \<Rightarrow> byte list list \<Rightarrow> p4_end \<times> byte list" where
  "p4_main sys argv =
    (if length argv < 3 then (P4Exit 1 [], [])
     else
       (case scan_hex (map byte_chr (arg_bytes (argv ! 2))) of
          None \<Rightarrow> (P4Exit 1 [], [])
        | Some type_val \<Rightarrow>
            if type_val > 0xFF then (P4Exit 1 [], [])
            else
              (let body = (if length argv > 3 then arg_bytes (argv ! 3) else [])
               in if \<not> p4_connects sys then (P4Exit 1 [], [])
                  else
                    (case p4_send_frame (ucast type_val) body (p4_writes sys) of
                       (Blocked, sent) \<Rightarrow> (P4Waits, sent)
                     | (Failed, sent) \<Rightarrow> (P4Exit 1 [], sent)
                     | (Written, sent) \<Rightarrow>
                         (case recv_frame (p4_memory sys) (p4_reads sys) of
                            None \<Rightarrow> (P4Exit 1 [], sent)
                          | Some resp \<Rightarrow>
                              (P4Exit 0 (if resp \<noteq> [] then tl resp @ [newline_byte] else p4_empty), sent))))))"

section \<open>A request and its answer\<close>

text \<open>The payload the arguments denote: the type byte, then the body.\<close>

definition p4_request :: "byte list list \<Rightarrow> byte list option" where
  "p4_request argv =
    (if length argv < 3 then None
     else (case scan_hex (map byte_chr (arg_bytes (argv ! 2))) of
         None \<Rightarrow> None
       | Some t \<Rightarrow> if t > 0xFF then None
                   else Some (ucast t # (if length argv > 3 then arg_bytes (argv ! 3) else []))))"

lemma p4_send_frame_written:
  "p4_send_frame t body ws = (Written, sent) \<Longrightarrow> sent = encode_frame (t # body)"
  by (auto simp: p4_send_frame_def encode_frame_def Let_def elim!: write_once.elims
      split: prod.splits write_result.splits if_splits)

lemma p4_send_frame_willing:
  assumes "ws = Accept a # Accept b # Accept c # us" "4 \<le> a" "1 \<le> b" "length body \<le> c"
  shows "p4_send_frame t body ws = (Written, encode_frame (t # body))"
proof -
  have "fst (p4_send_frame t body ws) = Written" using assms by (simp add: p4_send_frame_def)
  then show ?thesis using p4_send_frame_written [of t body ws] by (cases "p4_send_frame t body ws") auto
qed

fun delivers :: "rd_ev list \<Rightarrow> byte list" where
  "delivers [] = []"
| "delivers (RdErr # es) = []"
| "delivers (RdData bs # es) = bs @ delivers es"

fun steady :: "rd_ev list \<Rightarrow> bool" where
  "steady [] = True"
| "steady (RdErr # es) = False"
| "steady (RdData bs # es) = (bs \<noteq> [] \<and> steady es)"

lemma recv_body_steady:
  "steady evs \<Longrightarrow> len \<le> length (buf @ delivers evs) \<Longrightarrow> length buf \<le> len \<Longrightarrow>
     recv_body len buf evs = Some (take len (buf @ delivers evs))"
proof (induction evs arbitrary: buf)
  case Nil
  then show ?case by (simp add: recv_body.simps)
next
  case (Cons e es)
  obtain bs where e: "e = RdData bs" "bs \<noteq> []" "steady es" using Cons.prems(1) by (cases e) auto
  show ?case
  proof (cases "len \<le> length buf \<or> \<not> length bs \<le> len - length buf")
    case True
    then show ?thesis using Cons.prems e by (auto simp: recv_body.simps [of len buf])
  next
    case False
    then have "length (buf @ bs) \<le> len" by auto
    then show ?thesis using False Cons.prems e Cons.IH [of "buf @ bs"] by (simp add: recv_body.simps [of len buf])
  qed
qed

lemma recv_frame_steady:
  assumes "steady evs" "delivers evs = encode_frame r" "evs = RdData b # es" "4 \<le> length b"
    and "r \<noteq> []" "length r \<le> max_response"
  shows "recv_frame True evs = Some r"
proof -
  have len: "unat (of_nat (length r) :: u32) = length r" using assms(6) by (simp add: max_response_def unat_of_nat)
  have eq: "b @ delivers es = be32 (of_nat (length r)) @ r" using assms(2,3) by (simp add: encode_frame_def)
  have "take 4 b = take 4 (b @ delivers es)" "drop 4 b @ delivers es = drop 4 (b @ delivers es)"
    using assms(4) by simp_all
  then have b: "take 4 b = be32 (of_nat (length r))" and rest: "drop 4 b @ delivers es = r"
    unfolding eq by simp_all
  define es1 where "es1 = (if length b \<le> 4 then es else RdData (drop 4 b) # es)"
  have es1: "read_once 4 evs = (Some (be32 (of_nat (length r))), es1)" "steady es1" "delivers es1 = r"
    using assms(1,3,4) b rest by (auto simp: es1_def)
  then show ?thesis
    using recv_body_steady [of es1 "length r" "[]"] assms(5,6) len by (simp add: recv_frame_def Let_def)
qed

text \<open>
  The client and the server agree on the protocol: when the arguments denote a request of
  legal size, the socket takes each part of it in one write, the server reads what the
  client sent in any chunking, its handler answers at most 16 MiB, and the
  first read of the client gets at least the length of the response, then the handler is given exactly
  the request that the arguments denote and the client prints exactly the response without its
  type byte.
\<close>

theorem p4_session:
  assumes "p4_request argv = Some req" "legal_request req" "p4_connects sys" "p4_memory sys"
    and "p4_writes sys = Accept a # Accept b # Accept c # us" "4 \<le> a" "1 \<le> b" "length req \<le> Suc c"
    and "f st req = (resp, st')" "resp \<noteq> []" "length resp \<le> max_response"
    and "calm rs" "arrives rs = snd (p4_main sys argv)" "willing ws" "length (encode_frame resp) \<le> accepts ws"
    and "handle_client (Some f) [True] rs ws st = (st2, ps, out)"
    and "p4_reads sys = RdData d # es" "4 \<le> length d" "steady (p4_reads sys)" "delivers (p4_reads sys) = out"
  shows "ps = [req] \<and> st2 = st' \<and> p4_main sys argv = (P4Exit 0 (tl resp @ [newline_byte]), encode_frame req)"
proof -
  obtain t where t: "3 \<le> length argv" "scan_hex (map byte_chr (arg_bytes (argv ! 2))) = Some t" "\<not> t > 0xFF"
      "req = ucast t # (if length argv > 3 then arg_bytes (argv ! 3) else [])"
    using assms(1) by (auto simp: p4_request_def split: if_splits option.splits)
  let ?body = "if length argv > 3 then arg_bytes (argv ! 3) else []"
  have send: "p4_send_frame (ucast t) ?body (p4_writes sys) = (Written, encode_frame req)"
    unfolding t(4) using assms(5-8) t(4) by (intro p4_send_frame_willing) auto
  have main: "p4_main sys argv = (case recv_frame True (p4_reads sys) of
        None \<Rightarrow> (P4Exit 1 [], encode_frame req)
      | Some r \<Rightarrow> (P4Exit 0 (if r \<noteq> [] then tl r @ [newline_byte] else p4_empty), encode_frame req))"
    unfolding p4_main_def using t(1-3) assms(3,4) send by (simp add: Let_def)
  then have "arrives rs = wire_of [req]" using assms(13) by (simp split: option.splits)
  then have "handle_client (Some f) (replicate 1 True) rs ws st = (st', [req], wire_of [resp])"
    using handle_client_session [of rs "[req]" ws f st 1] assms(2,9-12,14,15) by simp
  then have "st2 = st'" "ps = [req]" "out = encode_frame resp" using assms(16) by simp_all
  then show ?thesis using main recv_frame_steady [OF assms(19) _ assms(17,18,10,11)] assms(10,20) by simp
qed

definition ping_argv :: "byte list list" where
  "ping_argv = [[112], [115], [48, 52]]"

lemma ping_type: "scan_hex (map byte_chr (arg_bytes [48, 52])) = Some 4"
  by code_simp

lemma ping_request: "p4_request ping_argv = Some [4]"
  using ping_type by (simp add: p4_request_def ping_argv_def)

definition ping_sys :: p4_sys where
  "ping_sys = \<lparr>p4_connects = True, p4_writes = [Accept 4, Accept 1, Accept 0],
     p4_reads = [RdData [0, 0, 0, 3], RdData [4], RdData [9, 8]], p4_memory = True\<rparr>"

definition pong :: "unit \<Rightarrow> byte list \<Rightarrow> byte list \<times> unit" where
  "pong st p = ([4, 9, 8], st)"

definition ping_wire :: "read_ev list" where
  "ping_wire = [Data [0, 0, 0, 1, 4]]"

definition ping_room :: "write_ev list" where
  "ping_room = [Accept 1, Accept 1, Accept 1, Accept 1, Accept 1, Accept 1, Accept 1]"

lemma ping_facts:
  "calm ping_wire" "arrives ping_wire = encode_frame [4]" "willing ping_room" "accepts ping_room = 7"
  "encode_frame [4, 9, 8] = [0, 0, 0, 3, 4, 9, 8]" "legal_request [4]"
  by (simp_all add: ping_wire_def ping_room_def encode_frame_def be32_def legal_request_def max_frame_def)

lemma ping_sent: "snd (p4_main ping_sys ping_argv) = encode_frame [4]"
  using ping_type
  by (simp add: p4_main_def ping_sys_def ping_argv_def p4_send_frame_def be32_def encode_frame_def Let_def
      split: option.split)

lemma ping_served: "handle_client (Some pong) [True] ping_wire ping_room () = ((), [[4]], [0, 0, 0, 3, 4, 9, 8])"
  using handle_client_session [of ping_wire "[[4]]" ping_room pong "()" 1] ping_facts by (simp add: pong_def)

theorem p4_session_witness:
  "[[4]] = [[4 :: byte]] \<and> () = () \<and>
   p4_main ping_sys ping_argv = (P4Exit 0 (tl [4, 9, 8] @ [newline_byte]), encode_frame [4])"
proof (rule p4_session [OF ping_request ping_facts(6)])
  show "pong () [4] = ([4, 9, 8], ())" by (simp add: pong_def)
  show "handle_client (Some pong) [True] ping_wire ping_room () = ((), [[4]], [0, 0, 0, 3, 4, 9, 8])" by (rule ping_served)
  show "p4_writes ping_sys = Accept 4 # Accept 1 # Accept 0 # []" by (simp add: ping_sys_def)
  show "p4_reads ping_sys = RdData [0, 0, 0, 3] # [RdData [4], RdData [9, 8]]" by (simp add: ping_sys_def)
  show "arrives ping_wire = snd (p4_main ping_sys ping_argv)" using ping_facts(2) ping_sent by simp
  show "length (encode_frame [4, 9, 8]) \<le> accepts ping_room" using ping_facts(4) by simp
qed (simp_all add: ping_facts ping_sys_def max_response_def)

text \<open>
  A response whose length prefix arrives in two pieces is taken for an error, although the
  request was carried out.
\<close>

lemma p4_split_header:
  "p4_reads sys = RdData d # es \<Longrightarrow> length d < 4 \<Longrightarrow> p4_main sys argv = (e, sent) \<Longrightarrow> e \<in> {P4Exit 1 [], P4Waits}"
  by (auto simp: p4_main_def recv_frame_def Let_def split: if_splits option.splits prod.splits write_result.splits)

end
