(* ===== verification/NativeProbes.thy ===== *)
theory NativeProbes
  imports Probes
begin

text \<open>
  The probes that the application runs in its own process through JNI: astra_native.cpp,
  capability_probe.cpp and su_scanner.cpp of native/src/main/cpp, on the same view of the
  operating system as the daemon's probes, so that the answers of the two can be compared.
  A \<open>jstring\<close> result is the byte string given to \<open>NewStringUTF\<close>; None is an exception of
  \<open>std::filesystem::exists\<close>, which leaves the native method and ends the application.
\<close>

section \<open>astra_native.cpp\<close>

definition read_sysfs :: "host \<Rightarrow> string \<Rightarrow> string" where
  "read_sysfs h path = (case h_read h path of None \<Rightarrow> [] | Some s \<Rightarrow> first_getline s)"

text \<open>\<open>owner_exec\<close> is the owner's execute bit of a path's permissions.\<close>

definition is_executable :: "host \<Rightarrow> (string \<Rightarrow> bool) \<Rightarrow> string \<Rightarrow> bool option" where
  "is_executable h owner_exec path = (case fs_exists h path of
      None \<Rightarrow> None
    | Some present \<Rightarrow> if present then Some (owner_exec path) else Some False)"

definition su_paths :: "string list" where
  "su_paths = [''/system/bin/su'', ''/system/xbin/su'', ''/sbin/su'', ''/vendor/bin/su'', ''/system/sd/xbin/su'',
     ''/system/bin/failsafe/su'', ''/data/adb/magisk/magisk'', ''/data/adb/ksu/bin/ksud'', ''/data/adb/ap/bin/apd'']"

fun scan_paths :: "host \<Rightarrow> string list \<Rightarrow> string list \<Rightarrow> string list option" where
  "scan_paths h [] found = Some found"
| "scan_paths h (p # ps) found = (case fs_exists h p of
      None \<Rightarrow> None
    | Some present \<Rightarrow> scan_paths h ps (if present then found @ [p] else found))"

definition scan_su_paths :: "host \<Rightarrow> string list option" where
  "scan_su_paths h = scan_paths h su_paths []"

text \<open>
  \<open>find(' ', start)\<close> may fail: \<open>end\<close> is then the largest \<open>size_t\<close>, and \<open>substr\<close>
  takes the rest of the line.
\<close>

definition nativeGetKernelVersion :: "host \<Rightarrow> string" where
  "nativeGetKernelVersion h =
    (let content = read_sysfs h ''/proc/version''
     in c_str (case find_sub ''Linux version '' content of
          None \<Rightarrow> content
        | Some pos \<Rightarrow>
            (let start = pos + 14
             in case find_char (CHR '' '') (drop start content) of
                  None \<Rightarrow> drop start content
                | Some n \<Rightarrow> substr content start n)))"

definition nativeGetSelinuxStatus :: "host \<Rightarrow> int" where
  "nativeGetSelinuxStatus h =
    (let val = read_sysfs h ''/sys/fs/selinux/enforce''
     in if val = [] then -1 else if val = ''1'' then 1 else 0)"

fun overlay_line :: "string list \<Rightarrow> bool" where
  "overlay_line [] = False"
| "overlay_line (l # ls) = (if str_contains l ''overlay'' then True else overlay_line ls)"

definition nativeHasOverlayFs :: "host \<Rightarrow> bool" where
  "nativeHasOverlayFs h = (case h_read h ''/proc/filesystems'' of None \<Rightarrow> False | Some s \<Rightarrow> overlay_line (getlines s))"

definition nativeScanSuPaths :: "host \<Rightarrow> string list option" where
  "nativeScanSuPaths h = map_option (map c_str) (scan_su_paths h)"

definition nativeHasNamespace :: "host \<Rightarrow> string \<Rightarrow> bool option" where
  "nativeHasNamespace h nsType = fs_exists h (''/proc/self/ns/'' @ c_str nsType)"

definition nativeHasKernelConfig :: "host \<Rightarrow> bool option" where
  "nativeHasKernelConfig h = fs_exists h ''/proc/config.gz''"

text \<open>
  The dynamic linker: the libraries that are loaded, those that \<open>dlopen\<close> can load, and the
  symbols of each. The result is the answer, the libraries then loaded and the symbol that
  was called, if any.
\<close>

record linker =
  dl_loaded :: "string list"
  dl_loadable :: "string \<Rightarrow> bool"
  dl_symbols :: "string \<Rightarrow> string \<Rightarrow> bool"

definition nativeInvokeModuleEntry :: "linker \<Rightarrow> string \<Rightarrow> string \<Rightarrow> bool \<times> linker \<times> (string \<times> string) option" where
  "nativeInvokeModuleEntry dl soPathJ symbolJ =
    (let soPath = c_str soPathJ; symbol = c_str symbolJ;
         (handle, dl1) =
           (if soPath \<in> set (dl_loaded dl) then (True, dl)
            else if dl_loadable dl soPath then (True, dl\<lparr>dl_loaded := dl_loaded dl @ [soPath]\<rparr>)
            else (False, dl))
     in if \<not> handle then (False, dl1, None)
        else if \<not> dl_symbols dl1 soPath symbol then (False, dl1, None)
        else (True, dl1, Some (soPath, symbol)))"

section \<open>capability_probe.cpp and su_scanner.cpp\<close>

text \<open>\<open>uname\<close> is the release \<open>uname(2)\<close> reports, None when it fails.\<close>

definition read_kernel_version :: "string option \<Rightarrow> string" where
  "read_kernel_version uname = (case uname of Some release \<Rightarrow> c_str release | None \<Rightarrow> ''unknown'')"

definition check_overlayfs :: "host \<Rightarrow> bool" where
  "check_overlayfs h = overlay_line (file_lines h ''/proc/filesystems'')"

definition check_namespace :: "host \<Rightarrow> bool" where
  "check_namespace h = (h_read h ''/proc/self/ns/mnt'' \<noteq> None)"

fun any_exists :: "host \<Rightarrow> string list \<Rightarrow> bool" where
  "any_exists h [] = False"
| "any_exists h (p # ps) = (if h_exists h p then True else any_exists h ps)"

definition su_path_exists :: "host \<Rightarrow> bool" where
  "su_path_exists h = any_exists h
     [''/system/bin/su'', ''/system/xbin/su'', ''/sbin/su'', ''/vendor/bin/su'', ''/system/sd/xbin/su'']"

section \<open>Properties\<close>

lemma scan_paths_filter:
  "scan_paths h ps found = (if list_ex (h_stat_error h) ps then None else Some (found @ filter (h_exists h) ps))"
  by (induction ps arbitrary: found) (auto simp: fs_exists_def)

lemma overlay_line_ex: "overlay_line ls = list_ex (\<lambda>l. str_contains l ''overlay'') ls"
  by (induction ls) auto

lemma any_exists_ex: "any_exists h ps = list_ex (h_exists h) ps"
  by (induction ps) auto

lemma su_path_exists_iff:
  "su_path_exists h \<longleftrightarrow> (\<exists>p\<in>set (take 5 su_paths). h_exists h p)"
  by (simp add: su_path_exists_def any_exists_ex su_paths_def)

lemma scan_su_paths_set: "scan_su_paths h = Some found \<Longrightarrow> set found = {p \<in> set su_paths. h_exists h p}"
  by (auto simp: scan_su_paths_def scan_paths_filter split: if_splits)

text \<open>
  The application and the daemon see the same device. On every host the overlay test of
  the JNI library, that of the capability probe and the daemon's probe agree; the SELinux status
  is 1 exactly when the daemon's probe reads an enforcing mode, whenever its file exists;
  a namespace the daemon reports as available is one that the application finds unless \<open>stat\<close> fails;
  and a path of the quick su test is among the paths of a full scan that does not throw.
\<close>

theorem native_probes_agree:
  "nativeHasOverlayFs h = pr_available (probe_overlayfs h) \<and>
   check_overlayfs h = pr_available (probe_overlayfs h) \<and>
   (h_exists h ''/sys/fs/selinux/enforce'' \<longrightarrow>
      (nativeGetSelinuxStatus h = 1 \<longleftrightarrow> pr_source (probe_selinux h) = ''/sys/fs/selinux/enforce (enforcing)'')) \<and>
   (pr_available (probe_mount_namespace h) \<longrightarrow> nativeHasNamespace h ''mnt'' \<noteq> Some False) \<and>
   (pr_available (probe_pid_namespace h) \<longrightarrow> nativeHasNamespace h ''pid'' \<noteq> Some False) \<and>
   (pr_available (probe_net_namespace h) \<longrightarrow> nativeHasNamespace h ''net'' \<noteq> Some False) \<and>
   (su_path_exists h \<longrightarrow> scan_su_paths h \<noteq> Some [])"
proof (intro conjI)
  show "nativeHasOverlayFs h = pr_available (probe_overlayfs h)"
    by (simp add: nativeHasOverlayFs_def probe_overlayfs_def read_file_contains_def file_lines_def overlay_line_ex
        split: option.split)
  show "check_overlayfs h = pr_available (probe_overlayfs h)"
    by (simp add: check_overlayfs_def probe_overlayfs_def read_file_contains_def overlay_line_ex)
  show "h_exists h ''/sys/fs/selinux/enforce'' \<longrightarrow>
      (nativeGetSelinuxStatus h = 1 \<longleftrightarrow> pr_source (probe_selinux h) = ''/sys/fs/selinux/enforce (enforcing)'')"
    by (simp add: nativeGetSelinuxStatus_def probe_selinux_def read_sysfs_def read_first_line_def Let_def
        split: option.split)
  show "pr_available (probe_mount_namespace h) \<longrightarrow> nativeHasNamespace h ''mnt'' \<noteq> Some False"
    by (simp add: probe_mount_namespace_def nativeHasNamespace_def c_str_def)
  show "pr_available (probe_pid_namespace h) \<longrightarrow> nativeHasNamespace h ''pid'' \<noteq> Some False"
    by (simp add: probe_pid_namespace_def nativeHasNamespace_def c_str_def)
  show "pr_available (probe_net_namespace h) \<longrightarrow> nativeHasNamespace h ''net'' \<noteq> Some False"
    by (simp add: probe_net_namespace_def nativeHasNamespace_def c_str_def)
  have "set (take 5 su_paths) \<subseteq> set su_paths" by (rule set_take_subset)
  then have "\<exists>p. p \<in> set found" if "su_path_exists h" "scan_su_paths h = Some found" for found
    using that scan_su_paths_set [OF that(2)] unfolding su_path_exists_iff by auto
  then show "su_path_exists h \<longrightarrow> scan_su_paths h \<noteq> Some []" by fastforce
qed

theorem native_probes_agree_witness:
  "nativeHasOverlayFs bare_host = pr_available (probe_overlayfs bare_host) \<and>
   (h_exists (bare_host\<lparr>h_exists := (\<lambda>_. True)\<rparr>) ''/sbin/su'' \<and> scan_su_paths (bare_host\<lparr>h_exists := (\<lambda>_. True)\<rparr>) \<noteq> Some [])"
  using native_probes_agree [of bare_host] native_probes_agree [of "bare_host\<lparr>h_exists := (\<lambda>_. True)\<rparr>"]
  by (simp add: su_path_exists_def)

text \<open>
  The kernel version the application shows is the word after \<open>Linux version\<close>, with its
  local suffix, where the daemon cuts the third word at the first dash.
\<close>

lemma find_sub_head: "find_sub n (n @ s) = Some 0"
  by (cases "n @ s") (auto simp: prefix_def, metis)

lemma first_getline_id: "nl \<notin> set s \<Longrightarrow> first_getline (s @ nl # t) = s"
  by (auto simp: first_getline_def takeWhile_append)

lemma kernel_version_word:
  assumes "h_read h ''/proc/version'' = Some (''Linux version '' @ v @ CHR '' '' # rest)"
    and "CHR '' '' \<notin> set v" "nl \<notin> set v" "CHR 0x00 \<notin> set v" "rest = r @ nl # t" "nl \<notin> set r"
  shows "nativeGetKernelVersion h = v"
proof -
  let ?l = "''Linux version ''"
  have n: "nl \<notin> set ?l" by (simp add: nl_def)
  then have "first_getline ((?l @ v @ CHR '' '' # r) @ nl # t) = ?l @ v @ CHR '' '' # r"
    using assms(3,6) by (intro first_getline_id) (simp add: nl_def)
  then have c: "read_sysfs h ''/proc/version'' = ?l @ v @ CHR '' '' # r"
    using assms(1,5) by (simp add: read_sysfs_def)
  have "find_char (CHR '' '') (v @ CHR '' '' # r) = Some (length v)" using assms(2) by (rule find_char_append)
  then show ?thesis
    unfolding nativeGetKernelVersion_def c find_sub_head Let_def
    using c_str_id [OF assms(4)] by (simp add: substr_def)
qed

lemma module_entry_needs_symbol:
  "nativeInvokeModuleEntry dl so s = (ok, dl', called) \<Longrightarrow>
     (ok \<longleftrightarrow> called = Some (c_str so, c_str s)) \<and> (ok \<longrightarrow> dl_symbols dl (c_str so) (c_str s) \<and> c_str so \<in> set (dl_loaded dl'))"
  by (auto simp: nativeInvokeModuleEntry_def Let_def split: if_splits)

end
