(* ===== verification/Service.thy ===== *)
theory Service
  imports Framing
begin

text \<open>
  The life of the server process (daemon/src/ipc/socket_server.cpp) with the two ways in which
  a session does not return: an exception that leaves the request handler, which nothing catches,
  and a \<open>write\<close> that waits for a peer that does not read, for which there is no timeout. The
  server handles one client at a time, so either ends the service for everybody. As long as
  neither happens, this loop and the one of theory \<open>Framing\<close> do the same; the properties shown
  there are properties of the process up to that point.
\<close>

section \<open>Sessions that need not return\<close>

text \<open>How a session ends: it returns, it waits in a \<open>write\<close>, or the process is gone.\<close>

datatype fate = Returned | Waits | Died

text \<open>The response of one request, with the result of the last \<open>write_exact\<close>.\<close>

definition reply :: "byte list \<Rightarrow> write_ev list \<Rightarrow> write_result \<times> byte list \<times> write_ev list" where
  "reply response ws =
    (if response = [] then write_exact (be32 0) ws
     else (case write_exact (be32 (of_nat (length response))) ws of
         (Written, out1, ws1) \<Rightarrow> (case write_exact response ws1 of (r, out2, ws2) \<Rightarrow> (r, out1 @ out2, ws2))
       | (r, out1, ws1) \<Rightarrow> (r, out1, ws1)))"

text \<open>\<open>handle_client\<close> with a handler that may throw (None).\<close>

fun client_session :: "('s \<Rightarrow> byte list \<Rightarrow> (byte list \<times> 's) option) \<Rightarrow> bool list \<Rightarrow> read_ev list \<Rightarrow> write_ev list \<Rightarrow> 's \<Rightarrow>
    fate \<times> 's \<times> byte list list \<times> byte list" where
  "client_session h [] rs ws st = (Returned, st, [], [])"
| "client_session h (run # runs) rs ws st =
    (if \<not> run then (Returned, st, [], [])
     else (case read_exact 4 [] rs of
         None \<Rightarrow> (Returned, st, [], [])
       | Some (net_len, rs1) \<Rightarrow>
         (let len = ntohl_bytes net_len
          in if len = 0 \<or> unat len > max_frame then (Returned, st, [], [])
             else (case read_exact (unat len) [] rs1 of
                 None \<Rightarrow> (Returned, st, [], [])
               | Some (payload, rs2) \<Rightarrow>
                 (case h st payload of
                    None \<Rightarrow> (Died, st, [payload], [])
                  | Some (response, st1) \<Rightarrow>
                    (case reply response ws of
                       (Blocked, out, ws1) \<Rightarrow> (Waits, st1, [payload], out)
                     | (Failed, out, ws1) \<Rightarrow> (Returned, st1, [payload], out)
                     | (Written, out, ws1) \<Rightarrow>
                         if response = [] then (Returned, st1, [payload], out)
                         else (case client_session h runs rs2 ws1 st1 of
                             (e, st2, ps, out2) \<Rightarrow> (e, st2, payload # ps, out @ out2))))))))"

text \<open>\<open>run\<close>: the next connection is accepted only when the session before it has returned.\<close>

fun process_loop :: "('s \<Rightarrow> byte list \<Rightarrow> (byte list \<times> 's) option) \<Rightarrow> (bool \<times> accept_ev) list \<Rightarrow> 's \<Rightarrow>
    fate \<times> 's \<times> (u32 option \<times> byte list list \<times> byte list) list" where
  "process_loop h [] st = (Returned, st, [])"
| "process_loop h ((run, ev) # evs) st =
    (if \<not> run then (Returned, st, [])
     else (case ev of
         AcceptFail \<Rightarrow> process_loop h evs st
       | Accepted cred c \<Rightarrow>
           if \<not> authenticate_peer cred then
             (case process_loop h evs st of (e, st', log) \<Rightarrow> (e, st', (cred, [], []) # log))
           else
             (case client_session h (c_running c) (c_reads c) (c_writes c) st of
                (Returned, st1, ps, out) \<Rightarrow>
                  (case process_loop h evs st1 of (e, st2, log) \<Rightarrow> (e, st2, (cred, ps, out) # log))
              | (e, st1, ps, out) \<Rightarrow> (e, st1, [(cred, ps, out)]))))"

section \<open>The process and the loops of Framing\<close>

text \<open>The handler without its exceptions.\<close>

definition answering :: "('s \<Rightarrow> byte list \<Rightarrow> (byte list \<times> 's) option) \<Rightarrow> 's \<Rightarrow> byte list \<Rightarrow> byte list \<times> 's" where
  "answering h st p = (case h st p of None \<Rightarrow> ([], st) | Some x \<Rightarrow> x)"

lemma send_response_reply:
  "send_response response ws = (case reply response ws of (r, out, ws') \<Rightarrow> (r = Written \<and> response \<noteq> [], out, ws'))"
  by (auto simp: send_response_def reply_def split: prod.splits write_result.splits)

lemma session_returns:
  "client_session h runs rs ws st = (e, st', ps, out) \<Longrightarrow> e \<noteq> Died \<Longrightarrow>
     handle_client (Some (answering h)) runs rs ws st = (st', ps, out)"
proof (induction h runs rs ws st arbitrary: e st' ps out rule: client_session.induct)
  case (2 h run runs rs ws st)
  show ?case
  proof (cases "run \<and> (\<exists>n4 rs1 p rs2. read_exact 4 [] rs = Some (n4, rs1) \<and> ntohl_bytes n4 \<noteq> 0 \<and>
      unat (ntohl_bytes n4) \<le> max_frame \<and> read_exact (unat (ntohl_bytes n4)) [] rs1 = Some (p, rs2))")
    case False
    then show ?thesis using "2.prems" by (auto simp: Let_def split: if_splits option.splits)
  next
    case True
    then obtain n4 rs1 p rs2 where r: "run" "read_exact 4 [] rs = Some (n4, rs1)" "\<not> (ntohl_bytes n4 = 0 \<or> unat (ntohl_bytes n4) > max_frame)"
        "read_exact (unat (ntohl_bytes n4)) [] rs1 = Some (p, rs2)" by auto
    obtain resp st1 where h: "h st p = Some (resp, st1)" using "2.prems" r by (auto simp: Let_def split: option.splits)
    obtain w o1 ws1 where w: "reply resp ws = (w, o1, ws1)" by (cases "reply resp ws")
    obtain e2 st2 ps2 o2 where c: "client_session h runs rs2 ws1 st1 = (e2, st2, ps2, o2)"
      by (cases "client_session h runs rs2 ws1 st1")
    have "handle_client (Some (answering h)) runs rs2 ws1 st1 = (st2, ps2, o2)"
      if "w = Written" "resp \<noteq> []"
      using that 2(1) [of "(n4, rs1)" n4 rs1 "ntohl_bytes n4" "(p, rs2)" p rs2 "(resp, st1)" resp st1 w "(o1, ws1)" o1 ws1]
        r h w c "2.prems" by (simp add: Let_def)
    moreover have "answering h st p = (resp, st1)" by (simp add: answering_def h)
    ultimately show ?thesis
      using "2.prems" r h w c by (cases w) (auto simp: Let_def send_response_reply split: if_splits)
  qed
qed simp

text \<open>
  While the process lives and no client blocks it, it does what the accept loop of \<open>Framing\<close> does.
\<close>

lemma process_runs:
  "process_loop h evs st = (Returned, st', log) \<Longrightarrow> run_loop (Some (answering h)) evs st = (st', log)"
proof (induction h evs st arbitrary: st' log rule: process_loop.induct)
  case (2 h run ev evs st)
  show ?case
  proof (cases ev)
    case (Accepted cred c)
    show ?thesis
    proof (cases "run \<and> authenticate_peer cred")
      case True
      obtain e st1 ps out where c: "client_session h (c_running c) (c_reads c) (c_writes c) st = (e, st1, ps, out)"
        by (cases "client_session h (c_running c) (c_reads c) (c_writes c) st")
      with True Accepted "2.prems" have "e = Returned" by (cases e) auto
      moreover have "handle_client (Some (answering h)) (c_running c) (c_reads c) (c_writes c) st = (st1, ps, out)"
        using session_returns [OF c] \<open>e = Returned\<close> by simp
      ultimately show ?thesis
        using True Accepted "2.prems" c 2(3) by (auto split: prod.splits)
    next
      case False
      then show ?thesis using Accepted "2.prems" 2(2) by (auto split: prod.splits if_splits)
    qed
  qed (use "2.prems" 2(1) in \<open>auto split: if_splits\<close>)
qed simp

section \<open>A history of connections\<close>

text \<open>One connection that is served, then the rest.\<close>

lemma process_served:
  "client_session h (c_running c) (c_reads c) (c_writes c) st = (e, st1, ps, out) \<Longrightarrow> authenticate_peer cred \<Longrightarrow>
     process_loop h ((True, Accepted cred c) # evs) st =
       (if e = Returned then (case process_loop h evs st1 of (e2, st2, lg) \<Rightarrow> (e2, st2, (cred, ps, out) # lg))
        else (e, st1, [(cred, ps, out)]))"
  by (cases e) simp_all

lemma process_refused:
  "\<not> authenticate_peer cred \<Longrightarrow> process_loop h ((True, Accepted cred c) # evs) st =
     (case process_loop h evs st of (e, st', lg) \<Rightarrow> (e, st', (cred, [], []) # lg))"
  by simp

lemma process_append:
  "process_loop h evs st = (Returned, st1, lg1) \<Longrightarrow> list_all fst evs \<Longrightarrow>
     process_loop h (evs @ evs') st = (case process_loop h evs' st1 of (e, st2, lg2) \<Rightarrow> (e, st2, lg1 @ lg2))"
proof (induction evs arbitrary: st lg1)
  case (Cons x evs)
  obtain ev where x: "x = (True, ev)" using Cons.prems(2) by (cases x) simp
  note rest = Cons.IH [OF _ Cons.prems(2) [simplified, THEN conjunct2]]
  show ?case
  proof (cases ev)
    case AcceptFail
    then show ?thesis using Cons.prems(1) rest by (simp add: x)
  next
    case (Accepted cred c)
    obtain e s ps out where c: "client_session h (c_running c) (c_reads c) (c_writes c) st = (e, s, ps, out)"
      by (cases "client_session h (c_running c) (c_reads c) (c_writes c) st")
    define s' where "s' = (if authenticate_peer cred then s else st)"
    obtain e2 s2 lg where r: "process_loop h evs s' = (e2, s2, lg)" by (cases "process_loop h evs s'")
    have "e2 = Returned" "s2 = st1" and lg: "lg1 = (cred, if authenticate_peer cred then (ps, out) else ([], [])) # lg"
      and e: "authenticate_peer cred \<longrightarrow> e = Returned"
      using Cons.prems(1) r process_served [OF c] process_refused [of cred h c evs st]
      by (simp_all add: x Accepted s'_def del: process_loop.simps split: if_splits)
    with r rest [of s' lg] have "process_loop h (evs @ evs') s' = (case process_loop h evs' st1 of (e, st2, lg2) \<Rightarrow> (e, st2, lg @ lg2))"
      by simp
    then show ?thesis
      using process_served [OF c] process_refused [of cred h c "evs @ evs'" st] e
      by (cases "authenticate_peer cred") (simp_all add: x Accepted s'_def lg del: process_loop.simps split: prod.split)
  qed
qed (simp split: prod.split)

section \<open>A client that reads\<close>

fun serve_all :: "('s \<Rightarrow> byte list \<Rightarrow> (byte list \<times> 's) option) \<Rightarrow> byte list list \<Rightarrow> 's \<Rightarrow> (byte list list \<times> 's) option" where
  "serve_all h [] st = Some ([], st)"
| "serve_all h (p # ps) st = (case h st p of
      None \<Rightarrow> None
    | Some (r, st1) \<Rightarrow> (case serve_all h ps st1 of None \<Rightarrow> None | Some (rs, st2) \<Rightarrow> Some (r # rs, st2)))"

lemma session_answers:
  assumes "calm rs" "arrives rs = wire_of reqs" "\<forall>p\<in>set reqs. legal_request p"
    and "willing ws" "serve_all h reqs st = Some (resps, st')" "[] \<notin> set resps" "length (wire_of resps) \<le> accepts ws"
  shows "client_session h (replicate (length reqs) True) rs ws st = (Returned, st', reqs, wire_of resps)"
  using assms
proof (induction reqs arbitrary: rs ws st resps)
  case (Cons p ps)
  obtain r st1 rss where h: "h st p = Some (r, st1)" "serve_all h ps st1 = Some (rss, st')" "resps = r # rss"
    using Cons.prems(5) by (auto split: option.splits)
  have ne: "r \<noteq> []" and room: "length (encode_frame r) \<le> accepts ws" using Cons.prems(6,7) h(3) by auto
  obtain ws1 where w: "send_response r ws = (True, encode_frame r, ws1)" "willing ws1" "accepts ws \<le> accepts ws1 + (4 + length r)"
    using send_response_willing [OF ne Cons.prems(4)] room by (auto simp: encode_frame_def)
  have rep: "reply r ws = (Written, encode_frame r, ws1)" using w(1) by (auto simp: send_response_reply split: prod.splits)
  obtain rs1 rs2 where f: "read_exact 4 [] rs = Some (be32 (of_nat (length p)), rs1)"
      "read_exact (length p) [] rs1 = Some (p, rs2)" "calm rs2" "arrives rs2 = wire_of ps"
    using read_frame [OF Cons.prems(1), of p "wire_of ps"] Cons.prems(2,3) by auto
  have len: "unat (of_nat (length p) :: u32) = length p" "of_nat (length p) \<noteq> (0::u32)"
    using unat_frame_length [of p] Cons.prems(3) by (auto simp: legal_request_def)
  have "client_session h (replicate (length ps) True) rs2 ws1 st1 = (Returned, st', ps, wire_of rss)"
    using Cons.IH [OF f(3,4) _ w(2) h(2)] Cons.prems(3,6,7) h(3) w(3) by simp
  then show ?case using f(1,2) len h rep ne Cons.prems(3) by (simp add: Let_def legal_request_def)
qed simp

section \<open>A client that does not read\<close>

text \<open>The bytes the peer's side takes before the script ends.\<close>

fun capacity :: "write_ev list \<Rightarrow> nat" where
  "capacity [] = 0"
| "capacity (Accept k # es) = k + capacity es"
| "capacity (e # es) = capacity es"

lemma write_exact_room:
  "willing ws \<Longrightarrow> (fst (write_exact bs ws) = Written \<longleftrightarrow> length bs \<le> capacity ws) \<and> fst (write_exact bs ws) \<noteq> Failed \<and>
     (length bs \<le> capacity ws \<longrightarrow> willing (snd (snd (write_exact bs ws))) \<and> capacity (snd (snd (write_exact bs ws))) \<le> capacity ws - length bs)"
proof (induction ws arbitrary: bs rule: willing.induct)
  case (2 k es)
  then show ?case
    using 2(1) [of "drop k bs"] by (cases "length bs \<le> k") (auto simp: case_prod_beta)
qed auto

lemma reply_waits:
  assumes "willing ws" "response \<noteq> []" "capacity ws < length (encode_frame response)"
  shows "fst (reply response ws) = Blocked"
proof -
  let ?n = "be32 (of_nat (length response))"
  obtain r o1 ws1 where w: "write_exact ?n ws = (r, o1, ws1)" by (cases "write_exact ?n ws")
  note room = write_exact_room [OF assms(1), of ?n, unfolded w fst_conv snd_conv]
  show ?thesis
  proof (cases r)
    case Written
    then have "willing ws1" "capacity ws1 < length response" using room assms(3) by auto
    then have "fst (write_exact response ws1) = Blocked"
      using write_exact_room [of ws1 response] by (cases "fst (write_exact response ws1)") auto
    then show ?thesis using assms(2) w Written by (simp add: reply_def case_prod_beta)
  qed (use room assms(2) w in \<open>auto simp: reply_def\<close>)
qed

text \<open>
  C12. There is no write timeout: after any history of connections that returned, a peer with an
  allowed uid that sends one request and then takes fewer bytes than the response frame
  has keeps the server waiting, and no connection that comes later is accepted, whatever it
  is and however many there are.
\<close>

theorem slow_reader_starves:
  assumes "process_loop h evs st0 = (Returned, st, lg)" "list_all fst evs"
    and "authenticate_peer cred" "c_running c = True # runs" "calm (c_reads c)"
    and "arrives (c_reads c) = encode_frame p @ extra" "legal_request p" "h st p = Some (resp, st1)" "resp \<noteq> []"
    and "willing (c_writes c)" "capacity (c_writes c) < length (encode_frame resp)"
  shows "\<exists>out. \<forall>later. process_loop h (evs @ (True, Accepted cred c) # later) st0 = (Waits, st1, lg @ [(cred, [p], out)])"
proof -
  obtain w out ws1 where w: "reply resp (c_writes c) = (w, out, ws1)" by (cases "reply resp (c_writes c)")
  have "w = Blocked" using reply_waits [OF assms(10,9,11)] w by simp
  obtain rs1 rs2 where f: "read_exact 4 [] (c_reads c) = Some (be32 (of_nat (length p)), rs1)"
      "read_exact (length p) [] rs1 = Some (p, rs2)"
    using read_frame [OF assms(5,6,7)] by blast
  have len: "unat (of_nat (length p) :: u32) = length p" "of_nat (length p) \<noteq> (0::u32)"
    using unat_frame_length [of p] assms(7) by (auto simp: legal_request_def)
  have "client_session h (c_running c) (c_reads c) (c_writes c) st = (Waits, st1, [p], out)"
    using assms(4,7,8) f len w \<open>w = Blocked\<close> by (simp add: Let_def legal_request_def)
  then have "process_loop h ((True, Accepted cred c) # later) st = (Waits, st1, [(cred, [p], out)])" for later
    using assms(3) by simp
  then show ?thesis using process_append [OF assms(1,2)] by (intro exI [of _ out]) simp
qed

definition echo_handler :: "unit \<Rightarrow> byte list \<Rightarrow> (byte list \<times> unit) option" where
  "echo_handler st p = Some (p, st)"

definition idle_reader :: conn where
  "idle_reader = \<lparr>c_running = [True], c_reads = [Data [0, 0, 0, 2, 4, 4]], c_writes = [Accept 3]\<rparr>"

theorem slow_reader_starves_witness:
  "\<exists>out. \<forall>later. process_loop echo_handler ([] @ (True, Accepted (Some 2000) idle_reader) # later) () =
     (Waits, (), [] @ [(Some 2000, [[4, 4]], out)])"
  by (rule slow_reader_starves [where extra = "[]" and runs = "[]" and resp = "[4, 4]"])
    (simp_all add: idle_reader_def echo_handler_def authenticate_peer_def is_allowed_uid_def encode_frame_def be32_def
      legal_request_def max_frame_def)

end
