(* ===== verification/Tokens.thy ===== *)
theory Tokens
  imports Utf8
begin

text \<open>
  The capability tokens of the Rust component (rust/src/capability_token.rs), the attestation record
  (attestation.rs) and the proof protocol on top of them (zk_capability.rs). A Rust \<open>String\<close> is the
  list of its UTF-8 bytes. The hash and the keyed hash of the crates \<open>sha2\<close> and \<open>hmac\<close> and the text
  format of \<open>serde_json\<close> are parameters; what a theorem needs of them is a hypothesis of it. The clock
  and the random device are arguments. A panic is the value \<open>Panic\<close>.
\<close>

type_synonym hash_fn = "byte list \<Rightarrow> byte list"
type_synonym mac_fn = "byte list \<Rightarrow> byte list \<Rightarrow> byte list"

section \<open>Text encodings\<close>

definition hex_digit :: "nat \<Rightarrow> char" where
  "hex_digit d = ''0123456789abcdef'' ! d"

text \<open>\<open>format!("{:02x}", b)\<close> for every byte.\<close>

definition hex_encode :: "byte list \<Rightarrow> string" where
  "hex_encode data = concat (map (\<lambda>b. [hex_digit (unat b div 16), hex_digit (unat b mod 16)]) data)"

definition B64_CHARS :: string where
  "B64_CHARS = ''ABCDEFGHIJKLMNOPQRSTUVWXYZabcdefghijklmnopqrstuvwxyz0123456789-_''"

text \<open>One chunk of one to three bytes.\<close>

definition chunk_word :: "byte list \<Rightarrow> u32" where
  "chunk_word chunk =
    (let b0 = ucast (chunk ! 0);
         b1 = (if length chunk > 1 then ucast (chunk ! 1) else 0);
         b2 = (if length chunk > 2 then ucast (chunk ! 2) else 0)
     in push_bit 16 b0 OR push_bit 8 b1 OR b2)"

definition sextet :: "u32 \<Rightarrow> nat \<Rightarrow> char" where
  "sextet n k = B64_CHARS ! unat (drop_bit k n AND 0x3F)"

definition encode_chunk :: "byte list \<Rightarrow> string" where
  "encode_chunk chunk =
    (let n = chunk_word chunk
     in [sextet n 18, sextet n 12] @
        (if length chunk > 1 then [sextet n 6] else []) @
        (if length chunk > 2 then [sextet n 0] else []))"

function base64url_encode :: "byte list \<Rightarrow> string" where
  "base64url_encode data = (if data = [] then [] else encode_chunk (take 3 data) @ base64url_encode (drop 3 data))"
  by auto
termination by (relation "measure length") auto

declare base64url_encode.simps [simp del]

text \<open>The comparison that always reads both texts to the end.\<close>

definition constant_time_eq :: "byte list \<Rightarrow> byte list \<Rightarrow> bool" where
  "constant_time_eq a b =
    (if length a \<noteq> length b then False
     else foldl (\<lambda>diff (x, y). diff OR (x XOR y)) 0 (zip a b) = 0)"

section \<open>The encodings are injective\<close>

lemma constant_time_eq_iff: "constant_time_eq a b \<longleftrightarrow> a = b"
proof -
  have x: "x XOR y = 0 \<longleftrightarrow> x = y" for x y :: byte
  proof
    assume "x XOR y = 0"
    then have "(x XOR y) XOR y = y" by simp
    then show "x = y" by (simp add: xor.assoc)
  qed simp
  have fold: "length a = length b \<Longrightarrow>
      foldl (\<lambda>diff (x, y). diff OR (x XOR y)) d (zip a b) = 0 \<longleftrightarrow> d = 0 \<and> a = b" for d :: byte and a b
    by (induction a b arbitrary: d rule: list_induct2) (simp_all add: or_eq_0_iff x conj_assoc)
  show ?thesis using fold [of a b 0] by (auto simp: constant_time_eq_def)
qed

lemma b64_distinct: "distinct B64_CHARS" "length B64_CHARS = 64"
  unfolding B64_CHARS_def by code_simp+

lemma sextet_inj: "sextet n k = sextet m k \<Longrightarrow> i < 6 \<Longrightarrow> k + i < 32 \<Longrightarrow> bit n (k + i) = bit m (k + i)"
proof -
  assume eq: "sextet n k = sextet m k" and i: "i < 6" "k + i < 32"
  have lt: "unat (w AND 0x3F) < 64" for w :: u32
  proof -
    have "w AND 0x3F \<le> 0x3F" by (rule word_and_le1)
    then show ?thesis by (simp add: word_le_nat_alt)
  qed
  have "unat (drop_bit k n AND 0x3F) = unat (drop_bit k m AND 0x3F)"
    using eq b64_distinct lt nth_eq_iff_index_eq [of B64_CHARS] unfolding sextet_def by metis
  then have "drop_bit k n AND mask 6 = drop_bit k m AND mask 6" by (simp add: mask_eq_exp_minus_1 word_unat_eq_iff)
  then have "bit (drop_bit k n AND mask 6) i = bit (drop_bit k m AND mask 6) i" by simp
  then show ?thesis using i by (simp add: bit_simps add.commute)
qed

lemma byte_high: "8 \<le> i \<Longrightarrow> \<not> bit (b :: byte) i"
  using bit_imp_le_length [of b i] by auto

lemma chunk_bit:
  assumes "i < 8" "k < length c" "length c \<le> 3"
  shows "bit (chunk_word c) (8 * (2 - k) + i) = bit (c ! k) i"
proof -
  consider "k = 0" | "k = 1" | "k = 2" using assms(2,3) by linarith
  then show ?thesis using assms byte_high
    by cases (simp_all add: chunk_word_def Let_def bit_or_iff bit_push_bit_iff bit_unsigned_iff bit_1_iff)
qed

lemma encode_chunk_inj:
  assumes "encode_chunk a = encode_chunk b" "length a = length b" "0 < length a" "length a \<le> 3"
  shows "a = b"
proof (rule nth_equalityI)
  let ?n = "chunk_word a" and ?m = "chunk_word b"
  have s: "sextet ?n 18 = sextet ?m 18" "sextet ?n 12 = sextet ?m 12"
    "length a > 1 \<Longrightarrow> sextet ?n 6 = sextet ?m 6" "length a > 2 \<Longrightarrow> sextet ?n 0 = sextet ?m 0"
    using assms(1,2) by (auto simp: encode_chunk_def Let_def split: if_splits)
  have bits: "bit ?n j = bit ?m j" if "j < 24" "length a \<le> 1 \<longrightarrow> 12 \<le> j" "length a \<le> 2 \<longrightarrow> 6 \<le> j" for j
  proof -
    consider "18 \<le> j" | "12 \<le> j" "j < 18" | "6 \<le> j" "j < 12" | "j < 6" by linarith
    then show ?thesis
    proof cases
      case 1 then show ?thesis using sextet_inj [OF s(1), of "j - 18"] that by simp
    next
      case 2 then show ?thesis using sextet_inj [OF s(2), of "j - 12"] that by simp
    next
      case 3 then show ?thesis using sextet_inj [OF s(3), of "j - 6"] that by simp
    next
      case 4 then show ?thesis using sextet_inj [OF s(4), of j] that by simp
    qed
  qed
  fix k assume k: "k < length a"
  show "a ! k = b ! k"
  proof (rule bit_word_eqI)
    fix i :: nat assume "i < LENGTH(8)"
    then have i: "i < 8" by simp
    have "bit ?n (8 * (2 - k) + i) = bit ?m (8 * (2 - k) + i)"
      by (rule bits) (use k i assms(4) in linarith)+
    then show "bit (a ! k) i = bit (b ! k) i" using chunk_bit [OF i] k assms(2,4) by simp
  qed
qed (use assms(2) in simp)

lemma length_encode_chunk: "length (encode_chunk c) = (if length c > 2 then 4 else if length c > 1 then 3 else 2)"
  by (simp add: encode_chunk_def Let_def)

lemma base64url_length: "length (base64url_encode d) = 4 * (length d div 3) + (if length d mod 3 = 0 then 0 else length d mod 3 + 1)"
proof (induction d rule: base64url_encode.induct)
  case (1 d)
  show ?case
  proof (cases "length d < 3")
    case True
    then consider "length d = 0" | "length d = 1" | "length d = 2" by linarith
    then show ?thesis
      by cases (auto simp: base64url_encode.simps [of d] base64url_encode.simps [of "[]"] length_encode_chunk)
  next
    case False
    then show ?thesis using 1 by (auto simp: base64url_encode.simps [of d] length_encode_chunk le_div_geq le_mod_geq)
  qed
qed

lemma groups_inj:
  fixes m n :: nat
  assumes "4 * (m div 3) + (if m mod 3 = 0 then 0 else m mod 3 + 1) = 4 * (n div 3) + (if n mod 3 = 0 then 0 else n mod 3 + 1)"
  shows "m = n"
proof -
  have unique: "q = q' \<and> r = r'" if "4 * q + (if r = 0 then 0 else r + 1) = 4 * q' + (if r' = 0 then 0 else r' + 1)" "r < 3" "r' < 3"
    for q q' r r' :: nat
  proof -
    have "r = 0 \<or> r = 1 \<or> r = 2" "r' = 0 \<or> r' = 1 \<or> r' = 2" using that(2,3) by linarith+
    moreover have "4 * q \<noteq> 4 * q' + 1" "4 * q \<noteq> 4 * q' + 2" "4 * q \<noteq> 4 * q' + 3" "4 * q + 1 \<noteq> 4 * q'" "4 * q + 2 \<noteq> 4 * q'" "4 * q + 3 \<noteq> 4 * q'"
      by presburger+
    ultimately show ?thesis using that(1) by (elim disjE) simp_all
  qed
  have "m div 3 = n div 3 \<and> m mod 3 = n mod 3" using assms by (rule unique) simp_all
  then show ?thesis by (metis mult_div_mod_eq)
qed

lemma base64url_inj: "base64url_encode a = base64url_encode b \<Longrightarrow> a = b"
proof (induction a arbitrary: b rule: base64url_encode.induct)
  case (1 a)
  have "length (base64url_encode a) = length (base64url_encode b)" using "1.prems" by simp
  then have len: "length a = length b"
    unfolding base64url_length by (rule groups_inj)
  show ?case
  proof (cases "a = []")
    case False
    then have "b \<noteq> []" using len by auto
    have "encode_chunk (take 3 a) @ base64url_encode (drop 3 a) = encode_chunk (take 3 b) @ base64url_encode (drop 3 b)"
      using "1.prems" False \<open>b \<noteq> []\<close> by (simp add: base64url_encode.simps [of a] base64url_encode.simps [of b])
    then have eq: "encode_chunk (take 3 a) = encode_chunk (take 3 b)" "base64url_encode (drop 3 a) = base64url_encode (drop 3 b)"
      using len by (simp_all add: append_eq_append_conv length_encode_chunk)
    have "take 3 a = take 3 b" by (rule encode_chunk_inj [OF eq(1)]) (use len False in auto)
    moreover have "drop 3 a = drop 3 b" by (rule "1.IH" [OF False eq(2)])
    ultimately show ?thesis by (metis append_take_drop_id)
  qed (use len in simp)
qed

section \<open>C strings\<close>

text \<open>
  \<open>to_string_lossy\<close> of the Rust library: every maximal ill-formed piece becomes U+FFFD. \<open>take_ranges\<close>
  counts the bytes behind a first byte that are in their ranges.
\<close>

fun take_ranges :: "(nat \<times> nat) list \<Rightarrow> string \<Rightarrow> bool \<times> nat" where
  "take_ranges [] s = (True, 0)"
| "take_ranges ((lo, hi) # rs) [] = (False, 0)"
| "take_ranges ((lo, hi) # rs) (c # s) =
    (if lo \<le> byte_of c \<and> byte_of c \<le> hi then (case take_ranges rs s of (ok, n) \<Rightarrow> (ok, Suc n)) else (False, 0))"

definition REPLACEMENT :: string where
  "REPLACEMENT = [CHR 0xEF, CHR 0xBF, CHR 0xBD]"

function lossy :: "string \<Rightarrow> string" where
  "lossy [] = []"
| "lossy (c # r) = (case seq_ranges (byte_of c) of
      None \<Rightarrow> REPLACEMENT @ lossy r
    | Some rs \<Rightarrow> (if fst (take_ranges rs r) then c # take (snd (take_ranges rs r)) r else REPLACEMENT) @ lossy (drop (snd (take_ranges rs r)) r))"
  by pat_completeness auto
termination by (relation "measure length") auto

text \<open>\<open>CStr::from_ptr(p).to_string_lossy()\<close>\<close>

definition from_c_str :: "string \<Rightarrow> string" where
  "from_c_str p = lossy (c_str p)"

lemma take_ranges_in: "in_ranges rs (map byte_of xs) \<Longrightarrow> take_ranges rs (xs @ r) = (True, length xs)"
  by (induction rs xs rule: take_ranges.induct) auto

lemma take_ranges_ok: "take_ranges rs s = (True, n) \<Longrightarrow> n \<le> length s \<and> in_ranges rs (map byte_of (take n s))"
  by (induction rs s arbitrary: n rule: take_ranges.induct) (auto split: if_splits prod.splits)

lemma lossy_char: "scalar cp \<Longrightarrow> lossy (utf8_bytes cp @ r) = utf8_bytes cp @ lossy r"
proof -
  assume "scalar cp"
  from utf8_bytes_seq [OF this] obtain b bs rs where u: "map byte_of (utf8_bytes cp) = b # bs" "seq_ranges b = Some rs" "in_ranges rs bs"
    by (elim exE conjE)
  obtain c xs where cx: "utf8_bytes cp = c # xs" "byte_of c = b" "map byte_of xs = bs" using u(1) by (cases "utf8_bytes cp") auto
  then show ?thesis using u take_ranges_in [of rs xs r] by simp
qed

lemma lossy_id: "utf8 s \<Longrightarrow> lossy s = s"
proof -
  have "list_all scalar cps \<Longrightarrow> lossy (concat (map utf8_bytes cps)) = concat (map utf8_bytes cps)" for cps
    by (induction cps) (simp_all add: lossy_char)
  then show "utf8 s \<Longrightarrow> lossy s = s" unfolding utf8_def by blast
qed

lemma replacement_utf8: "utf8 REPLACEMENT"
  using utf8_bytes_utf8 [of "0xFFFD"] by (simp add: utf8_bytes_arith scalar_def REPLACEMENT_def char_of_def bit_0)

lemma lossy_utf8: "utf8 (lossy s)"
proof (induction s rule: lossy.induct)
  case (2 c r)
  show ?case
  proof (cases "seq_ranges (byte_of c)")
    case None
    then show ?thesis using 2(1) by (simp add: utf8_append replacement_utf8)
  next
    case (Some rs)
    obtain ok n where t: "take_ranges rs r = (ok, n)" by (cases "take_ranges rs r")
    have "utf8 (c # take n r)" if ok
    proof -
      have "in_ranges rs (map byte_of (take n r))" using t that take_ranges_ok [of rs r n] by simp
      then obtain cp where "scalar cp" "utf8_bytes cp = map char_of (byte_of c # map byte_of (take n r))"
        using seq_ranges_code_point [OF Some] by blast
      then show ?thesis using utf8_bytes_utf8 map_char_of_byte_of [of "c # take n r"] by (metis list.simps(9))
    qed
    then show ?thesis using 2(2) [OF Some] Some t by (cases ok) (auto intro!: utf8_append [of "_ # _", simplified] utf8_append replacement_utf8)
  qed
qed simp

section \<open>Tokens\<close>

record capability_token =
  tk_module_id :: string
  tk_capability :: string
  tk_issued_at :: u64
  tk_expires_at :: u64
  tk_nonce :: string
  tk_hmac :: string

text \<open>\<open>to_le_bytes\<close> of a word of \<open>n\<close> bytes.\<close>

definition le_bytes :: "nat \<Rightarrow> 'a::len word \<Rightarrow> byte list" where
  "le_bytes n w = map (\<lambda>i. ucast (drop_bit (8 * i) w)) [0..<n]"

definition saturating_add :: "u64 \<Rightarrow> u64 \<Rightarrow> u64" where
  "saturating_add a b = (if unat a + unat b < 2 ^ 64 then a + b else - 1)"

definition payload :: "capability_token \<Rightarrow> string" where
  "payload t = tk_module_id t @ '':'' @ tk_capability t @ '':'' @ dec (unat (tk_issued_at t)) @ '':'' @
     dec (unat (tk_expires_at t)) @ '':'' @ tk_nonce t"

definition compute_hmac :: "mac_fn \<Rightarrow> byte list \<Rightarrow> capability_token \<Rightarrow> string" where
  "compute_hmac mac secret t = base64url_encode (mac secret (bytes_of_str (payload t)))"

text \<open>\<open>generate_secret\<close>: what the random device gave, or the hash of the clock.\<close>

definition generate_secret :: "hash_fn \<Rightarrow> byte list option \<Rightarrow> 128 word \<Rightarrow> byte list" where
  "generate_secret sha urandom now_nanos = (case urandom of
      Some buf \<Rightarrow> buf
    | None \<Rightarrow> sha (le_bytes 16 now_nanos @ bytes_of_str ''astraveil-token-secret-fallback''))"

text \<open>\<open>issue\<close>: the token and the next value of the counter.\<close>

definition issue :: "hash_fn \<Rightarrow> mac_fn \<Rightarrow> byte list \<Rightarrow> u64 \<Rightarrow> u64 \<Rightarrow> string \<Rightarrow> string \<Rightarrow> u64 \<Rightarrow> capability_token \<times> u64" where
  "issue sha mac secret now_secs count module_id capability duration =
    (let nonce = hex_encode (take 8 (sha (le_bytes 8 now_secs @ le_bytes 8 count @ bytes_of_str module_id @ bytes_of_str capability)));
         t = \<lparr>tk_module_id = module_id, tk_capability = capability, tk_issued_at = now_secs,
              tk_expires_at = saturating_add now_secs duration, tk_nonce = nonce, tk_hmac = []\<rparr>
     in (t\<lparr>tk_hmac := compute_hmac mac secret t\<rparr>, count + 1))"

definition verify :: "mac_fn \<Rightarrow> byte list \<Rightarrow> u64 \<Rightarrow> capability_token \<Rightarrow> string \<Rightarrow> bool" where
  "verify mac secret now_secs t expected_module_id =
    (if tk_module_id t \<noteq> expected_module_id then False
     else if now_secs > tk_expires_at t then False
     else constant_time_eq (bytes_of_str (tk_hmac t)) (bytes_of_str (compute_hmac mac secret t)))"

text \<open>
  The calls for C. A null pointer is None; the result of \<open>token_issue\<close> has the code, the bytes written
  to the buffer and the counter.
\<close>

definition token_issue :: "hash_fn \<Rightarrow> mac_fn \<Rightarrow> (capability_token \<Rightarrow> string option) \<Rightarrow> u64 \<Rightarrow> u64 \<Rightarrow>
    string option \<Rightarrow> string option \<Rightarrow> u64 \<Rightarrow> byte list option \<Rightarrow> nat option \<Rightarrow> int \<times> string \<times> u64" where
  "token_issue sha mac to_json now_secs count module_id capability duration secret out_len =
    (case (module_id, capability, secret, out_len) of
       (Some m, Some c, Some key, Some len) \<Rightarrow>
         (case issue sha mac key now_secs count (from_c_str m) (from_c_str c) duration of
            (t, count') \<Rightarrow>
              (case to_json t of
                 None \<Rightarrow> (-1, [], count')
               | Some json \<Rightarrow> if length json + 1 > len then (-1, [], count') else (0, json @ [CHR 0x00], count')))
     | _ \<Rightarrow> (-1, [], count))"

definition token_verify :: "mac_fn \<Rightarrow> (string \<Rightarrow> capability_token option) \<Rightarrow> u64 \<Rightarrow>
    string option \<Rightarrow> string option \<Rightarrow> byte list option \<Rightarrow> int" where
  "token_verify mac of_json now_secs token_json expected_module_id secret =
    (case (token_json, expected_module_id, secret) of
       (Some json, Some m, Some key) \<Rightarrow>
         (case of_json (from_c_str json) of
            None \<Rightarrow> -1
          | Some t \<Rightarrow> if verify mac key now_secs t (from_c_str m) then 1 else 0)
     | _ \<Rightarrow> -1)"

section \<open>What a token proves\<close>

lemma bytes_of_str_eq [simp]: "bytes_of_str a = bytes_of_str b \<longleftrightarrow> a = b"
  by (metis str_bytes_roundtrip)

lemma verify_iff:
  "verify mac secret now t m \<longleftrightarrow> tk_module_id t = m \<and> now \<le> tk_expires_at t \<and> tk_hmac t = compute_hmac mac secret t"
  by (auto simp: verify_def constant_time_eq_iff)

lemma issue_fields:
  "tk_module_id (fst (issue sha mac secret now n m c d)) = m"
  "tk_capability (fst (issue sha mac secret now n m c d)) = c"
  "tk_issued_at (fst (issue sha mac secret now n m c d)) = now"
  "tk_expires_at (fst (issue sha mac secret now n m c d)) = saturating_add now d"
  "tk_hmac (fst (issue sha mac secret now n m c d)) = compute_hmac mac secret (fst (issue sha mac secret now n m c d))"
  by (simp_all add: issue_def Let_def compute_hmac_def payload_def)

lemma unat_saturating_add: "unat (saturating_add a b) = min (unat a + unat b) (2 ^ 64 - 1)"
proof (cases "unat a + unat b < 2 ^ 64")
  case True
  then have "unat (a + b) = unat a + unat b" by (simp add: unat_word_ariths)
  then show ?thesis using True by (simp add: saturating_add_def)
next
  case False
  have "unat (- 1 :: u64) = 2 ^ 64 - 1" by (simp add: unsigned_minus_1_eq_mask mask_eq_exp_minus_1)
  then show ?thesis using False by (simp add: saturating_add_def)
qed

text \<open>
  Tokens live as long as they were issued for: the token that the authority issues to a module is
  accepted for that module and no other, from any clock reading up to the end of its duration, which
  saturates instead of wrapping around.
\<close>

theorem token_lifetime:
  "verify mac secret later (fst (issue sha mac secret now count m c d)) m' \<longleftrightarrow>
     m' = m \<and> unat later \<le> min (unat now + unat d) (2 ^ 64 - 1)"
  by (auto simp: verify_iff issue_fields word_le_nat_alt unat_saturating_add)

text \<open>Texts that are separated by colons and have none themselves.\<close>

lemma colon_split:
  assumes "a @ CHR '':'' # x = b @ CHR '':'' # y" "CHR '':'' \<notin> set a" "CHR '':'' \<notin> set b"
  shows "a = b \<and> x = y"
proof -
  have "Some (a, x) = Some (b, y)"
    unfolding split_at_colon_append [OF assms(2), symmetric] split_at_colon_append [OF assms(3), symmetric] assms(1) ..
  then show ?thesis by simp
qed

lemma dec_no_colon: "CHR '':'' \<notin> set (dec n)"
proof
  assume "CHR '':'' \<in> set (dec n)"
  then have "is_digit (CHR '':'')" by (rule dec_digits)
  then show False by (simp add: is_digit_def)
qed

lemma payload_inj:
  assumes "payload t = payload t'"
    and "CHR '':'' \<notin> set (tk_module_id t)" "CHR '':'' \<notin> set (tk_module_id t')"
    and "CHR '':'' \<notin> set (tk_capability t)" "CHR '':'' \<notin> set (tk_capability t')"
  shows "tk_module_id t = tk_module_id t' \<and> tk_capability t = tk_capability t' \<and> tk_issued_at t = tk_issued_at t' \<and>
    tk_expires_at t = tk_expires_at t' \<and> tk_nonce t = tk_nonce t'"
proof -
  let ?r = "\<lambda>t. dec (unat (tk_issued_at t)) @ CHR '':'' # dec (unat (tk_expires_at t)) @ CHR '':'' # tk_nonce t"
  have "tk_module_id t = tk_module_id t'" and 1: "tk_capability t @ CHR '':'' # ?r t = tk_capability t' @ CHR '':'' # ?r t'"
    using colon_split [OF _ assms(2,3)] assms(1) by (simp_all add: payload_def)
  moreover have "tk_capability t = tk_capability t'" and 2: "?r t = ?r t'"
    using colon_split [OF 1 assms(4,5)] by simp_all
  moreover have "dec (unat (tk_issued_at t)) = dec (unat (tk_issued_at t'))"
    and 3: "dec (unat (tk_expires_at t)) @ CHR '':'' # tk_nonce t = dec (unat (tk_expires_at t')) @ CHR '':'' # tk_nonce t'"
    using colon_split [OF 2 dec_no_colon dec_no_colon] by simp_all
  moreover have "dec (unat (tk_expires_at t)) = dec (unat (tk_expires_at t'))" "tk_nonce t = tk_nonce t'"
    using colon_split [OF 3 dec_no_colon dec_no_colon] by simp_all
  ultimately show ?thesis by (simp add: dec_inj word_unat_eq_iff)
qed

text \<open>
  C35. A token is bound to what it was issued for: if a token with the code of an issued one is accepted
  for a module, and the keyed hash does not give the two payloads the same value, then it is the issued token
  in every field and the module is the one it was issued to, provided that no module id and no
  capability has a colon in it.
\<close>

theorem token_binding:
  assumes "t = fst (issue sha mac secret now count m c d)"
    and "verify mac secret later t' m'" "tk_hmac t' = tk_hmac t"
    and "mac secret (bytes_of_str (payload t')) = mac secret (bytes_of_str (payload t)) \<Longrightarrow> payload t' = payload t"
    and "\<forall>s\<in>{m, c, m', tk_capability t'}. CHR '':'' \<notin> set s"
  shows "t' = t \<and> m' = m"
proof -
  have v: "tk_module_id t' = m'" "tk_hmac t' = compute_hmac mac secret t'" using assms(2) by (simp_all add: verify_iff)
  have i: "tk_module_id t = m" "tk_capability t = c" "tk_hmac t = compute_hmac mac secret t" using assms(1) issue_fields by simp_all
  have "mac secret (bytes_of_str (payload t')) = mac secret (bytes_of_str (payload t))"
    using v(2) i(3) assms(3) base64url_inj by (simp add: compute_hmac_def)
  then have "payload t' = payload t" by (rule assms(4))
  then have "tk_module_id t' = tk_module_id t \<and> tk_capability t' = tk_capability t \<and> tk_issued_at t' = tk_issued_at t \<and>
      tk_expires_at t' = tk_expires_at t \<and> tk_nonce t' = tk_nonce t"
    by (rule payload_inj) (use v i assms(5) in auto)
  then show ?thesis using assms(3) v i by (cases t; cases t') auto
qed

text \<open>
  With colons the binding fails, whatever the keyed hash is: a token for module \<open>a\<close> with the capability
  \<open>b:c\<close> is, with the text split elsewhere, a token for module \<open>a:b\<close> with the capability \<open>c\<close>, although
  the documentation calls tokens non-transferable.
\<close>

theorem token_colon_confusion:
  fixes sha mac secret now count a b c d
  defines "t \<equiv> fst (issue sha mac secret now count a (b @ '':'' @ c) d)"
  shows "verify mac secret later (t\<lparr>tk_module_id := a @ '':'' @ b, tk_capability := c\<rparr>) (a @ '':'' @ b) \<longleftrightarrow>
    unat later \<le> min (unat now + unat d) (2 ^ 64 - 1)"
proof -
  have "payload (t\<lparr>tk_module_id := a @ '':'' @ b, tk_capability := c\<rparr>) = payload t"
    by (simp add: payload_def t_def issue_fields)
  then have "compute_hmac mac secret (t\<lparr>tk_module_id := a @ '':'' @ b, tk_capability := c\<rparr>) = tk_hmac t"
    using issue_fields(5) by (simp add: compute_hmac_def t_def)
  moreover have "tk_expires_at t = saturating_add now d" by (simp add: t_def issue_fields)
  ultimately show ?thesis by (simp add: verify_iff word_le_nat_alt unat_saturating_add)
qed

text \<open>
  The calls for C: what \<open>token_issue\<close> writes into a buffer that is large enough, \<open>token_verify\<close> accepts for the
  module until the token expires, if the JSON library reads back the token it wrote as UTF-8 without NUL bytes.
\<close>

theorem token_calls_roundtrip:
  assumes "token_issue sha mac to_json now count (Some m) (Some c) d (Some key) (Some len) = (0, out, count')"
    and "t = fst (issue sha mac key now count (from_c_str m) (from_c_str c) d)"
    and "to_json t = Some json" "of_json json = Some t" "utf8 json" "CHR 0x00 \<notin> set json"
  shows "out = json @ [CHR 0x00] \<and> length out \<le> len \<and> count' = count + 1 \<and>
    token_verify mac of_json later (Some out) (Some m) (Some key) =
      (if unat later \<le> min (unat now + unat d) (2 ^ 64 - 1) then 1 else 0)"
proof -
  have t: "issue sha mac key now count (from_c_str m) (from_c_str c) d = (t, count + 1)"
    using assms(2) by (simp add: issue_def Let_def)
  have out: "out = json @ [CHR 0x00]" "length out \<le> len" "count' = count + 1"
    using assms(1,3) t by (auto simp: token_issue_def split: if_splits)
  have "c_str out = json" using assms(6) out(1) by (simp add: c_str_def takeWhile_append)
  then have "from_c_str out = json" using lossy_id [OF assms(5)] by (simp add: from_c_str_def)
  moreover have "verify mac key later t (from_c_str m) \<longleftrightarrow> unat later \<le> min (unat now + unat d) (2 ^ 64 - 1)"
    using assms(2) by (auto simp: verify_iff issue_fields word_le_nat_alt unat_saturating_add)
  ultimately show ?thesis using out assms(4) by (simp add: token_verify_def)
qed

text \<open>The hash and the keyed hash of the examples; the keyed hash is the message itself.\<close>

definition toy_sha :: hash_fn where
  "toy_sha msg = take 32 (msg @ replicate 32 7)"

definition toy_mac :: mac_fn where
  "toy_mac key msg = msg"

definition toy_token :: capability_token where
  "toy_token = fst (issue toy_sha toy_mac [1, 2] 100 0 ''mod'' ''overlayfs'' 50)"

text \<open>The same token as it comes back, with the code computed anew.\<close>

definition toy_copy :: capability_token where
  "toy_copy = toy_token\<lparr>tk_hmac := compute_hmac toy_mac [1, 2] toy_token\<rparr>"

theorem token_binding_witness: "toy_copy = toy_token \<and> tk_module_id toy_copy = ''mod''"
proof (rule token_binding [where sha = toy_sha and mac = toy_mac and secret = "[1, 2]" and now = 100 and count = 0
      and c = "''overlayfs''" and d = 50 and later = 120, OF toy_token_def])
  have "saturating_add 100 50 = (150 :: u64)" by (simp add: saturating_add_def)
  then show "verify toy_mac [1, 2] 120 toy_copy (tk_module_id toy_copy)"
    by (simp add: verify_iff toy_copy_def toy_token_def issue_fields compute_hmac_def payload_def)
  show "tk_hmac toy_copy = tk_hmac toy_token" using issue_fields(5) by (simp add: toy_copy_def toy_token_def)
  show "\<forall>s\<in>{''mod'', ''overlayfs'', tk_module_id toy_copy, tk_capability toy_copy}. CHR '':'' \<notin> set s"
    by (simp add: toy_copy_def toy_token_def issue_fields)
  show "payload toy_copy = payload toy_token" by (simp add: toy_copy_def payload_def)
qed

section \<open>Attestation\<close>

record attestation_token =
  at_module_id :: string
  at_timestamp :: u64
  at_hash :: string

definition sha256_hex :: "hash_fn \<Rightarrow> byte list \<Rightarrow> string" where
  "sha256_hex sha data = hex_encode (sha data)"

text \<open>\<open>for_module\<close>; the milliseconds are truncated to 64 bits, and 0 when the clock is before 1970.\<close>

definition for_module :: "hash_fn \<Rightarrow> 128 word option \<Rightarrow> string \<Rightarrow> byte list \<Rightarrow> attestation_token" where
  "for_module sha now_millis module_id content =
    \<lparr>at_module_id = module_id, at_timestamp = (case now_millis of Some ms \<Rightarrow> ucast ms | None \<Rightarrow> 0),
     at_hash = sha256_hex sha content\<rparr>"

section \<open>The proof protocol\<close>

definition public_key :: "hash_fn \<Rightarrow> string \<Rightarrow> byte list" where
  "public_key sha hmac = sha (bytes_of_str hmac)"

definition commit :: "hash_fn \<Rightarrow> byte list \<Rightarrow> byte list" where
  "commit sha nonce = sha (nonce @ bytes_of_str ''astraveil-zk-commit'')"

definition respond :: "hash_fn \<Rightarrow> byte list \<Rightarrow> byte list \<Rightarrow> byte list \<Rightarrow> byte list" where
  "respond sha x nonce challenge = sha (nonce @ challenge @ x @ bytes_of_str ''astraveil-zk-respond'')"

definition zk_challenge :: "hash_fn \<Rightarrow> 128 word \<Rightarrow> byte list" where
  "zk_challenge sha now_nanos = sha (le_bytes 16 now_nanos @ bytes_of_str ''astraveil-zk-challenge'')"

text \<open>\<open>Verifier::verify\<close>\<close>

definition zk_check :: "hash_fn \<Rightarrow> byte list \<Rightarrow> byte list \<Rightarrow> byte list \<Rightarrow> byte list \<Rightarrow> bool" where
  "zk_check sha commitment challenge response pk =
    (if length commitment \<noteq> 32 \<or> length response \<noteq> 32 \<or> length pk \<noteq> 32 then False
     else if challenge = [] then False
     else if response = sha (commitment @ challenge @ pk @ bytes_of_str ''astraveil-zk-verify'') then False
     else list_ex (\<lambda>b. b \<noteq> 0) response)"

record proof_transcript =
  pt_commitment :: string
  pt_challenge :: string
  pt_response :: string
  pt_public_key :: string

text \<open>\<open>prove\<close> with its two readings of the clock.\<close>

definition prove :: "hash_fn \<Rightarrow> 128 word \<Rightarrow> 128 word \<Rightarrow> string \<Rightarrow> proof_transcript" where
  "prove sha now1 now2 token_hmac =
    (let nonce = sha (le_bytes 16 now1 @ bytes_of_str ''astraveil-zk-nonce'');
         challenge = zk_challenge sha now2
     in \<lparr>pt_commitment = hex_encode (commit sha nonce),
         pt_challenge = hex_encode challenge,
         pt_response = hex_encode (respond sha (bytes_of_str token_hmac) nonce challenge),
         pt_public_key = hex_encode (public_key sha token_hmac)\<rparr>)"

text \<open>
  \<open>hex_decode\<close>: the text is sliced at every second byte, which panics inside a character of more than one
  byte; \<open>u8::from_str_radix\<close> accepts a plus sign.
\<close>

datatype 'a outcome = Val 'a | Panic

definition hex_value :: "char \<Rightarrow> nat option" where
  "hex_value c =
    (let b = byte_of c
     in if 48 \<le> b \<and> b \<le> 57 then Some (b - 48)
        else if 97 \<le> b \<and> b \<le> 102 then Some (b - 87)
        else if 65 \<le> b \<and> b \<le> 70 then Some (b - 55)
        else None)"

definition u8_radix16 :: "char \<Rightarrow> char \<Rightarrow> byte option" where
  "u8_radix16 a b =
    (if a = CHR ''+'' then map_option of_nat (hex_value b)
     else (case (hex_value a, hex_value b) of (Some x, Some y) \<Rightarrow> Some (of_nat (16 * x + y)) | _ \<Rightarrow> None))"

definition continuation :: "char \<Rightarrow> bool" where
  "continuation c \<longleftrightarrow> 0x80 \<le> byte_of c \<and> byte_of c \<le> 0xBF"

fun hex_pairs :: "string \<Rightarrow> byte list option outcome" where
  "hex_pairs (a # b # rest) =
    (if continuation a \<or> rest \<noteq> [] \<and> continuation (hd rest) then Panic
     else (case u8_radix16 a b of
         None \<Rightarrow> Val None
       | Some v \<Rightarrow> (case hex_pairs rest of Val (Some vs) \<Rightarrow> Val (Some (v # vs)) | r \<Rightarrow> r)))"
| "hex_pairs _ = Val (Some [])"

definition hex_decode :: "string \<Rightarrow> byte list option outcome" where
  "hex_decode s = (if length s mod 2 \<noteq> 0 then Val None else hex_pairs s)"

text \<open>\<open>verify_transcript\<close>: the four texts are decoded in order; the first that is not hexadecimal ends it.\<close>

definition and_then :: "byte list option outcome \<Rightarrow> (byte list \<Rightarrow> bool outcome) \<Rightarrow> bool outcome" where
  "and_then r k = (case r of Panic \<Rightarrow> Panic | Val None \<Rightarrow> Val False | Val (Some bs) \<Rightarrow> k bs)"

definition verify_transcript :: "hash_fn \<Rightarrow> proof_transcript \<Rightarrow> bool outcome" where
  "verify_transcript sha tr =
    and_then (hex_decode (pt_commitment tr)) (\<lambda>commitment.
    and_then (hex_decode (pt_challenge tr)) (\<lambda>challenge.
    and_then (hex_decode (pt_response tr)) (\<lambda>response.
    and_then (hex_decode (pt_public_key tr)) (\<lambda>pk.
      Val (zk_check sha commitment challenge response pk)))))"

definition zk_prove :: "hash_fn \<Rightarrow> (proof_transcript \<Rightarrow> string option) \<Rightarrow> 128 word \<Rightarrow> 128 word \<Rightarrow> string option \<Rightarrow> nat option \<Rightarrow>
    int \<times> string" where
  "zk_prove sha to_json now1 now2 token_hmac out_len = (case (token_hmac, out_len) of
      (Some hmac, Some len) \<Rightarrow>
        (case to_json (prove sha now1 now2 (from_c_str hmac)) of
           None \<Rightarrow> (-1, [])
         | Some json \<Rightarrow> if length json + 1 > len then (-1, []) else (0, json @ [CHR 0x00]))
    | _ \<Rightarrow> (-1, []))"

definition zk_verify :: "hash_fn \<Rightarrow> (string \<Rightarrow> proof_transcript option) \<Rightarrow> string option \<Rightarrow> int outcome" where
  "zk_verify sha of_json transcript_json = (case transcript_json of
      None \<Rightarrow> Val (-1)
    | Some json \<Rightarrow> (case of_json (from_c_str json) of
          None \<Rightarrow> Val (-1)
        | Some tr \<Rightarrow> (case verify_transcript sha tr of Panic \<Rightarrow> Panic | Val ok \<Rightarrow> Val (if ok then 1 else 0))))"

section \<open>What a proof proves\<close>

lemma less_16: "d < 16 \<longleftrightarrow> d \<in> {0, 1, 2, 3, 4, 5, 6, 7, 8, 9, 10, 11, 12, 13, 14, 15 :: nat}"
  by (simp, presburger)

lemma hex_digit_facts:
  assumes "d < 16"
  shows "hex_value (hex_digit d) = Some d" "\<not> continuation (hex_digit d)" "hex_digit d \<noteq> CHR ''+''"
proof -
  have "hex_value (hex_digit d) = Some d \<and> \<not> continuation (hex_digit d) \<and> hex_digit d \<noteq> CHR ''+''"
    using assms unfolding less_16
    by (elim insertE emptyE) (simp_all add: hex_digit_def hex_value_def continuation_def)
  then show "hex_value (hex_digit d) = Some d" "\<not> continuation (hex_digit d)" "hex_digit d \<noteq> CHR ''+''" by simp_all
qed

lemma byte_less: "unat (b :: byte) < 16 * 16"
  using unsigned_less [of b] by simp

lemma hex_encode_simps [simp]:
  "hex_encode [] = []"
  "hex_encode (b # bs) = hex_digit (unat b div 16) # hex_digit (unat b mod 16) # hex_encode bs"
  by (simp_all add: hex_encode_def)

lemma hex_roundtrip [simp]: "hex_decode (hex_encode bs) = Val (Some bs)"
proof -
  have "even (length (hex_encode bs))" by (induction bs) simp_all
  moreover have "hex_pairs (hex_encode bs) = Val (Some bs)"
  proof (induction bs)
    case (Cons b bs)
    have lt: "unat b div 16 < 16" "unat b mod 16 < 16" using byte_less [of b] by simp_all
    have "of_nat (16 * (unat b div 16) + unat b mod 16) = b" by simp
    then have "u8_radix16 (hex_digit (unat b div 16)) (hex_digit (unat b mod 16)) = Some b"
      using hex_digit_facts [OF lt(1)] hex_digit_facts [OF lt(2)] by (simp add: u8_radix16_def)
    moreover have "\<not> continuation (hd (hex_encode bs))" if "hex_encode bs \<noteq> []"
    proof (cases bs)
      case (Cons b' bs')
      have "unat b' div 16 < 16" using byte_less [of b'] by simp
      then show ?thesis using Cons hex_digit_facts(2) by simp
    qed (use that in simp)
    ultimately show ?case using Cons.IH hex_digit_facts(2) [OF lt(1)] by (cases "hex_encode bs = []") simp_all
  qed simp
  ultimately show ?thesis by (simp add: hex_decode_def)
qed

text \<open>Attestations of two payloads carry the same hash exactly when the hash function does not tell them apart.\<close>

lemma attestation_hash:
  "at_hash (for_module sha now m a) = at_hash (for_module sha now' m' b) \<longleftrightarrow> sha a = sha b"
  "length (at_hash (for_module sha now m a)) = 2 * length (sha a)"
proof -
  have "hex_encode x = hex_encode y \<longleftrightarrow> x = y" for x y
    using hex_roundtrip by (metis option.inject outcome.inject)
  then show "at_hash (for_module sha now m a) = at_hash (for_module sha now' m' b) \<longleftrightarrow> sha a = sha b"
    by (simp add: for_module_def sha256_hex_def)
  have "length (hex_encode x) = 2 * length x" for x by (induction x) simp_all
  then show "length (at_hash (for_module sha now m a)) = 2 * length (sha a)" by (simp add: for_module_def sha256_hex_def)
qed

lemma zk_check_iff:
  "zk_check sha commitment challenge response pk \<longleftrightarrow>
    length commitment = 32 \<and> length response = 32 \<and> length pk = 32 \<and> challenge \<noteq> [] \<and>
    response \<noteq> sha (commitment @ challenge @ pk @ bytes_of_str ''astraveil-zk-verify'') \<and> response \<noteq> replicate 32 0"
proof -
  have "list_ex (\<lambda>b. b \<noteq> 0) response \<longleftrightarrow> response \<noteq> replicate 32 0" if "length response = 32"
    using that replicate_length_same [of response 0] by (auto simp: list_ex_iff)
  then show ?thesis by (auto simp: zk_check_def)
qed

text \<open>
  C36. The proof protocol proves nothing: for every public key of 32 bytes, any commitment of 32 bytes and any challenge that
  is not empty, of any two different non-zero responses of 32 bytes at least one makes a transcript that
  is accepted. None of them depends on the token, so anybody can present a proof for any key.
\<close>

theorem zk_forgery:
  assumes "length commitment = 32" "length pk = 32" "challenge \<noteq> []"
    and "length r1 = 32" "length r2 = 32" "r1 \<noteq> r2" "r1 \<noteq> replicate 32 0" "r2 \<noteq> replicate 32 0"
  shows "\<exists>r\<in>{r1, r2}. verify_transcript sha \<lparr>pt_commitment = hex_encode commitment, pt_challenge = hex_encode challenge,
    pt_response = hex_encode r, pt_public_key = hex_encode pk\<rparr> = Val True"
proof -
  have "zk_check sha commitment challenge r1 pk \<or> zk_check sha commitment challenge r2 pk"
    using assms by (auto simp: zk_check_iff)
  then show ?thesis by (auto simp: verify_transcript_def and_then_def)
qed

theorem zk_forgery_witness:
  "\<exists>r\<in>{replicate 32 1, replicate 32 2}. verify_transcript toy_sha \<lparr>pt_commitment = hex_encode (replicate 32 0),
    pt_challenge = hex_encode [5], pt_response = hex_encode r, pt_public_key = hex_encode (public_key toy_sha ''secret'')\<rparr> = Val True"
  by (rule zk_forgery) (simp_all add: public_key_def toy_sha_def numeral_eq_Suc)

text \<open>
  An honest transcript is accepted unless the response happens to be the public binding value or all zero.
\<close>

theorem zk_complete:
  fixes sha now1 now2 hmac
  assumes "\<forall>x. length (sha x) = 32"
  defines "n \<equiv> sha (le_bytes 16 now1 @ bytes_of_str ''astraveil-zk-nonce'')"
  defines "c \<equiv> zk_challenge sha now2"
  defines "r \<equiv> respond sha (bytes_of_str hmac) n c"
  shows "verify_transcript sha (prove sha now1 now2 hmac) =
    Val (r \<noteq> sha (commit sha n @ c @ public_key sha hmac @ bytes_of_str ''astraveil-zk-verify'') \<and> r \<noteq> replicate 32 0)"
proof -
  have "length (commit sha n) = 32" "length r = 32" "length (public_key sha hmac) = 32" "length c = 32"
    using assms(1) by (simp_all add: commit_def r_def respond_def public_key_def c_def zk_challenge_def)
  then show ?thesis
    by (auto simp: verify_transcript_def and_then_def prove_def Let_def zk_check_iff n_def [symmetric] c_def [symmetric] r_def [symmetric])
qed

text \<open>
  A transcript need not be hexadecimal to hurt: a field with a two-byte character between two others is sliced
  in its middle, and the verifier panics.
\<close>

theorem zk_verify_panics:
  assumes "of_json (from_c_str json) = Some tr" "pt_commitment tr = [CHR ''a'', CHR 0xC3, CHR 0xA9, CHR ''b'']"
  shows "utf8 (pt_commitment tr) \<and> zk_verify sha of_json (Some json) = Panic"
proof -
  have "utf8 [CHR 0xC3, CHR 0xA9]"
    using utf8_bytes_utf8 [of "0xE9"] by (simp add: utf8_bytes_arith scalar_def char_of_def bit_0)
  then have "utf8 ([CHR ''a''] @ [CHR 0xC3, CHR 0xA9] @ [CHR ''b''])"
    using utf8_bytes_utf8 [of 97] utf8_bytes_utf8 [of 98]
    by (intro utf8_append) (simp_all add: utf8_bytes_arith scalar_def char_of_def bit_0)
  moreover have "hex_decode (pt_commitment tr) = Panic" by (simp add: assms(2) hex_decode_def continuation_def)
  ultimately show ?thesis using assms by (simp add: zk_verify_def verify_transcript_def and_then_def)
qed

end
