(* ===== verification/RustPolicy.thy ===== *)
theory RustPolicy
  imports Prelude
begin

text \<open>
  The module policies of the Rust component (rust/src/policy.rs) and the sandbox description
  (rust/src/sandbox.rs). The policy registry is a map from module ids; a validation error is the
  message. A Rust \<open>String\<close> is the list of its UTF-8 bytes.
\<close>

section \<open>Module policies\<close>

datatype perm_level = NoLevel | ShellLevel | RootLevel | KernelLevel

fun as_level :: "perm_level \<Rightarrow> nat" where
  "as_level NoLevel = 0"
| "as_level ShellLevel = 1"
| "as_level RootLevel = 2"
| "as_level KernelLevel = 3"

record module_policy =
  mp_module_id :: string
  mp_permissions :: "string list"
  mp_max_level :: perm_level
  mp_sandboxed :: bool

datatype module_decision = Allow | Deny | RequireApproval

definition DENYLIST :: "string list" where
  "DENYLIST = [''mount'', ''su'', ''kernel_hook'', ''ptrace'', ''namespace'']"

type_synonym policy_engine = "string \<rightharpoonup> module_policy"

definition engine_new :: policy_engine where
  "engine_new = Map.empty"

definition engine_register :: "policy_engine \<Rightarrow> module_policy \<Rightarrow> policy_engine" where
  "engine_register e p = e(mp_module_id p \<mapsto> p)"

definition engine_get :: "policy_engine \<Rightarrow> string \<Rightarrow> module_policy option" where
  "engine_get e m = e m"

definition engine_evaluate :: "policy_engine \<Rightarrow> string \<Rightarrow> string \<Rightarrow> module_decision" where
  "engine_evaluate e m requested = (case e m of
      None \<Rightarrow> Deny
    | Some p \<Rightarrow>
        if requested \<notin> set (mp_permissions p) then Deny
        else if requested \<in> set DENYLIST then
          (if as_level (mp_max_level p) < as_level ShellLevel then Deny else RequireApproval)
        else Allow)"

definition default_policy_for :: "string \<Rightarrow> module_policy" where
  "default_policy_for m = \<lparr>mp_module_id = m, mp_permissions = [], mp_max_level = NoLevel, mp_sandboxed = True\<rparr>"

section \<open>Sandbox descriptions\<close>

record sandbox_config =
  sb_root_dir :: string
  sb_read_only_paths :: "string list"
  sb_write_paths :: "string list"
  sb_network :: bool
  sb_max_level :: perm_level

definition default_sandbox :: sandbox_config where
  "default_sandbox = \<lparr>sb_root_dir = ''/data/astra/sandbox'', sb_read_only_paths = [], sb_write_paths = [],
     sb_network = False, sb_max_level = NoLevel\<rparr>"

text \<open>
  Whether \<open>trim\<close> leaves nothing: the text consists of characters with the Unicode property White_Space
  (U+0009 to U+000D, U+0020, U+0085, U+00A0, U+1680, U+2000 to U+200A, U+2028, U+2029, U+202F, U+205F, U+3000).
\<close>

fun blank_text :: "string \<Rightarrow> bool" where
  "blank_text [] = True"
| "blank_text (a # s) =
    (if 0x09 \<le> (of_char a :: nat) \<and> (of_char a :: nat) \<le> 0x0D \<or> a = CHR 0x20 then blank_text s
     else (case s of
         b # s2 \<Rightarrow>
           if a = CHR 0xC2 \<and> (b = CHR 0x85 \<or> b = CHR 0xA0) then blank_text s2
           else (case s2 of
               c # s3 \<Rightarrow>
                 if a = CHR 0xE1 \<and> b = CHR 0x9A \<and> c = CHR 0x80 \<or>
                    a = CHR 0xE2 \<and> b = CHR 0x80 \<and>
                      (0x80 \<le> (of_char c :: nat) \<and> (of_char c :: nat) \<le> 0x8A \<or> c = CHR 0xA8 \<or> c = CHR 0xA9 \<or> c = CHR 0xAF) \<or>
                    a = CHR 0xE2 \<and> b = CHR 0x81 \<and> c = CHR 0x9F \<or>
                    a = CHR 0xE3 \<and> b = CHR 0x80 \<and> c = CHR 0x80
                 then blank_text s3 else False
             | [] \<Rightarrow> False)
       | [] \<Rightarrow> False))"

definition is_absolute :: "string \<Rightarrow> bool" where
  "is_absolute path \<longleftrightarrow> prefix ''/'' path"

text \<open>The loop over the write paths: the first that is also read-only.\<close>

fun check_write_paths :: "string list \<Rightarrow> string list \<Rightarrow> string + unit" where
  "check_write_paths ro [] = Inr ()"
| "check_write_paths ro (w # ws) =
    (if w \<in> set ro then Inl (''path listed in both read_only_paths and write_paths: '' @ w) else check_write_paths ro ws)"

definition sandbox_validate :: "sandbox_config \<Rightarrow> string + unit" where
  "sandbox_validate c =
    (if blank_text (sb_root_dir c) then Inl ''sandbox root_dir must not be empty''
     else if \<not> is_absolute (sb_root_dir c) then Inl (''sandbox root_dir must be absolute: '' @ sb_root_dir c)
     else check_write_paths (sb_read_only_paths c) (sb_write_paths c))"

definition sandbox_describe :: "sandbox_config \<Rightarrow> string" where
  "sandbox_describe c = ''Sandbox(root='' @ sb_root_dir c @ '', ro='' @ dec (length (sb_read_only_paths c)) @
     '', rw='' @ dec (length (sb_write_paths c)) @ '', net='' @ (if sb_network c then ''true'' else ''false'') @
     '', max_level='' @ dec (as_level (sb_max_level c)) @ '')''"

text \<open>The policy block of a module manifest.\<close>

record sandbox_policy =
  sp_filesystem :: string
  sp_network :: bool
  sp_root :: bool

definition restricted :: sandbox_policy where
  "restricted = \<lparr>sp_filesystem = ''readonly'', sp_network = False, sp_root = False\<rparr>"

definition deny_all :: sandbox_policy where
  "deny_all = \<lparr>sp_filesystem = ''none'', sp_network = False, sp_root = False\<rparr>"

section \<open>The registry\<close>

text \<open>Every policy is registered under its own module id, and the last registration of an id counts.\<close>

interpretation registry: machine engine_register "\<lambda>_. True" "\<lambda>e. \<forall>m p. engine_get e m = Some p \<longrightarrow> mp_module_id p = m"
  by unfold_locales (auto simp: engine_register_def engine_get_def split: if_splits)

lemma registered_id: "engine_get (foldl engine_register engine_new ps) m = Some p \<Longrightarrow> mp_module_id p = m"
  using registry.inv_run [of engine_new ps] by (auto simp: engine_get_def engine_new_def list_all_iff)

lemma registered_last:
  "engine_get (foldl engine_register engine_new ps) m = find (\<lambda>p. mp_module_id p = m) (rev ps)"
  by (induction ps rule: rev_induct) (auto simp: engine_get_def engine_register_def engine_new_def)

text \<open>
  The decisions of the module policies: after any registrations a request is allowed exactly when the last
  policy registered for the module lists the permission and it is not one of the dangerous ones; a dangerous one
  that is listed needs approval if the module's ceiling is at least the shell; everything
  else, and every request of a module without a policy, is denied.
\<close>

theorem module_decisions:
  "engine_evaluate (foldl engine_register engine_new ps) m r =
    (case find (\<lambda>p. mp_module_id p = m) (rev ps) of
       None \<Rightarrow> Deny
     | Some p \<Rightarrow>
         if r \<in> set (mp_permissions p) then
           (if r \<notin> set DENYLIST then Allow else if mp_max_level p = NoLevel then Deny else RequireApproval)
         else Deny)"
proof -
  have "as_level l < as_level ShellLevel \<longleftrightarrow> l = NoLevel" for l by (cases l) simp_all
  then show ?thesis
    using registered_last [of ps m] by (auto simp: engine_evaluate_def engine_get_def split: option.splits)
qed

text \<open>The default policy grants nothing.\<close>

lemma default_policy_denies: "engine_evaluate (engine_register e (default_policy_for m)) m r = Deny"
  by (simp add: engine_evaluate_def engine_register_def default_policy_for_def)

text \<open>
  The ceiling is documented as hard, requests above it being denied always; it is consulted for the dangerous
  permissions only, and only whether it is there at all: a module capped at the lowest level is allowed any other
  permission it lists, and a shell ceiling decides like a kernel ceiling.
\<close>

theorem ceiling_not_enforced:
  assumes "r \<in> set (mp_permissions p)" "r \<notin> set DENYLIST"
  shows "engine_evaluate (engine_register e (p\<lparr>mp_max_level := NoLevel\<rparr>)) (mp_module_id p) r = Allow \<and>
    engine_evaluate (engine_register e (p\<lparr>mp_max_level := ShellLevel\<rparr>)) (mp_module_id p) r' =
      engine_evaluate (engine_register e (p\<lparr>mp_max_level := KernelLevel\<rparr>)) (mp_module_id p) r'"
  using assms by (simp add: engine_evaluate_def engine_register_def)

section \<open>Validation\<close>

lemma check_write_paths_iff: "check_write_paths ro ws = Inr () \<longleftrightarrow> set ro \<inter> set ws = {}"
  by (induction ws) auto

text \<open>
  A description is accepted exactly when its root is an absolute path and no path is both read-only and
  writable; an accepted one may still nest a writable path in a read-only one.
\<close>

theorem sandbox_valid_iff:
  "sandbox_validate c = Inr () \<longleftrightarrow> is_absolute (sb_root_dir c) \<and> set (sb_read_only_paths c) \<inter> set (sb_write_paths c) = {}"
proof -
  have "\<not> blank_text (CHR ''/'' # s)" for s by (simp split: list.split)
  then have "\<not> blank_text (sb_root_dir c)" if "is_absolute (sb_root_dir c)"
    using that unfolding is_absolute_def prefix_def by (elim exE) simp
  then show ?thesis by (auto simp: sandbox_validate_def check_write_paths_iff)
qed

lemma sandbox_overlap_nested:
  "sandbox_validate (default_sandbox\<lparr>sb_read_only_paths := [''/system''], sb_write_paths := [''/system/bin'']\<rparr>) = Inr ()"
  by (simp add: sandbox_valid_iff default_sandbox_def is_absolute_def)

end
