(* ===== verification/JsonMemory.thy ===== *)
theory JsonMemory
  imports Daemon "HOL-Library.Multiset"
begin

text \<open>
  How deep the JSON library recurses, and what it frees (\<open>basic_json\<close> of module-spoof/jni/include/json.hpp).
  The parser keeps its own stack, and \<open>json_value::destroy\<close> flattens a value into a vector before it frees
  it; \<open>serializer::dump\<close> calls itself for every level of nesting. The last section shows what
  this means for the daemon, whose audit log a client can fill with a value of any depth.
\<close>

section \<open>Destroying a value\<close>

text \<open>
  A value with the addresses of the objects it owns on the heap: the string, the vector or the
  map that its union points to. Null, booleans and numbers own nothing.
\<close>

datatype heap_value =
    HPlain
  | HString nat
  | HArray nat "heap_value list"
  | HObject nat "(string \<times> heap_value) list"

fun owned :: "heap_value \<Rightarrow> nat option" where
  "owned HPlain = None"
| "owned (HString a) = Some a"
| "owned (HArray a xs) = Some a"
| "owned (HObject a kvs) = Some a"

text \<open>The items that are moved to the stack, in the order of the vector or the map, and what is left then.\<close>

fun items :: "heap_value \<Rightarrow> heap_value list" where
  "items (HArray a xs) = xs"
| "items (HObject a kvs) = map snd kvs"
| "items v = []"

fun cleared :: "heap_value \<Rightarrow> heap_value" where
  "cleared (HArray a xs) = HArray a []"
| "cleared (HObject a kvs) = HObject a []"
| "cleared v = v"

fun nodes :: "heap_value \<Rightarrow> nat" where
  "nodes (HArray a xs) = Suc (sum_list (map nodes xs))"
| "nodes (HObject a kvs) = Suc (sum_list (map (\<lambda>kv. nodes (snd kv)) kvs))"
| "nodes v = 1"

lemma nodes_items: "nodes v = Suc (sum_list (map nodes (items v)))"
  by (cases v) (simp_all add: comp_def)

lemma nodes_cleared: "nodes (cleared v) = 1"
  by (cases v) simp_all

lemma stack_nodes:
  "stack \<noteq> [] \<Longrightarrow> sum_list (map nodes stack) = Suc (sum_list (map nodes (butlast stack @ items (last stack))))"
  by (cases stack rule: rev_cases) (simp_all add: nodes_items)

text \<open>
  \<open>json_value::destroy\<close>: the addresses freed, in order, and the number of activations that are
  on the call stack at the same time. \<open>drain\<close> is the loop over the vector: the last item is
  taken, its items are appended, and its destructor runs on what is left of it. Binary values, which neither the
  parser nor the daemon makes, have no case here; the nulls that moved items leave in their vector or map own
  nothing, and their destruction is part of clearing it.
\<close>

function destroy :: "heap_value \<Rightarrow> nat list \<times> nat"
  and drain :: "heap_value list \<Rightarrow> nat list \<times> nat" where
  "destroy v = (case owned v of
      None \<Rightarrow> ([], 1)
    | Some a \<Rightarrow> (case drain (items v) of (freed, depth) \<Rightarrow> (freed @ [a], Suc depth)))"
| "drain stack =
    (if stack = [] then ([], 0)
     else (case destroy (cleared (last stack)) of (freed1, depth1) \<Rightarrow>
       (case drain (butlast stack @ items (last stack)) of (freed2, depth2) \<Rightarrow>
         (freed1 @ freed2, max depth1 depth2))))"
  by pat_completeness auto

termination
proof (relation "measure (\<lambda>x. case x of Inl v \<Rightarrow> 2 * nodes v | Inr s \<Rightarrow> 2 * sum_list (map nodes s) + 1)")
  show "(Inr (items v), Inl v) \<in> measure (\<lambda>x. case x of Inl v \<Rightarrow> 2 * nodes v | Inr s \<Rightarrow> 2 * sum_list (map nodes s) + 1)" for v
    by (simp add: nodes_items [of v])
  show "(Inl (cleared (last s)), Inr s) \<in> measure (\<lambda>x. case x of Inl v \<Rightarrow> 2 * nodes v | Inr s \<Rightarrow> 2 * sum_list (map nodes s) + 1)"
    if "s \<noteq> []" for s
    using stack_nodes [OF that] by (simp add: nodes_cleared)
  show "(Inr (butlast s @ items (last s)), Inr s) \<in> measure (\<lambda>x. case x of Inl v \<Rightarrow> 2 * nodes v | Inr s \<Rightarrow> 2 * sum_list (map nodes s) + 1)"
    if "s \<noteq> []" for s
    using stack_nodes [OF that] by simp
qed simp

declare destroy.simps [simp del] drain.simps [simp del]

text \<open>The addresses a value owns, in the order in which a recursive destructor would free them.\<close>

fun addresses :: "heap_value \<Rightarrow> nat list" where
  "addresses HPlain = []"
| "addresses (HString a) = [a]"
| "addresses (HArray a xs) = concat (map addresses xs) @ [a]"
| "addresses (HObject a kvs) = concat (map (\<lambda>kv. addresses (snd kv)) kvs) @ [a]"

lemma addresses_items: "addresses v = concat (map addresses (items v)) @ (case owned v of None \<Rightarrow> [] | Some a \<Rightarrow> [a])"
  by (cases v) (simp_all add: comp_def)

lemma items_cleared [simp]: "items (cleared v) = []" "owned (cleared v) = owned v"
  by (cases v; simp)+

lemma owned_None: "owned v = None \<Longrightarrow> items v = []"
  by (cases v) simp_all

lemma drain_Nil [simp]: "drain [] = ([], 0)"
  by (simp add: drain.simps)

lemma destroy_cleared: "destroy (cleared v) = (case owned v of None \<Rightarrow> [] | Some a \<Rightarrow> [a], 1)"
  by (simp add: destroy.simps split: option.split)

lemma drain_frees:
  "mset (fst (drain s)) = mset (concat (map addresses s)) \<and> snd (drain s) = (if s = [] then 0 else 1)"
proof (induction "sum_list (map nodes s)" arbitrary: s rule: less_induct)
  case less
  show ?case
  proof (cases s rule: rev_cases)
    case (snoc s' v)
    have "sum_list (map nodes (s' @ items v)) < sum_list (map nodes s)" using stack_nodes [of s] snoc by simp
    note IH = less [OF this]
    have "drain s = ((case owned v of None \<Rightarrow> [] | Some a \<Rightarrow> [a]) @ fst (drain (s' @ items v)), max 1 (snd (drain (s' @ items v))))"
      unfolding snoc by (simp add: drain.simps [of "s' @ [v]"] destroy_cleared case_prod_beta)
    moreover have "mset (addresses v) = mset (concat (map addresses (items v))) + mset (case owned v of None \<Rightarrow> [] | Some a \<Rightarrow> [a])"
      by (subst addresses_items) simp
    ultimately show ?thesis using IH snoc by simp
  qed simp
qed

text \<open>
  C22. Destroying a value is safe however deeply it nests: \<open>destroy\<close> ends, frees every object the value owns
  exactly once and nothing else (a destructor that recurses would free the same), and never has more than two
  activations on the call stack.
\<close>

theorem destroy_exact:
  "mset (fst (destroy v)) = mset (addresses v) \<and> (distinct (addresses v) \<longrightarrow> distinct (fst (destroy v))) \<and> snd (destroy v) \<le> 2"
proof -
  have "mset (fst (destroy v)) = mset (addresses v)"
    using drain_frees [of "items v"] owned_None [of v]
    by (subst addresses_items) (auto simp: destroy.simps [of v] case_prod_beta split: option.split)
  moreover have "snd (destroy v) \<le> 2"
    using drain_frees [of "items v"] by (simp add: destroy.simps [of v] case_prod_beta split: option.split)
  ultimately show ?thesis using mset_eq_imp_distinct_iff by blast
qed

theorem destroy_exact_witness:
  "mset (fst (destroy (HArray 1 [HString 2, HArray 3 [HString 4]]))) = {#1, 2, 3, 4#} \<and>
    distinct (fst (destroy (HArray 1 [HString 2, HArray 3 [HString 4]]))) \<and>
    snd (destroy (HArray 1 [HString 2, HArray 3 [HString 4]])) \<le> 2"
  using destroy_exact [of "HArray 1 [HString 2, HArray 3 [HString 4]]"] by (simp add: add_mset_commute)

section \<open>Serializing a value\<close>

text \<open>
  The activations of \<open>serializer::dump\<close> that are on the call stack at the same time: an empty array or
  object is written at once, the items of any other are written by a call each.
\<close>

fun dump_frames :: "json \<Rightarrow> nat" where
  "dump_frames (JArray xs) = Suc (foldr max (map dump_frames xs) 0)"
| "dump_frames (JObject ob) = Suc (foldr max (map (\<lambda>kv. dump_frames (snd kv)) ob) 0)"
| "dump_frames v = 1"

lemma foldr_max: "x \<in> set xs \<Longrightarrow> x \<le> foldr max xs (0 :: nat)"
  by (induction xs) auto

lemma dump_frames_item: "x \<in> set xs \<Longrightarrow> dump_frames x < dump_frames (JArray xs)"
  using foldr_max [of "dump_frames x" "map dump_frames xs"] by simp

text \<open>Nested arrays, and their text.\<close>

primrec nested :: "nat \<Rightarrow> json" where
  "nested 0 = JArray []"
| "nested (Suc n) = JArray [nested n]"

definition brackets :: "nat \<Rightarrow> string" where
  "brackets n = replicate (Suc n) (CHR ''['') @ replicate (Suc n) (CHR '']'')"

lemma dump_frames_nested: "dump_frames (nested n) = Suc n"
  by (induction n) simp_all

lemma scan_bracket:
  "scan ic (CHR ''['' # s) = (Begin_array, s)" "scan ic (CHR '']'' # s) = (End_array, s)"
  by (simp_all add: scan_def skip_whitespace_def skip_comments.simps scan_current_def json_ws_def)

lemma tokens_bracket:
  "tokens ic (CHR ''['' # s) = Begin_array # tokens ic s" "tokens ic (CHR '']'' # s) = End_array # tokens ic s"
  by (simp_all add: tokens.simps [of ic "_ # s"] scan_bracket)

lemma tokens_brackets:
  "tokens ic (replicate k (CHR ''['') @ s) = replicate k Begin_array @ tokens ic s"
  "tokens ic (replicate k (CHR '']'') @ s) = replicate k End_array @ tokens ic s"
  by (induction k) (simp_all add: tokens_bracket)

lemma nested_value: "is_value (replicate (Suc n) Begin_array @ replicate (Suc n) End_array) (nested n)"
proof (induction n)
  case 0
  then show ?case using v_array_empty by simp
next
  case (Suc n)
  have "is_value (Begin_array # (replicate (Suc n) Begin_array @ replicate (Suc n) End_array) @ [End_array]) (nested (Suc n))"
    using v_array [OF e_one [OF Suc]] by simp
  then show ?case by (simp add: replicate_append_same)
qed

lemma parse_brackets: "jl_parse (brackets n) = Some (nested n)"
proof -
  have "tokens False [] = [End_of_input]" by (simp add: tokens.simps scan_def skip_whitespace_def skip_comments.simps)
  then have "tokens False (brackets n) = (replicate (Suc n) Begin_array @ replicate (Suc n) End_array) @ [End_of_input]"
    using tokens_brackets(1) [of False "Suc n" "replicate (Suc n) (CHR '']'')"] tokens_brackets(2) [of False "Suc n" "[]"]
    by (simp add: brackets_def)
  moreover have "skip_bom (brackets n) = Some (brackets n)" by (simp add: brackets_def skip_bom_def)
  ultimately have "json_parse (brackets n) = Inr (nested n)"
    unfolding json_parse_def parse_grammar using nested_value by blast
  then show ?thesis by (simp add: jl_parse_def)
qed

section \<open>The audit log\<close>

text \<open>The value that a GetAudit request serializes.\<close>

definition audit_value :: "daemon \<Rightarrow> json" where
  "audit_value d = audit_json (concat (map (\<lambda>l. l @ [nl]) (getlines (d_audit d))))"

lemma handle_audit_value: "handle_audit e d body = with_state (jl_dump (e_json e) (audit_value d)) d"
  by (simp add: handle_audit_def make_audit_array_def audit_value_def)

lemma audit_value_line:
  assumes "d_audit d = s @ nl # l @ nl # t" "nl \<notin> set l" "l \<noteq> []" "jl_parse l = Some v"
  shows "dump_frames v < dump_frames (audit_value d)"
proof -
  have "getlines (d_audit d) = getlines (s @ [nl]) @ getlines (l @ nl # t)"
    unfolding assms(1) getlines_def by (rule getlines_aux_complete [of "[]", unfolded getlines_def])
  then have "l \<in> set (getlines (d_audit d))" using getlines_cons [OF assms(2)] by simp
  moreover have "getlines (concat (map (\<lambda>l. l @ [nl]) (getlines (d_audit d)))) = getlines (d_audit d)"
    using getlines_no_nl by (intro getlines_unlines) blast
  moreover have "audit_entry l = v" using assms(4) by (simp add: audit_entry_def)
  ultimately have "\<exists>xs. audit_value d = JArray xs \<and> v \<in> set xs"
    using assms(3) by (auto simp: audit_value_def audit_json_def)
  then show ?thesis using dump_frames_item by auto
qed

text \<open>
  C28. One request makes the audit response recurse as deep as the client likes: a permission query that names a module
  by a line of \<open>n + 1\<close> opening and as many closing brackets is answered and logged, in a request of
  \<open>2 * n\<close> bytes and a few more, and from then on the value that every GetAudit serializes needs at least
  \<open>n + 2\<close> activations of \<open>dump\<close> on the call stack, whatever requests come between. A frame may have 8 MiB.
\<close>

theorem audit_recursion:
  fixes n :: nat and p :: permission
  assumes "e_audit_writable e"
  defines "req \<equiv> 0x0B # bytes_of_str ((nl # brackets n @ [nl]) @ '':'' @ permission_name p)"
  shows "length req = 2 * n + 6 + length (permission_name p) \<and>
    (\<exists>r d1. handler e d req = Some (r, d1) \<and>
      (\<forall>reqs rs d2. run_requests d1 reqs = Some (rs, d2) \<longrightarrow>
         n + 2 \<le> dump_frames (audit_value d2) \<and>
         (\<forall>e' body. handle_audit e' d2 body = with_state (jl_dump (e_json e') (audit_value d2)) d2)))"
proof (intro conjI)
  show "length req = 2 * n + 6 + length (permission_name p)" by (simp add: req_def brackets_def bytes_of_str_def)
  let ?m = "nl # brackets n @ [nl]"
  have nb: "nl \<notin> set (brackets n)" "brackets n \<noteq> []" "CHR '':'' \<notin> set ?m" by (auto simp: brackets_def nl_def)
  have sp: "split_at_colon (?m @ CHR '':'' # permission_name p) = Some (?m, permission_name p)"
    using nb(3) by (rule split_at_colon_append)
  obtain r ok where h: "handler e d req = Some (r, audited e d ?m (permission_name p) ok)"
    using sp by (simp add: req_def handler_Cons dispatch_def handle_query_def Let_def)
  have "\<exists>s t. d_audit (audited e d ?m (permission_name p) ok) = s @ nl # brackets n @ nl # t"
    by (rule exI [of _ \<open>d_audit d @ ''{"time":"'' @ e_now_iso e @ ''","module":"''\<close>],
        rule exI [of _ \<open>''","action":"'' @ permission_name p @ ''","result":"'' @ (if ok then ''ALLOW'' else ''DENY'') @ ''"}'' @ [nl]\<close>])
      (simp add: assms(1) audited_def audit_log_def audit_line_def Let_def)
  then obtain s t where au: "d_audit (audited e d ?m (permission_name p) ok) = s @ nl # brackets n @ nl # t" by blast
  have "n + 2 \<le> dump_frames (audit_value d2)"
    if run: "run_requests (audited e d ?m (permission_name p) ok) reqs = Some (rs, d2)" for reqs rs d2
  proof -
    obtain x where "d_audit d2 = s @ nl # brackets n @ nl # t @ x" using run_requests_audit [OF run] au by auto
    from audit_value_line [OF this nb(1,2) parse_brackets] show ?thesis by (simp add: dump_frames_nested)
  qed
  then show "\<exists>r d1. handler e d req = Some (r, d1) \<and>
      (\<forall>reqs rs d2. run_requests d1 reqs = Some (rs, d2) \<longrightarrow> n + 2 \<le> dump_frames (audit_value d2) \<and>
         (\<forall>e' body. handle_audit e' d2 body = with_state (jl_dump (e_json e') (audit_value d2)) d2))"
    using h handle_audit_value by blast
qed

theorem audit_recursion_witness:
  "length (0x0B # bytes_of_str ((nl # brackets 4000000 @ [nl]) @ '':'' @ permission_name permission.MOUNT)) =
      2 * 4000000 + 6 + length (permission_name permission.MOUNT) \<and>
    (\<exists>r d1. handler toy_env (toy_daemon []) (0x0B # bytes_of_str ((nl # brackets 4000000 @ [nl]) @ '':'' @ permission_name permission.MOUNT)) =
        Some (r, d1) \<and> 4000000 + 2 \<le> dump_frames (audit_value d1))"
proof -
  have w: "e_audit_writable toy_env" by (simp add: toy_env_def)
  have "run_requests d1 [] = Some ([], d1)" for d1 by simp
  then show ?thesis
    using audit_recursion [OF w, of 4000000 permission.MOUNT "toy_daemon []"] by blast
qed

end
