(* ===== verification/ServerLife.thy ===== *)
theory ServerLife
  imports Service
begin

text \<open>
  The socket server in time (daemon/src/ipc/socket_server.cpp): how long a read may take under the timeout
  of ten seconds, and what the signal handlers do to a server that is accepting, serving or logging. The
  thread is a state machine whose steps interleave with signals, a handler being one step; the mutex of the
  log ring (daemon/src/logger/logger.cpp) is held in the state \<open>In_log\<close>.
\<close>

section \<open>The time a read takes\<close>

text \<open>
  An event with the milliseconds \<open>poll\<close> waits for it. After ten seconds \<open>poll\<close> gives up; data that a
  \<open>read\<close> leaves behind is there at once.
\<close>

type_synonym timed_ev = "nat \<times> read_ev"

definition poll_timeout :: nat where
  "poll_timeout = 10000"

definition seen :: "timed_ev \<Rightarrow> read_ev" where
  "seen we = (if fst we \<ge> poll_timeout then Timeout else snd we)"

fun read_timed :: "nat \<Rightarrow> byte list \<Rightarrow> timed_ev list \<Rightarrow> (byte list \<times> timed_ev list) option \<times> nat" where
  "read_timed n got [] = (if n \<le> length got then (Some (got, []), 0) else (None, poll_timeout))"
| "read_timed n got ((w, e) # es) =
    (if n \<le> length got then (Some (got, (w, e) # es), 0)
     else if w \<ge> poll_timeout then (None, poll_timeout)
     else (case e of
         Timeout \<Rightarrow> (None, poll_timeout)
       | PollErr \<Rightarrow> (None, w)
       | ReadErr \<Rightarrow> (None, w)
       | PollIntr \<Rightarrow> (case read_timed n got es of (r, t) \<Rightarrow> (r, w + t))
       | ReadIntr \<Rightarrow> (case read_timed n got es of (r, t) \<Rightarrow> (r, w + t))
       | Data bs \<Rightarrow>
           if bs = [] then (None, w)
           else if length bs \<le> n - length got then (case read_timed n (got @ bs) es of (r, t) \<Rightarrow> (r, w + t))
           else (Some (got @ take (n - length got) bs, (0, Data (drop (n - length got) bs)) # es), w)))"

text \<open>The reads of one request in \<open>handle_client\<close>.\<close>

definition frame_timed :: "timed_ev list \<Rightarrow> (byte list \<times> timed_ev list) option \<times> nat" where
  "frame_timed evs = (case read_timed 4 [] evs of
      (None, t) \<Rightarrow> (None, t)
    | (Some (net_len, evs1), t) \<Rightarrow>
        (let len = ntohl_bytes net_len
         in if len = 0 \<or> unat len > max_frame then (None, t)
            else (case read_timed (unat len) [] evs1 of (r, t') \<Rightarrow> (r, t + t'))))"

text \<open>Without the times this is the read loop.\<close>

lemma read_timed_exact:
  "map_option (\<lambda>(bs, es). (bs, map seen es)) (fst (read_timed n got evs)) = read_exact n got (map seen evs)"
proof (induction n got evs rule: read_timed.induct)
  case (1 n got)
  then show ?case by (simp add: read_exact.simps)
next
  case (2 n got w e es)
  show ?case
  proof (cases "n \<le> length got \<or> w \<ge> poll_timeout")
    case True
    then show ?thesis by (auto simp: read_exact.simps [of n got "_ # _"] seen_def)
  next
    case False
    then show ?thesis
      using 2 by (cases e) (simp_all add: read_exact.simps [of n got "_ # _"] seen_def [of "(w, _)"] case_prod_beta,
          auto simp: seen_def poll_timeout_def)
  qed
qed

text \<open>Every poll that does not end the read brings at least a byte, unless a signal interrupts it.\<close>

definition uninterrupted :: "timed_ev list \<Rightarrow> bool" where
  "uninterrupted evs \<longleftrightarrow> list_all (\<lambda>(w, e). e \<noteq> PollIntr \<and> e \<noteq> ReadIntr) evs"

lemma read_timed_bound:
  "uninterrupted evs \<Longrightarrow> snd (read_timed n got evs) \<le> poll_timeout * (n - length got)"
proof (induction n got evs rule: read_timed.induct)
  case (2 n got w e es)
  show ?case
  proof (cases "n \<le> length got \<or> w \<ge> poll_timeout")
    case False
    then have "1 \<le> n - length got" by linarith
    then have one: "poll_timeout \<le> poll_timeout * (n - length got)" by simp
    show ?thesis
    proof (cases "\<exists>bs. e = Data bs \<and> bs \<noteq> [] \<and> length bs \<le> n - length got")
      case True
      then obtain bs where bs: "e = Data bs" "bs \<noteq> []" "length bs \<le> n - length got" by blast
      have "snd (read_timed n (got @ bs) es) \<le> poll_timeout * (n - length (got @ bs))"
        by (rule 2(3) [OF _ _ bs(1,2,3)]) (use False 2(4) in \<open>auto simp: uninterrupted_def\<close>)
      moreover have "poll_timeout * (n - length (got @ bs)) + poll_timeout \<le> poll_timeout * (n - length got)"
        using bs(2,3) False by (cases bs) (simp_all add: poll_timeout_def)
      ultimately show ?thesis using bs False by (simp add: case_prod_beta)
    next
      case other: False
      have "w \<le> poll_timeout * (n - length got)" using one False by linarith
      then show ?thesis using one other False 2(4) by (cases e) (auto simp: uninterrupted_def)
    qed
  qed auto
qed (simp, linarith)

lemma read_timed_rest: "fst (read_timed n got evs) = Some (bs, es) \<Longrightarrow> uninterrupted evs \<Longrightarrow> uninterrupted es"
  by (induction n got evs rule: read_timed.induct)
    (auto simp: uninterrupted_def case_prod_beta split: if_splits read_ev.splits)

lemma read_timed_drip:
  "w < poll_timeout \<Longrightarrow> read_timed (length got + length bs) got (map (\<lambda>b. (w, Data [b])) bs @ es) = (Some (got @ bs, es), w * length bs)"
proof (induction bs arbitrary: got)
  case Nil
  then show ?case by (cases es) auto
next
  case (Cons b bs)
  then show ?case using Cons.IH [of "got @ [b]"] by simp
qed

lemma frame_timed_bound: "uninterrupted evs \<Longrightarrow> snd (frame_timed evs) \<le> poll_timeout * (4 + max_frame)"
proof -
  assume u: "uninterrupted evs"
  obtain r t where r: "read_timed 4 [] evs = (r, t)" by (cases "read_timed 4 [] evs")
  then have t: "t \<le> poll_timeout * 4" using read_timed_bound [OF u, of 4 "[]"] by simp
  show "snd (frame_timed evs) \<le> poll_timeout * (4 + max_frame)"
  proof (cases "\<exists>n4 es. r = Some (n4, es) \<and> unat (ntohl_bytes n4) \<le> max_frame")
    case True
    then obtain n4 es where n4: "r = Some (n4, es)" "unat (ntohl_bytes n4) \<le> max_frame" by blast
    have "uninterrupted es" using read_timed_rest [of 4 "[]" evs n4 es] r n4 u by simp
    then have "snd (read_timed (unat (ntohl_bytes n4)) [] es) \<le> poll_timeout * unat (ntohl_bytes n4)"
      using read_timed_bound [of es "unat (ntohl_bytes n4)" "[]"] by simp
    also have "\<dots> \<le> poll_timeout * max_frame" using n4(2) by simp
    finally show ?thesis using t r n4 by (simp add: frame_timed_def Let_def case_prod_beta add_mult_distrib2)
  qed (use r t in \<open>auto simp: frame_timed_def Let_def add_mult_distrib2 split: option.splits\<close>)
qed

lemma frame_timed_drip:
  assumes "w < poll_timeout" "legal_request p"
  shows "frame_timed (map (\<lambda>b. (w, Data [b])) (encode_frame p) @ es) = (Some (p, es), w * (4 + length p))"
proof -
  have len: "unat (of_nat (length p) :: u32) = length p" "of_nat (length p) \<noteq> (0::u32)" "length p \<le> max_frame"
    using unat_frame_length [of p] assms(2) by (auto simp: legal_request_def)
  let ?h = "be32 (of_nat (length p))"
  have "read_timed 4 [] (map (\<lambda>b. (w, Data [b])) ?h @ map (\<lambda>b. (w, Data [b])) p @ es) = (Some (?h, map (\<lambda>b. (w, Data [b])) p @ es), w * 4)"
    using read_timed_drip [OF assms(1), of "[]" ?h] by simp
  moreover have "read_timed (length p) [] (map (\<lambda>b. (w, Data [b])) p @ es) = (Some (p, es), w * length p)"
    using read_timed_drip [OF assms(1), of "[]" p] by simp
  ultimately show "frame_timed (map (\<lambda>b. (w, Data [b])) (encode_frame p) @ es) = (Some (p, es), w * (4 + length p))"
    using len by (simp add: frame_timed_def encode_frame_def Let_def algebra_simps)
qed

text \<open>
  \<open>handle_client\<close> and the loop of \<open>run\<close> with the time that the reads of a client take; the server does nothing else
  meanwhile. \<open>accept_timed\<close> are the times at which connections that are all waiting are accepted, in their order.
\<close>

fun client_timed :: "('s \<Rightarrow> byte list \<Rightarrow> byte list \<times> 's) option \<Rightarrow> bool list \<Rightarrow> timed_ev list \<Rightarrow> write_ev list \<Rightarrow> 's \<Rightarrow> 's \<times> nat" where
  "client_timed h [] evs ws st = (st, 0)"
| "client_timed h (run # runs) evs ws st =
    (if \<not> run then (st, 0)
     else (case frame_timed evs of
         (None, t) \<Rightarrow> (st, t)
       | (Some (payload, evs2), t) \<Rightarrow>
           (let (response, st1) = (case h of None \<Rightarrow> ([], st) | Some f \<Rightarrow> f st payload);
                (go, out, ws1) = send_response response ws
            in if \<not> go then (st1, t)
               else (let (st2, t2) = client_timed h runs evs2 ws1 st1 in (st2, t + t2)))))"

record timed_conn =
  t_running :: "bool list"
  t_reads :: "timed_ev list"
  t_writes :: "write_ev list"

fun accept_timed :: "('s \<Rightarrow> byte list \<Rightarrow> byte list \<times> 's) option \<Rightarrow> (u32 option \<times> timed_conn) list \<Rightarrow> nat \<Rightarrow> 's \<Rightarrow> nat list" where
  "accept_timed h [] now st = []"
| "accept_timed h ((cred, c) # cs) now st = now #
    (if \<not> authenticate_peer cred then accept_timed h cs now st
     else (case client_timed h (t_running c) (t_reads c) (t_writes c) st of
         (st1, t) \<Rightarrow> accept_timed h cs (now + t) st1))"

text \<open>Without the times this is \<open>handle_client\<close>.\<close>

lemma frame_timed_reads:
  "map_option (\<lambda>(p, es). (p, map seen es)) (fst (frame_timed evs)) =
    (case read_exact 4 [] (map seen evs) of
       None \<Rightarrow> None
     | Some (net_len, rs1) \<Rightarrow>
         (let len = ntohl_bytes net_len
          in if len = 0 \<or> unat len > max_frame then None else read_exact (unat len) [] rs1))"
proof -
  obtain r t where r: "read_timed 4 [] evs = (r, t)" by (cases "read_timed 4 [] evs")
  show ?thesis
    using read_timed_exact [of 4 "[]" evs] r
    by (cases r) (auto simp: frame_timed_def Let_def read_timed_exact [symmetric] case_prod_beta split: option.splits)
qed

lemma client_timed_state: "fst (client_timed h runs evs ws st) = fst (handle_client h runs (map seen evs) ws st)"
proof (induction runs arbitrary: evs ws st)
  case (Cons run runs)
  obtain r t where r: "frame_timed evs = (r, t)" by (cases "frame_timed evs")
  show ?case
    using frame_timed_reads [of evs] r Cons.IH
    by (cases r) (auto simp: Let_def case_prod_beta split: option.splits if_splits)
qed simp

lemma accept_timed_later: "t \<in> set (accept_timed h cs now st) \<Longrightarrow> now \<le> t"
proof (induction h cs now st rule: accept_timed.induct)
  case (2 h cred c cs now st)
  show ?case
  proof (cases "t = now")
    case False
    then show ?thesis using 2 by (auto split: if_splits prod.splits) (meson le_add1 order_trans)
  qed simp
qed simp

text \<open>
  C13. The timeout is for each poll, not for a request: as long as no signal interrupts it the server never spends
  more than ten seconds for each of the \<open>4 + 8 MiB\<close> bytes that a frame can have, and a client that sends one byte
  every \<open>w\<close> milliseconds, for any \<open>w\<close> below the timeout, really keeps it for \<open>w\<close> times the length of its
  frame: the connections that wait behind an authenticated client of this kind are accepted only after that time.
\<close>

theorem slow_sender:
  assumes "w < poll_timeout" "legal_request p" "authenticate_peer cred"
    and "t_running c = True # runs" "t_reads c = map (\<lambda>b. (w, Data [b])) (encode_frame p) @ es"
  shows "(uninterrupted evs \<longrightarrow> snd (frame_timed evs) \<le> poll_timeout * (4 + max_frame)) \<and>
    frame_timed (t_reads c) = (Some (p, es), w * (4 + length p)) \<and>
    (\<forall>t\<in>set (tl (accept_timed h ((cred, c) # cs) now st)). now + w * (4 + length p) \<le> t)"
proof -
  have f: "frame_timed (t_reads c) = (Some (p, es), w * (4 + length p))" using frame_timed_drip assms by simp
  then have "w * (4 + length p) \<le> snd (client_timed h (t_running c) (t_reads c) (t_writes c) st)"
    by (simp add: assms(4) Let_def case_prod_beta)
  then have "now + w * (4 + length p) \<le> t" if "t \<in> set (tl (accept_timed h ((cred, c) # cs) now st))" for t
    using that accept_timed_later [of t] assms(3) by (force simp: case_prod_beta)
  then show ?thesis using f frame_timed_bound by blast
qed

text \<open>A client that takes a second for each byte of a frame of a hundred bytes, and one that waits behind it.\<close>

definition slow_conn :: timed_conn where
  "slow_conn = \<lparr>t_running = [True], t_reads = map (\<lambda>b. (1000, Data [b])) (encode_frame (replicate 100 7)) @ [], t_writes = []\<rparr>"

theorem slow_sender_witness:
  "snd (frame_timed [(5, Data [0]), (9999, Data [0, 0])]) \<le> poll_timeout * (4 + max_frame) \<and>
    frame_timed (t_reads slow_conn) = (Some (replicate 100 7, []), 1000 * (4 + length (replicate 100 (7 :: byte)))) \<and>
    0 + 1000 * (4 + length (replicate 100 (7 :: byte))) \<le> hd (tl (accept_timed None [(Some 1000, slow_conn), (Some 0, slow_conn)] 0 ()))"
proof -
  let ?evs = "[(5, Data [0]), (9999, Data [0, 0])]"
  have "(uninterrupted ?evs \<longrightarrow> snd (frame_timed ?evs) \<le> poll_timeout * (4 + max_frame)) \<and>
    frame_timed (t_reads slow_conn) = (Some (replicate 100 7, []), 1000 * (4 + length (replicate 100 (7 :: byte)))) \<and>
    (\<forall>t\<in>set (tl (accept_timed None [(Some 1000, slow_conn), (Some 0, slow_conn)] 0 ())).
       0 + 1000 * (4 + length (replicate 100 (7 :: byte))) \<le> t)"
    by (rule slow_sender [where runs = "[]"])
      (simp_all add: poll_timeout_def legal_request_def max_frame_def authenticate_peer_def is_allowed_uid_def slow_conn_def)
  moreover have "uninterrupted ?evs" by (simp add: uninterrupted_def)
  moreover have "tl (accept_timed None [(Some 1000, slow_conn), (Some 0, slow_conn)] 0 ()) \<noteq> []"
    by (simp add: authenticate_peer_def is_allowed_uid_def case_prod_beta)
  ultimately show ?thesis using hd_in_set by blast
qed

section \<open>Signals\<close>

datatype signum = SIGTERM | SIGINT | SIGPIPE

datatype disposition = SIG_DFL | SIG_IGN | Signal_trampoline

text \<open>
  The server, whether the static pointer of the file refers to it, the dispositions of the signals, and whether
  the socket's path exists.
\<close>

record server_process =
  pr_server :: server
  g_server_for_signal :: bool
  disposition_of :: "signum \<Rightarrow> disposition"
  socket_file :: bool

definition install_signal_handlers :: "server_process \<Rightarrow> server_process" where
  "install_signal_handlers p = p\<lparr>g_server_for_signal := True,
     disposition_of := (disposition_of p)(SIGTERM := Signal_trampoline, SIGINT := Signal_trampoline, SIGPIPE := SIG_IGN)\<rparr>"

text \<open>
  The socket's path after \<open>start\<close>: it is removed once the directory is ready, and \<open>bind\<close> creates it anew. A
  \<open>listen\<close> that fails leaves it behind. The handlers are installed when everything worked.
\<close>

definition path_after_start :: "start_sys \<Rightarrow> string \<Rightarrow> bool \<Rightarrow> bool" where
  "path_after_start sys path before \<longleftrightarrow>
    (if \<not> parent_ready sys path then before
     else 0 \<le> new_socket sys \<and> length path < sun_path_size \<and> bind_ok sys)"

definition process_start :: "start_sys \<Rightarrow> server_process \<Rightarrow> bool \<times> server_process" where
  "process_start sys p = (case server_start sys (pr_server p) of
      (ok, s) \<Rightarrow>
        (let p1 = p\<lparr>pr_server := s, socket_file := path_after_start sys (socket_path (pr_server p)) (socket_file p)\<rparr>
         in (ok, if ok then install_signal_handlers p1 else p1)))"

text \<open>\<open>stop\<close> up to its log message: the flag tells whether it gets there.\<close>

definition process_stop :: "server_process \<Rightarrow> bool \<times> server_process" where
  "process_stop p = (case server_stop (pr_server p) of
      (stopped, s) \<Rightarrow> (stopped, p\<lparr>pr_server := s, socket_file := (if stopped then False else socket_file p)\<rparr>))"

text \<open>\<open>~SocketServer\<close>\<close>

definition process_destroy :: "server_process \<Rightarrow> server_process" where
  "process_destroy p = (snd (process_stop p))\<lparr>g_server_for_signal := False\<rparr>"

text \<open>
  \<open>signal_trampoline\<close> in a thread that holds the mutex of the log ring or not: the message of \<open>stop\<close> needs that
  mutex, and a thread that holds it waits for itself (the flag of the result).
\<close>

definition signal_trampoline :: "bool \<Rightarrow> signum \<Rightarrow> server_process \<Rightarrow> bool \<times> server_process" where
  "signal_trampoline ring_locked sig p =
    (case (if g_server_for_signal p then process_stop p else (False, p)) of
       (logs, p1) \<Rightarrow>
         if logs \<and> ring_locked then (True, p1)
         else (False, p1\<lparr>disposition_of := (disposition_of p1)(sig := SIG_DFL)\<rparr>))"

section \<open>The thread of the server\<close>

text \<open>
  Where the thread is: at the test of \<open>running_\<close>, in \<open>accept\<close>, in \<open>handle_client\<close>, in a log call that holds
  the mutex (and where it goes on then), out of the loop, killed, or waiting for its own mutex.
\<close>

datatype pc = At_check | In_accept | In_client | In_log pc | Out | Killed | Hung

inductive step :: "server_process \<times> pc \<Rightarrow> server_process \<times> pc \<Rightarrow> bool" where
  go_on: "running (pr_server p) \<Longrightarrow> step (p, At_check) (p, In_accept)"
| leave: "\<not> running (pr_server p) \<Longrightarrow> step (p, At_check) (p, Out)"
| accepted: "listen_fd (pr_server p) \<ge> 0 \<Longrightarrow> step (p, In_accept) (p, In_log In_client)"
| refused: "listen_fd (pr_server p) \<ge> 0 \<Longrightarrow> step (p, In_accept) (p, In_log At_check)"
| accept_failed: "running (pr_server p) \<Longrightarrow> step (p, In_accept) (p, In_log At_check)"
| accept_broken: "\<not> running (pr_server p) \<Longrightarrow> step (p, In_accept) (p, Out)"
| client_reads: "step (p, In_client) (p, In_client)"
| client_logs: "step (p, In_client) (p, In_log In_client)"
| client_done: "step (p, In_client) (p, At_check)"
| logged: "step (p, In_log q) (p, q)"
| killed: "pc \<notin> {Out, Killed, Hung} \<Longrightarrow> disposition_of p sig = SIG_DFL \<Longrightarrow> step (p, pc) (p, Killed)"
| ignored: "pc \<notin> {Out, Killed, Hung} \<Longrightarrow> disposition_of p sig = SIG_IGN \<Longrightarrow> step (p, pc) (p, pc)"
| interrupted: "disposition_of p sig = Signal_trampoline \<Longrightarrow> signal_trampoline False sig p = (False, p') \<Longrightarrow>
    step (p, In_accept) (p', At_check)"
| handled: "pc \<in> {At_check, In_accept, In_client} \<Longrightarrow> disposition_of p sig = Signal_trampoline \<Longrightarrow>
    signal_trampoline False sig p = (False, p') \<Longrightarrow> step (p, pc) (p', pc)"
| handled_in_log: "disposition_of p sig = Signal_trampoline \<Longrightarrow> signal_trampoline True sig p = (False, p') \<Longrightarrow>
    step (p, In_log q) (p', In_log q)"
| hung: "disposition_of p sig = Signal_trampoline \<Longrightarrow> signal_trampoline True sig p = (True, p') \<Longrightarrow>
    step (p, In_log q) (p', Hung)"

inductive_cases hung_step: "step (p, Hung) s"
inductive_cases out_step: "step (p, Out) s"
inductive_cases killed_step: "step (p, Killed) s"

lemma terminal: "pc \<in> {Out, Killed, Hung} \<Longrightarrow> \<not> step (p, pc) s"
  by (blast elim: hung_step out_step killed_step)

section \<open>Shutting down\<close>

text \<open>Whether the thread serves a client, now or after the log call it is in.\<close>

fun serving :: "pc \<Rightarrow> bool" where
  "serving In_client = True"
| "serving (In_log q) = serving q"
| "serving _ = False"

text \<open>A socket is listened to, and its path exists, only while the server runs.\<close>

definition consistent :: "server_process \<Rightarrow> bool" where
  "consistent p \<longleftrightarrow> running (pr_server p) \<or> listen_fd (pr_server p) < 0 \<and> \<not> socket_file p"

lemma trampoline_effect:
  assumes "signal_trampoline l sig p = (h, p')"
  shows "running (pr_server p') \<longrightarrow> running (pr_server p)" "consistent p \<Longrightarrow> consistent p'"
    "\<not> h \<Longrightarrow> disposition_of p' sig = SIG_DFL" "g_server_for_signal p \<Longrightarrow> \<not> running (pr_server p')"
  using assms
  by (auto simp: signal_trampoline_def process_stop_def server_stop_def consistent_def split: if_splits)

lemma step_consistent: "step s s' \<Longrightarrow> consistent (fst s) \<Longrightarrow> consistent (fst s')"
  by (induction rule: step.induct) (auto dest: trampoline_effect(2))

lemma step_stopped: "step s s' \<Longrightarrow> \<not> running (pr_server (fst s)) \<Longrightarrow> \<not> running (pr_server (fst s'))"
  by (induction rule: step.induct) (auto dest: trampoline_effect(1))

lemma step_serving:
  "step s s' \<Longrightarrow> consistent (fst s) \<Longrightarrow> \<not> running (pr_server (fst s)) \<Longrightarrow> \<not> serving (snd s) \<Longrightarrow> \<not> serving (snd s')"
  by (induction rule: step.induct) (auto simp: consistent_def)

lemma steps_consistent: "step\<^sup>*\<^sup>* s s' \<Longrightarrow> consistent (fst s) \<Longrightarrow> consistent (fst s')"
  by (induction rule: rtranclp_induct) (auto dest: step_consistent)

lemma steps_serving:
  "step\<^sup>*\<^sup>* s s' \<Longrightarrow> consistent (fst s) \<Longrightarrow> \<not> running (pr_server (fst s)) \<Longrightarrow> \<not> serving (snd s) \<Longrightarrow>
     consistent (fst s') \<and> \<not> running (pr_server (fst s')) \<and> \<not> serving (snd s')"
  by (induction rule: rtranclp_induct) (auto dest: step_consistent step_stopped step_serving)

lemma started:
  "process_start sys p = (True, p0) \<Longrightarrow> consistent p0 \<and> running (pr_server p0) \<and> listen_fd (pr_server p0) \<ge> 0 \<and>
     g_server_for_signal p0 \<and> disposition_of p0 SIGTERM = Signal_trampoline"
  by (auto simp: process_start_def server_start_def install_signal_handlers_def consistent_def Let_def split: if_splits)

text \<open>A thread that was neither killed nor hung can always reach the end of the loop once the server has stopped.\<close>

fun orderly :: "pc \<Rightarrow> bool" where
  "orderly (In_log q) = orderly q"
| "orderly Killed = False"
| "orderly Hung = False"
| "orderly _ = True"

lemma steps_orderly: "step\<^sup>*\<^sup>* s s' \<Longrightarrow> orderly (snd s) \<Longrightarrow> orderly (snd s') \<or> snd s' \<in> {Killed, Hung}"
proof (induction rule: rtranclp_induct)
  case (step s1 s2)
  have "step t t' \<Longrightarrow> orderly (snd t) \<or> snd t \<in> {Killed, Hung} \<Longrightarrow> orderly (snd t') \<or> snd t' \<in> {Killed, Hung}" for t t'
    by (induction rule: step.induct) auto
  then show ?case using step by blast
qed simp

lemma orderly_leaves: "\<not> running (pr_server p) \<Longrightarrow> orderly pc \<Longrightarrow> step\<^sup>*\<^sup>* (p, pc) (p, Out)"
proof (induction pc)
  case In_client
  then have "step\<^sup>*\<^sup>* (p, At_check) (p, Out)" by (blast intro: leave)
  then show ?case using client_done by (meson converse_rtranclp_into_rtranclp)
qed (auto intro: leave accept_broken logged converse_rtranclp_into_rtranclp)

text \<open>
  C14. Shutting down: whatever a server that was started does, and whenever signals come, once it has stopped running
  its socket is closed and its path removed, no client is served that is not being served already, and the thread can
  reach the end of the accept loop unless it was killed or hangs.
\<close>

theorem shutdown:
  assumes "process_start sys p_init = (True, p0)" "step\<^sup>*\<^sup>* (p0, At_check) (p, pc)" "\<not> running (pr_server p)"
  shows "listen_fd (pr_server p) < 0 \<and> \<not> socket_file p \<and>
    (\<not> serving pc \<longrightarrow> (\<forall>p' pc'. step\<^sup>*\<^sup>* (p, pc) (p', pc') \<longrightarrow> \<not> serving pc')) \<and>
    (step\<^sup>*\<^sup>* (p, pc) (p, Out) \<or> pc = Killed \<or> pc = Hung)"
proof -
  have c: "consistent p" using steps_consistent [OF assms(2)] started [OF assms(1)] by simp
  have "\<not> serving pc'" if "\<not> serving pc" "step\<^sup>*\<^sup>* (p, pc) (p', pc')" for p' pc'
    using steps_serving [OF that(2)] c assms(3) that(1) by simp
  moreover have "orderly pc \<or> pc \<in> {Killed, Hung}" using steps_orderly [OF assms(2)] by simp
  ultimately show ?thesis using c assms(3) orderly_leaves by (auto simp: consistent_def)
qed

text \<open>
  The handler calls \<open>stop\<close>, which logs. A started server that accepts a client logs this under the mutex of the log
  ring; a SIGTERM at that moment closes the socket and then waits for the mutex of the very thread it
  interrupted: the process does not end, and nothing but SIGKILL ends it.
\<close>

theorem signal_hang:
  assumes "process_start sys p_init = (True, p0)"
  shows "\<exists>p. step\<^sup>*\<^sup>* (p0, At_check) (p, Hung) \<and> \<not> running (pr_server p) \<and> (\<forall>s. \<not> step (p, Hung) s)"
proof -
  note st = started [OF assms]
  obtain h p where t: "signal_trampoline True SIGTERM p0 = (h, p)" by (cases "signal_trampoline True SIGTERM p0")
  then have h: "h" using st by (auto simp: signal_trampoline_def process_stop_def server_stop_def split: if_splits)
  have "step (p0, At_check) (p0, In_accept)" "step (p0, In_accept) (p0, In_log In_client)" "step (p0, In_log In_client) (p, Hung)"
    using st t h by (auto intro: go_on accepted hung)
  then have "step\<^sup>*\<^sup>* (p0, At_check) (p, Hung)" by (meson converse_rtranclp_into_rtranclp rtranclp.rtrancl_refl)
  moreover have "\<not> running (pr_server p)" using trampoline_effect(4) [OF t] st by simp
  ultimately show ?thesis using terminal by blast
qed

text \<open>After a signal was handled, a second one of the same kind kills the process.\<close>

lemma second_signal_kills:
  "signal_trampoline l sig p = (False, p') \<Longrightarrow> pc \<notin> {Out, Killed, Hung} \<Longrightarrow> step (p', pc) (p', Killed)"
  using trampoline_effect(3) killed by blast

text \<open>A started server and the SIGTERM that finds it in \<open>accept\<close>.\<close>

definition new_process :: server_process where
  "new_process = \<lparr>pr_server = \<lparr>socket_path = ''/s'', listen_fd = -1, running = False\<rparr>, g_server_for_signal = False,
     disposition_of = (\<lambda>_. SIG_DFL), socket_file = False\<rparr>"

definition good_sys :: start_sys where
  "good_sys = \<lparr>parent_exists = True, parent_created = None, new_socket = 3, bind_ok = True, listen_ok = True\<rparr>"

definition terminated :: server_process where
  "terminated = snd (signal_trampoline False SIGTERM (snd (process_start good_sys new_process)))"

theorem shutdown_witness:
  "listen_fd (pr_server terminated) < 0 \<and> \<not> socket_file terminated \<and>
    \<not> (\<exists>p' pc'. step\<^sup>*\<^sup>* (terminated, At_check) (p', pc') \<and> serving pc') \<and>
    step\<^sup>*\<^sup>* (terminated, At_check) (terminated, Out)"
proof -
  let ?p = "snd (process_start good_sys new_process)"
  have ok: "process_start good_sys new_process = (True, ?p)"
    by (simp add: process_start_def server_start_def Let_def good_sys_def new_process_def parent_ready_def sun_path_size_def)
  have "signal_trampoline False SIGTERM ?p = (False, terminated)"
    by (simp add: terminated_def signal_trampoline_def process_stop_def server_stop_def split: if_splits prod.split)
  then have t: "step (?p, In_accept) (terminated, At_check)" "\<not> running (pr_server terminated)"
    using started [OF ok] interrupted trampoline_effect(4) by blast+
  have "step (?p, At_check) (?p, In_accept)" using started [OF ok] by (simp add: go_on)
  then have "step\<^sup>*\<^sup>* (?p, At_check) (terminated, At_check)"
    using t(1) by (meson converse_rtranclp_into_rtranclp rtranclp.rtrancl_refl)
  from shutdown [OF ok this t(2)] show ?thesis by auto
qed

end
