(* ===== verification/Zygisk.thy ===== *)
theory Zygisk
  imports SpoofModule
begin

text \<open>
  The module interface of Zygisk as the spoof module uses it (module-spoof/jni/include/zygisk.hpp):
  the table of functions the framework passes in, the calls of \<open>Api\<close> that tolerate entries
  that are missing, and the registration in \<open>entry_impl\<close>; and with it the life of the module in an
  application process. The framework's functions are parameters on a state \<open>'w\<close> of its own.
\<close>

datatype zygisk_option = FORCE_DENYLIST_UNMOUNT | DLCLOSE_MODULE_LIBRARY

text \<open>The api_table; an entry that is a null pointer is None. \<open>registerModule\<close> is called without a test.\<close>

record 'w api_table =
  registerModule :: "'w \<Rightarrow> bool \<times> 'w"
  hookJniNativeMethods :: "(string \<Rightarrow> string list \<Rightarrow> 'w \<Rightarrow> 'w) option"
  pltHookRegister :: "(nat \<Rightarrow> nat \<Rightarrow> string \<Rightarrow> 'w \<Rightarrow> 'w) option"
  exemptFd :: "(int \<Rightarrow> 'w \<Rightarrow> bool \<times> 'w) option"
  pltHookCommit :: "('w \<Rightarrow> bool \<times> 'w) option"
  connectCompanion :: "('w \<Rightarrow> int \<times> 'w) option"
  setOption :: "(zygisk_option \<Rightarrow> 'w \<Rightarrow> 'w) option"
  getModuleDir :: "('w \<Rightarrow> int \<times> 'w) option"
  getFlags :: "('w \<Rightarrow> u32 \<times> 'w) option"

definition api_connectCompanion :: "'w api_table \<Rightarrow> 'w \<Rightarrow> int \<times> 'w" where
  "api_connectCompanion tbl w = (case connectCompanion tbl of Some f \<Rightarrow> f w | None \<Rightarrow> (-1, w))"

definition api_getModuleDir :: "'w api_table \<Rightarrow> 'w \<Rightarrow> int \<times> 'w" where
  "api_getModuleDir tbl w = (case getModuleDir tbl of Some f \<Rightarrow> f w | None \<Rightarrow> (-1, w))"

definition api_setOption :: "'w api_table \<Rightarrow> zygisk_option \<Rightarrow> 'w \<Rightarrow> 'w" where
  "api_setOption tbl opt w = (case setOption tbl of Some f \<Rightarrow> f opt w | None \<Rightarrow> w)"

definition api_getFlags :: "'w api_table \<Rightarrow> 'w \<Rightarrow> u32 \<times> 'w" where
  "api_getFlags tbl w = (case getFlags tbl of Some f \<Rightarrow> f w | None \<Rightarrow> (0, w))"

definition api_exemptFd :: "'w api_table \<Rightarrow> int \<Rightarrow> 'w \<Rightarrow> bool \<times> 'w" where
  "api_exemptFd tbl fd w = (case exemptFd tbl of Some f \<Rightarrow> f fd w | None \<Rightarrow> (False, w))"

definition api_hookJniNativeMethods :: "'w api_table \<Rightarrow> string \<Rightarrow> string list \<Rightarrow> 'w \<Rightarrow> 'w" where
  "api_hookJniNativeMethods tbl cls methods w = (case hookJniNativeMethods tbl of Some f \<Rightarrow> f cls methods w | None \<Rightarrow> w)"

definition api_pltHookRegister :: "'w api_table \<Rightarrow> nat \<Rightarrow> nat \<Rightarrow> string \<Rightarrow> 'w \<Rightarrow> 'w" where
  "api_pltHookRegister tbl dev inode symbol w = (case pltHookRegister tbl of Some f \<Rightarrow> f dev inode symbol w | None \<Rightarrow> w)"

definition api_pltHookCommit :: "'w api_table \<Rightarrow> 'w \<Rightarrow> bool \<times> 'w" where
  "api_pltHookCommit tbl w = (case pltHookCommit tbl of Some f \<Rightarrow> f w | None \<Rightarrow> (False, w))"

text \<open>
  \<open>entry_impl\<close>: the module is told to load (its members \<open>api_\<close> and \<open>env_\<close> are set) only when the framework
  accepts its registration.
\<close>

definition zygisk_module_entry :: "'w api_table \<Rightarrow> 'w \<Rightarrow> bool \<times> 'w" where
  "zygisk_module_entry tbl w = (case registerModule tbl w of (ok, w1) \<Rightarrow> if \<not> ok then (False, w1) else (True, w1))"

text \<open>
  An application process from the module's point of view: the entry point, and for a registered module the call
  of \<open>preAppSpecialize\<close>, whose request to be unloaded goes through \<open>setOption\<close>. \<open>specialize\<close> is the module's own
  \<open>preAppSpecialize\<close>.
\<close>

definition app_process :: "'w api_table \<Rightarrow> (spoof_process \<Rightarrow> spoof_process) \<Rightarrow> 'w \<Rightarrow> 'w \<times> spoof_process" where
  "app_process tbl specialize w = (case zygisk_module_entry tbl w of
      (loaded, w1) \<Rightarrow>
        if \<not> loaded then (w1, fresh_process)
        else (let p = specialize fresh_process
              in (if sp_unload p then api_setOption tbl DLCLOSE_MODULE_LIBRARY w1 else w1, p)))"

section \<open>Unloading and hooks\<close>

lemma untouched_unload [simp]: "untouched (p\<lparr>sp_unload := u\<rparr>) = untouched p"
  by (simp add: untouched_def)

lemma specialize_untouched:
  "sp_unload (pre_app_specialize ex files sy name fresh_process) \<Longrightarrow> untouched (pre_app_specialize ex files sy name fresh_process)"
  "sp_unload (pre_app_specialize_plain ex files sy name fresh_process) \<Longrightarrow> untouched (pre_app_specialize_plain ex files sy name fresh_process)"
proof -
  have f: "\<not> sp_unload fresh_process" by (simp add: fresh_process_def)
  show "sp_unload (pre_app_specialize ex files sy name fresh_process) \<Longrightarrow> untouched (pre_app_specialize ex files sy name fresh_process)"
    using f untouched_fresh by (cases name) (simp_all add: pre_app_specialize_def Let_def install_spoof_fields split: if_splits)
  show "sp_unload (pre_app_specialize_plain ex files sy name fresh_process) \<Longrightarrow> untouched (pre_app_specialize_plain ex files sy name fresh_process)"
    using f untouched_fresh by (cases name) (simp_all add: pre_app_specialize_plain_def Let_def install_spoof_fields split: if_splits)
qed

text \<open>
  C40. Hooks never outlive the library: whatever the framework, the configuration files and the process are, the
  module asks for its library to be closed only when none of its hooks is installed, in the current version of the module and in the
  earlier one; it asks at most once, and a module that the framework did not register touches nothing.
\<close>

theorem no_dangling_hooks:
  assumes "specialize \<in> {pre_app_specialize ex files sy name, pre_app_specialize_plain ex files sy name}"
    and "app_process tbl specialize w = (w', p)" "registerModule tbl w = (ok, wr)"
  shows "(\<not> untouched p \<longrightarrow> ok \<and> \<not> sp_unload p \<and> w' = wr) \<and>
    (w' = wr \<or> ok \<and> sp_unload p \<and> untouched p \<and> (\<exists>f. setOption tbl = Some f \<and> w' = f DLCLOSE_MODULE_LIBRARY wr))"
proof -
  have u: "sp_unload (specialize fresh_process) \<Longrightarrow> untouched (specialize fresh_process)"
    using assms(1) specialize_untouched by auto
  show ?thesis
    using assms(2,3) u untouched_fresh
    by (auto simp: app_process_def zygisk_module_entry_def api_setOption_def Let_def split: if_splits option.splits)
qed

definition counting_table :: "nat api_table" where
  "counting_table = \<lparr>registerModule = (\<lambda>w. (True, w)), hookJniNativeMethods = None, pltHookRegister = None, exemptFd = None,
     pltHookCommit = None, connectCompanion = None, setOption = Some (\<lambda>opt w. w + 1), getModuleDir = None, getFlags = None\<rparr>"

theorem no_dangling_hooks_witness:
  "\<exists>f. setOption counting_table = Some f \<and>
    fst (app_process counting_table (pre_app_specialize (\<lambda>_. False) (\<lambda>_. None) all_symbols None) 0) = f DLCLOSE_MODULE_LIBRARY 0 \<and>
    sp_unload (snd (app_process counting_table (pre_app_specialize (\<lambda>_. False) (\<lambda>_. None) all_symbols None) 0)) \<and>
    untouched (snd (app_process counting_table (pre_app_specialize (\<lambda>_. False) (\<lambda>_. None) all_symbols None) 0))"
proof -
  let ?s = "pre_app_specialize (\<lambda>_. False) (\<lambda>_. None) all_symbols None"
  let ?r = "app_process counting_table ?s 0"
  have "fst ?r \<noteq> 0"
    by (simp add: app_process_def zygisk_module_entry_def counting_table_def api_setOption_def pre_app_specialize_def Let_def)
  then show ?thesis
    using no_dangling_hooks [where ex = "\<lambda>_. False" and files = "\<lambda>_. None" and sy = all_symbols and name = None and w = 0 and wr = 0
        and tbl = counting_table and specialize = ?s and w' = "fst ?r" and p = "snd ?r" and ok = True]
    by (auto simp: counting_table_def)
qed

text \<open>A table without \<open>setOption\<close> keeps the library loaded in every process, excluded ones included.\<close>

lemma unload_needs_table:
  "setOption tbl = None \<Longrightarrow> fst (app_process tbl specialize w) = snd (registerModule tbl w)"
  by (auto simp: app_process_def zygisk_module_entry_def api_setOption_def Let_def split: prod.splits if_splits)

end
