(* ===== verification/Spec2Isabelle.thy ===== *)
theory Spec2Isabelle
  imports Prelude Capability Permission CapTree ModuleBus Lease Logging Framing LegacyIpc RootRuntime
    RootFacade Provider JsonText Utf8 JsonValue JsonLexer JsonParser JsonUtf8 JsonEscape JsonWriter
    Probes Module JsonCodec Daemon Kernel Sandbox Runner Platform EnvShield SpoofModule SuTool IpcClient NativeProbes
    Service Tokens RustPolicy JsonMemory ServerLife Zygisk
begin

text \<open>
  A verification development for AstraVeil, an Android root-management platform. Its
  privileged core is the C++ daemon astrad (src/daemon): it listens on a Unix socket,
  authenticates peers by uid, and answers length-prefixed requests that query capabilities,
  manage modules and their permissions, and run commands behind a policy decision taken in
  Rust. Around it are an own root backend (namespaces and overlays), a kernel module with a
  policy table and a su binary, a sandbox in which modules run, a Zygisk module that hides
  the system's state from applications, and a Rust component with policies and tokens.

  \<^bold>\<open>Parts and theories.\<close> Each theory models one part, in the order the code composes them.

  \<^item> \<open>Prelude\<close>: what the sources use of C++ strings and streams (\<open>find\<close>, \<open>substr\<close>,
    \<open>getline\<close>, \<open>fgets\<close>, decimal output, \<open>atoi\<close>), the wait status macros, the host record
    (files, commands, uid, namespaces) that the probing code reads, \<open>std::filesystem::exists\<close>, which throws
    when the status of a path cannot be determined, and the contracts
    \<open>named_enum\<close> and \<open>keyed_store\<close> that several components meet, and the locales
    \<open>machine\<close> and \<open>simulation\<close>, which carry an invariant or an abstraction along a history
    of operations (the leases, the module registry, the bus, the crash guard, the Rust policies).
  \<^item> \<open>Capability\<close>: capability/capability.cpp and capability_matrix.cpp. \<open>Permission\<close>:
    security/permission.cpp, permission_database.cpp and security_engine.cpp; the locale
    \<open>grant_store\<close> is the contract of a grant table, interpreted for the database and for
    the engine.
  \<^item> \<open>CapTree\<close>: security/capability_tree.cpp, the two maps of the class and all of its
    operations; \<open>built I\<close> are the trees the public operations produce when the ids in \<open>I\<close> are delegated to.
  \<^item> \<open>ModuleBus\<close>: ipc/module_bus.cpp with 64-bit counters and clock. \<open>Lease\<close>:
    security/lease_tracker.cpp. \<open>Logging\<close>: logger/logger.cpp and security/audit_logger.cpp.
  \<^item> \<open>Framing\<close>: ipc/socket_server.cpp. Reads and writes are scripts of what poll, read and
    write answer (timeouts, interruptions, partial transfers); a connection, a session and
    the accept loop are functions of these scripts. \<open>Service\<close>: the same loops as the life of a
    process that a throwing handler or a waiting write can end. \<open>ServerLife\<close>: the time its reads take, and
    its thread and signal handlers as a step relation. \<open>LegacyIpc\<close>: ipc/ipc_server.cpp with its
    worker, message_router.cpp, protobuf_handler.cpp. \<open>IpcClient\<close>: native/p4_ipc_client.c.
  \<^item> \<open>RootRuntime\<close> and \<open>RootFacade\<close>: root/*.cpp over a mount table and a file map.
    \<open>Provider\<close>: the five classes of provider/*.cpp as values of a record of virtual methods,
    the manager, registry, detector, text protocol, policy bridge and pipeline, with the
    locale \<open>provider_contract\<close>. \<open>Probes\<close>: the device probes and snapshot services;
    \<open>NativeProbes\<close>: the JNI probes of the application (native/src/main/cpp).
  \<^item> The JSON library (module-spoof/jni/include/json.hpp, version 3.12.0; the daemon includes 3.11.3 from
    daemon/third_party, which behaves alike in the parts modelled): \<open>Utf8\<close>, the two UTF-8 checkers;
    \<open>JsonValue\<close>, values and objects; \<open>JsonLexer\<close> and \<open>JsonParser\<close>, the scanner and the stack
    machine with its errors; \<open>JsonEscape\<close> and \<open>JsonWriter\<close>, string escaping with its buffer,
    integers and the two output forms; \<open>JsonUtf8\<close>, what the parser implies of a text; \<open>JsonMemory\<close>, the destructor
    of a value and the depth of the recursion in its serialisation. The text and the value
    of a floating-point number are parameters. \<open>JsonCodec\<close>: ipc/json_codec.cpp on this
    library. \<open>JsonText\<close>: the hand-written JSON escaping of the daemon.
  \<^item> \<open>Module\<close>: module/*.cpp without the runner, security/risk_engine.cpp and
    signature_verifier.cpp. \<open>Daemon\<close>: main.cpp, one definition per request type, with
    executor/command_executor.cpp and the Rust decision function.
  \<^item> \<open>Kernel\<close>: kernel/astra_root.c, kernel_bridge.cpp and policy_to_kernel.cpp. \<open>SuTool\<close>:
    native/astra_su.c and test_root.c on that kernel. \<open>Sandbox\<close>:
    sandbox/*.cpp and the child process of module/module_runner.cpp. \<open>Runner\<close>: the parent's side of that
    file, its process table and the threads inside \<open>start\<close> and \<open>stop\<close>. \<open>Platform\<close>: recovery, boot images, Android
    version, properties and SELinux.
  \<^item> \<open>EnvShield\<close> and \<open>SpoofModule\<close>: module-spoof/jni/src, the file filters and path hooks, the
    property and OpenGL hooks, the configuration reader and the Zygisk entry point. \<open>Zygisk\<close>:
    include/zygisk.hpp, the table of the framework's functions (parameters) and the registration.
  \<^item> \<open>Tokens\<close>: rust/src/capability_token.rs, attestation.rs and zk_capability.rs over parameters
    for the hash functions. \<open>RustPolicy\<close>: rust/src/policy.rs and sandbox.rs.
  \<^item> This theory: the handler behind the socket, \<open>main\<close>, and the properties of the whole daemon.

  \<^bold>\<open>What is shown.\<close> Of the daemon as a whole: one framed answer per framed request,
  whatever the chunking (C1); grants come from authenticated peers only (C2); a command runs
  exactly when the request is well formed, a provider is active and the policy allows it
  (C3); after any history that the process survives, a client is served, also with the capability matrix
  as long as the status of the probed paths can be read (C4); which requests
  end the process (C5); the permission protocol answers what was last decided (C6). Of the
  components: as long as no module has the empty id, the delegation tree keeps children within their
  parents, revocation cascades and
  removal is exact (C7 to C9); hostile clients and peers without an allowed uid have no effect
  (C10, C11), but a client that does not read stops the service and one that sends slowly keeps it for
  as long as its frame has bytes, times ten seconds, while others wait (C12, C13); a server that stops, by a signal at any moment, closes its
  socket, serves no new client and can leave its loop (C14); the kernel table grants nothing to a
  uid without an entry, the su binary runs a shell with the identity asked for, and a loaded
  policy is what the kernel applies (C15 to C17). Of the JSON library: the parser recognises
  exactly the JSON grammar, texts survive a round trip, serialisation fails exactly on ill-formed UTF-8, the
  escape buffer is never overrun, a value is freed exactly once and without recursion, integer
  printing and the UTF-8 automaton agree with their
  specifications, the lexer ends and parsed values are well formed (C18 to C26). Further: the audit
  log can be poisoned, with bytes on which serialisation throws or with nesting on which it recurses (C27, C28);
  module code runs in fresh namespaces, and seccomp keeps Landlock from being enforced (C29, C30);
  each module has one process that the runner tracks, as long as its calls for one module do not
  overlap (C31); the bus is first-in
  first-out (C32); overlays are balanced over the runtime's life unless its start throws (C33);
  the bus lets a bounded number of messages of a module pass (C34); tokens are bound to what they were issued for, and the proofs
  about them prove nothing (C35, C36); the kernel does not check the permitted set (C37); the shield filters
  exactly the lines it means to, a spoof profile takes effect as written, and the module's library is
  unloaded only when it has no hook (C38 to C40). Some of these
  describe a defect exactly (C5, C12, C13, C27, C28, C30, C36, C37; parts of C16, C31 and C33); further theorems and defects (among them
  \<open>signal_hang\<close>, \<open>policy_fails_closed\<close>, \<open>landlock_confinement\<close>, \<open>active_lease_iff\<close>) are stated
  outside that numbering.

  \<^bold>\<open>Conventions.\<close> State is passed explicitly; operations return their result and the new
  state. The answers of the operating system are arguments or records (\<open>host\<close>, \<open>rkernel\<close>,
  \<open>skernel\<close>, \<open>kenv\<close>, read and write scripts), so every theorem quantifies over them. Errors
  are option values or false results as in the code; an exception that leaves the request
  handler is None, a panic in Rust is the value Panic. Loops follow the structure of
  their input (scripts, lists, counters). Only the two recursions of the delegation tree have
  fuel, one more than the number of nodes (revocation) or of child lists (removal), and
  return None when it runs out; C8 and C9 show that it never does on a tree the operations
  build without the empty id, because a path in such a tree visits a node once. Counters are
  64-bit words where they can wrap, \<open>int\<close> where they are only compared; bytes are 8-bit words
  on the wire and characters elsewhere. The daemon serves one client at a time, so the calls its requests make do
  not overlap. Elsewhere each public call is one step where the class holds its mutex for the whole call
  (delegation tree, bus, lease table, log ring); the classes without one are modelled for calls that do not overlap. \<open>ModuleRunner\<close> releases its mutex inside a call
  and is modelled by the steps of several threads, and so are signals in the server (\<open>ServerLife\<close>).

  \<^bold>\<open>What is not modelled.\<close> The spelling of options (\<open>getopt_long\<close> delivers them), a signal
  that arrives inside a signal handler, the exhaustion of memory (\<open>std::bad_alloc\<close>), log output on stderr, the stubs that only log
  (update, zygote, system server and hook managers, recovery manager, the sandbox class), the conversion
  to Java objects in the JNI code, the Kotlin application, and the parts of the JSON library the
  repository does not use (binary formats, pointers, patches, callbacks, and the
  digits of floating-point numbers). SHA-256, HMAC, serde_json, the Zygisk framework and Dobby are not part of the
  sources and appear as parameters or as their documented effect. The files property_hook.cpp, gl_spoof.cpp and
  config_reader.cpp directly under module-spoof/jni are earlier copies of those under src with the same behaviour.
\<close>

section \<open>The daemon behind the socket\<close>

text \<open>
  The handler that \<open>main\<close> installs in the socket server, as the state transformer the
  server calls: the \<open>n\<close>-th request of the process finds the environment \<open>envs n\<close>. A request whose
  handler throws ends the process; the theorems below speak of runs without one (\<open>run_requests\<close> is
  not None), and the theory \<open>Daemon\<close> tells exactly which requests throw.
\<close>

definition daemon_step :: "(nat \<Rightarrow> daemon_env) \<Rightarrow> nat \<times> daemon \<Rightarrow> byte list \<Rightarrow> byte list \<times> nat \<times> daemon" where
  "daemon_step envs st req = (case handler (envs (fst st)) (snd st) req of
      None \<Rightarrow> ([], st)
    | Some (resp, d') \<Rightarrow> (resp, Suc (fst st), d'))"

text \<open>The requests of a run, each with the environment it finds.\<close>

definition timed :: "(nat \<Rightarrow> daemon_env) \<Rightarrow> nat \<Rightarrow> byte list list \<Rightarrow> (daemon_env \<times> byte list) list" where
  "timed envs n reqs = zip (map envs [n..<n + length reqs]) reqs"

lemma timed_Cons: "timed envs n (r # rs) = (envs n, r) # timed envs (Suc n) rs"
  by (simp add: timed_def upt_rec)

lemma timed_Nil [simp]: "timed envs n [] = []"
  by (simp add: timed_def)

lemma decisions_timed: "decisions (timed envs n reqs) = concat (map perm_op reqs)"
  by (induction reqs arbitrary: n) (simp_all add: decisions_def timed_Cons)

text \<open>Serving a list of payloads is running the requests.\<close>

lemma serve_daemon:
  "run_requests d (timed envs n reqs) = Some (rs, d') \<Longrightarrow>
    serve (daemon_step envs) reqs (n, d) = (rs, n + length reqs, d') \<and> ([] \<notin> set reqs \<longrightarrow> [] \<notin> set rs)"
proof (induction reqs arbitrary: n d rs)
  case (Cons req reqs)
  then obtain r d1 rs1 where h: "handler (envs n) d req = Some (r, d1)"
      "run_requests d1 (timed envs (Suc n) reqs) = Some (rs1, d')" "rs = r # rs1"
    by (auto simp: timed_Cons split: option.splits)
  have "req \<noteq> [] \<longrightarrow> r \<noteq> []" using h(1) by (cases req) (auto simp: handler_Cons)
  moreover have "daemon_step envs (n, d) req = (r, Suc n, d1)" by (simp add: daemon_step_def h(1))
  ultimately show ?case using h Cons.IH [OF h(2)] by auto
qed simp

text \<open>A session whose requests do not throw.\<close>

lemma answered_session:
  assumes "run_requests d (timed envs n reqs) = Some (resps, d')"
    and "calm rs" "arrives rs = wire_of reqs" "\<forall>p\<in>set reqs. legal_request p"
    and "willing ws" "length (wire_of resps) \<le> accepts ws" "length reqs \<le> k"
  shows "handle_client (Some (daemon_step envs)) (replicate k True) rs ws (n, d) = ((n + length reqs, d'), reqs, wire_of resps)"
proof -
  have ne: "[] \<notin> set reqs" using assms(4) by (auto simp: legal_request_def)
  have "serve (daemon_step envs) reqs (n, d) = (resps, n + length reqs, d')" "[] \<notin> set resps"
    using serve_daemon [OF assms(1)] ne by blast+
  then show ?thesis using handle_client_session [of rs reqs ws "daemon_step envs" "(n, d)" k] assms by simp
qed

lemma answer_types:
  "run_requests d (timed envs n reqs) = Some (resps, d') \<Longrightarrow> [] \<notin> set reqs \<Longrightarrow>
    length resps = length reqs \<and> map hd resps = map hd reqs"
proof (induction reqs arbitrary: n d resps)
  case (Cons req reqs)
  then obtain t rest where req: "req = t # rest" by (cases req) auto
  obtain r1 d1 rs1 where "handler (envs n) d req = Some (r1, d1)"
      "run_requests d1 (timed envs (Suc n) reqs) = Some (rs1, d')" "resps = r1 # rs1"
    using Cons.prems(1) by (auto simp: timed_Cons split: option.splits)
  then show ?case using Cons.IH [of d1 "Suc n" rs1] Cons.prems(2) by (auto simp: req handler_Cons)
qed simp

text \<open>
  C1. The wire protocol: as long as no request throws, a client that sends a sequence of frames, in any chunking and
  with any interruptions, and keeps reading, is answered with exactly one frame per
  request, in order, each carrying the response of the request's handler (which starts with
  the request's type byte), and the daemon ends in the state that handling the requests
  one after the other gives; no request goes unanswered.
\<close>

theorem wire_protocol:
  assumes "run_requests d (timed envs n reqs) = Some (resps, d')"
    and "calm rs" "arrives rs = wire_of reqs" "\<forall>p\<in>set reqs. legal_request p"
    and "willing ws" "length (wire_of resps) \<le> accepts ws" "length reqs \<le> k"
  shows "length resps = length reqs \<and> map hd resps = map hd reqs \<and>
    handle_client (Some (daemon_step envs)) (replicate k True) rs ws (n, d) =
      ((n + length reqs, d'), reqs, wire_of resps)"
  using answered_session [OF assms] answer_types [OF assms(1)] assms(4) by (auto simp: legal_request_def)

lemma steady_peer: "accepts (replicate n (Accept 1)) = n" "willing (replicate n (Accept 1))"
  by (induction n) simp_all

text \<open>A session of one StopModule request, its frame split in the middle.\<close>

theorem wire_protocol_witness:
  \<open>length [0x09 # bytes_of_str ''{"stopped":true}''] = length [[0x09 :: byte]] \<and>
    map hd [0x09 # bytes_of_str ''{"stopped":true}''] = map hd [[0x09 :: byte]] \<and>
    handle_client (Some (daemon_step (\<lambda>_. toy_env))) (replicate 1 True) [Data [0, 0], PollIntr, Data [0, 1, 0x09]]
        (replicate 21 (Accept 1)) (0, toy_daemon []) =
      ((0 + length [[0x09 :: byte]], toy_daemon []), [[0x09]],
       wire_of [0x09 # bytes_of_str ''{"stopped":true}''])\<close>
proof (rule wire_protocol)
  show \<open>run_requests (toy_daemon []) (timed (\<lambda>_. toy_env) 0 [[0x09]]) =
      Some ([0x09 # bytes_of_str ''{"stopped":true}''], toy_daemon [])\<close>
    by (simp add: timed_Cons handler_def dispatch_def handle_stop_def runtime_stop_def bytes_of_str_def)
  show "arrives [Data [0, 0], PollIntr, Data [0, 1, 0x09]] = wire_of [[0x09]]"
    by (simp add: encode_frame_def be32_def)
  show "willing (replicate 21 (Accept 1))" by (rule steady_peer)
  show \<open>length (wire_of [0x09 # bytes_of_str ''{"stopped":true}'']) \<le> accepts (replicate 21 (Accept 1))\<close>
    by (simp add: steady_peer [unfolded One_nat_def] bytes_of_str_def)
qed (simp_all add: legal_request_def max_frame_def)

text \<open>
  C2. Grants come from authenticated peers: after any history of the accept loop of a
  freshly started daemon (connections that fail, hostile clients, sessions cut anywhere), a
  permission is recorded for a module exactly when the last grant or revocation of it among
  the complete requests of the authenticated connections was a grant; nothing that another
  peer sent counts.
\<close>

theorem grants_from_authenticated_peers:
  assumes "daemon_init h k w file = Some d0" "server_run (Some (daemon_step envs)) s evs (0, d0) = ((n, d), lg)"
    and "run_requests d0 (timed envs 0 (concat (map (\<lambda>(cred, ps, out). ps) lg))) = Some (rs, d')"
  shows "db_check (d_db d) m p =
    last_word (concat (map perm_op (concat (map (\<lambda>(cred, ps, out). if authenticate_peer cred then ps else []) lg)))) m p False"
proof -
  let ?ps = "concat (map (\<lambda>(cred, ps, out). ps) lg)"
  have "(\<forall>(cred, ps, out)\<in>set lg. \<not> authenticate_peer cred \<longrightarrow> ps = []) \<and>
      (n, d) = snd (serve (daemon_step envs) ?ps (0, d0))"
  proof (cases "listen_fd s < 0")
    case False
    then have "run_loop (Some (daemon_step envs)) evs (0, d0) = ((n, d), lg)"
      using assms(2) by (simp add: server_run_def)
    from run_loop_invariant [OF this] show ?thesis by auto
  qed (use assms(2) in \<open>simp add: server_run_def\<close>)
  then have unauth: "\<forall>(cred, ps, out)\<in>set lg. \<not> authenticate_peer cred \<longrightarrow> ps = []"
    and st: "(n, d) = snd (serve (daemon_step envs) ?ps (0, d0))" by simp_all
  have r: "serve (daemon_step envs) ?ps (0, d0) = (rs, 0 + length ?ps, d')"
    using serve_daemon [OF assms(3)] by blast
  have "d_db d = engine_history Map.empty (concat (map perm_op ?ps))"
    using run_requests_db [OF assms(3)] st r daemon_init_fields [OF assms(1)] by (simp add: decisions_timed)
  moreover have "map (\<lambda>(cred, ps, out). if authenticate_peer cred then ps else []) lg = map (\<lambda>(cred, ps, out). ps) lg"
    using unauth by (intro map_cong refl) (auto split: prod.splits)
  ultimately show ?thesis by (simp only: db_check_history)
qed

text \<open>Two peers send the same grant; the first is not allowed to connect.\<close>

definition grant_mount :: "byte list" where
  "grant_mount = grant_request ''m'' permission.MOUNT"

definition two_peers :: "(bool \<times> accept_ev) list" where
  "two_peers =
    (let c = \<lparr>c_running = [True], c_reads = [Data (encode_frame grant_mount)], c_writes = []\<rparr>
     in [(True, Accepted (Some 5000) c), (True, Accepted (Some 1000) c)])"

lemma grant_mount_bytes: "grant_mount = [0x0C, 0x6D, 0x3A, 0x4D, 0x4F, 0x55, 0x4E, 0x54]"
  by (simp add: grant_mount_def grant_request_def bytes_of_str_def)

theorem grants_from_authenticated_peers_witness:
  "db_check (d_db (snd (snd (daemon_step (\<lambda>_. toy_env) (0, toy_daemon []) grant_mount)))) ''m'' permission.MOUNT =
    last_word (concat (map perm_op (concat (map (\<lambda>(cred, ps, out). if authenticate_peer cred then ps else [])
      [(Some 5000, [], []), (Some 1000, [grant_mount], [] :: byte list)])))) ''m'' permission.MOUNT False"
proof (rule grants_from_authenticated_peers [OF toy_daemon_init])
  let ?d = "toy_daemon []"
  let ?f = "daemon_step (\<lambda>_. toy_env)"
  have "split_at_colon (''m'' @ CHR '':'' # ''MOUNT'') = Some (''m'', ''MOUNT'')" by (rule split_at_colon_append) simp
  then have "handler toy_env ?d grant_mount \<noteq> None"
    by (simp add: grant_mount_def grant_request_def handler_def dispatch_def handle_grant_def Let_def split: option.splits prod.splits)
  then obtain r d' where h: "handler toy_env ?d grant_mount = Some (r, d')" by auto
  then have "r \<noteq> []" by (auto simp: grant_mount_bytes handler_Cons)
  note h = h this
  then have f: "?f (0, ?d) grant_mount = (r, 1, d')" by (simp add: daemon_step_def)
  obtain r1 rs where "r = r1 # rs" using h(2) by (cases r) auto
  have "send_response r [] = (False, [], [])" using h(2) by (simp add: send_response_def be32_def)
  then show run: "server_run (Some ?f) \<lparr>socket_path = ''s'', listen_fd = 3, running = True\<rparr> two_peers (0, ?d) =
    ((1, snd (snd (?f (0, ?d) grant_mount))), [(Some 5000, [], []), (Some 1000, [grant_mount], [])])"
    using f by (simp add: server_run_def two_peers_def authenticate_peer_def is_allowed_uid_def Let_def
        read_steps encode_frame_def be32_def grant_mount_bytes max_frame_def)
  show "run_requests ?d (timed (\<lambda>_. toy_env) 0 (concat (map (\<lambda>(cred, ps, out). ps)
      [(Some 5000, [], []), (Some 1000, [grant_mount], [] :: byte list)]))) =
    Some ([fst (?f (0, ?d) grant_mount)], snd (snd (?f (0, ?d) grant_mount)))"
    using h f by (simp add: timed_Cons)
qed

section \<open>Requests that are always answered\<close>

lemma safe_requests_resps:
  assumes "d_version d = ''0.1.0''" "\<forall>req\<in>set reqs. legal_request req \<and> hd req \<notin> {0x02, 0x03, 0x0F}"
    and "\<forall>i. - (2 ^ 63) \<le> e_uptime (envs i) \<and> e_uptime (envs i) < 2 ^ 63"
    and "[0x05] \<in> set (map (take 1) reqs) \<longrightarrow> (\<forall>i. stat_works (e_host (envs i)))"
  obtains resps d' where "run_requests d (timed envs n reqs) = Some (resps, d')" "length resps = length reqs" "map hd resps = map hd reqs"
proof -
  have ne: "[] \<notin> set reqs" using assms(2) by (auto simp: legal_request_def)
  have "utf8 (d_version d)" using assms(1) by (simp add: utf8_ascii_string)
  moreover have "safe_request e req \<and> - (2 ^ 63) \<le> e_uptime e \<and> e_uptime e < 2 ^ 63"
    if "(e, req) \<in> set (timed envs n reqs)" for e req
  proof -
    have "req \<in> set reqs" using that unfolding timed_def by (rule set_zip_rightD)
    moreover from this have "req \<noteq> []" using ne by blast
    then have "take 1 req = [hd req]" by (simp add: take_Suc)
    then have "hd req = 0x05 \<longrightarrow> [0x05] \<in> set (map (take 1) reqs)" using \<open>req \<in> set reqs\<close> by (metis image_eqI list.set_map)
    moreover have "e \<in> set (map envs [n..<n + length reqs])" using that unfolding timed_def by (rule set_zip_leftD)
    ultimately show ?thesis using assms(2-4) ne by (auto simp: safe_request_def)
  qed
  ultimately obtain resps d' where r: "run_requests d (timed envs n reqs) = Some (resps, d')"
    using safe_requests_run [of d "timed envs n reqs"] by auto
  then show ?thesis using that [OF r] answer_types [OF r ne] by simp
qed

text \<open>
  A session with a daemon that has survived any requests so far: requests of any types but
  GetProvider, Execute and GetAudit (malformed bodies and unknown types included, and GetCapabilityMatrix while \<open>stat\<close>
  works on the paths it looks at) are answered,
  with one frame for each of them, provided only that the client keeps reading and the clock
  is a 64-bit number.
\<close>

theorem safe_requests_answered:
  assumes "daemon_init h k w file = Some d0" "run_requests d0 history = Some (rs0, d)"
    and "\<forall>req\<in>set reqs. legal_request req \<and> hd req \<notin> {0x02, 0x03, 0x0F}"
    and "\<forall>i. - (2 ^ 63) \<le> e_uptime (envs i) \<and> e_uptime (envs i) < 2 ^ 63"
    and "[0x05] \<in> set (map (take 1) reqs) \<longrightarrow> (\<forall>i. stat_works (e_host (envs i)))"
  shows "\<exists>resps d'. length resps = length reqs \<and> map hd resps = map hd reqs \<and>
    (\<forall>rs ws. calm rs \<and> arrives rs = wire_of reqs \<and> willing ws \<and> length (wire_of resps) \<le> accepts ws \<longrightarrow>
       handle_client (Some (daemon_step envs)) (replicate (length reqs) True) rs ws (n, d) =
         ((n + length reqs, d'), reqs, wire_of resps))"
proof -
  have "d_version d = ''0.1.0''" using run_requests_version [OF assms(2)] daemon_init_fields [OF assms(1)] by simp
  then obtain resps d' where r: "run_requests d (timed envs n reqs) = Some (resps, d')" "length resps = length reqs" "map hd resps = map hd reqs"
    using safe_requests_resps [OF _ assms(3-5)] by blast
  then show ?thesis
    using answered_session [OF r(1)] assms(3) by (intro exI [of _ resps] exI [of _ d']) auto
qed

section \<open>The service\<close>

text \<open>The handler of the process: None when a request throws, which ends the process.\<close>

definition daemon_handler :: "(nat \<Rightarrow> daemon_env) \<Rightarrow> nat \<times> daemon \<Rightarrow> byte list \<Rightarrow> (byte list \<times> nat \<times> daemon) option" where
  "daemon_handler envs st req = map_option (\<lambda>(resp, d'). (resp, Suc (fst st), d')) (handler (envs (fst st)) (snd st) req)"

lemma answering_daemon: "answering (daemon_handler envs) = daemon_step envs"
  by (intro ext) (auto simp: answering_def daemon_handler_def daemon_step_def split: option.splits)

lemma serve_all_daemon:
  "run_requests d (timed envs n reqs) = Some (rs, d') \<Longrightarrow> serve_all (daemon_handler envs) reqs (n, d) = Some (rs, n + length reqs, d')"
proof (induction reqs arbitrary: n d rs)
  case (Cons req reqs)
  then obtain r d1 rs1 where "handler (envs n) d req = Some (r, d1)"
      "run_requests d1 (timed envs (Suc n) reqs) = Some (rs1, d')" "rs = r # rs1"
    by (auto simp: timed_Cons split: option.splits)
  then show ?case using Cons.IH [of d1 "Suc n" rs1] by (simp add: daemon_handler_def)
qed simp

lemma serve_version: "d_version (snd (snd (serve (daemon_step envs) reqs st))) = d_version (snd st)"
proof (induction reqs arbitrary: st)
  case (Cons req reqs)
  have "d_version (snd (snd (daemon_step envs st req))) = d_version (snd st)"
    by (auto simp: daemon_step_def dest: handler_version split: option.splits)
  then show ?case using Cons.IH by (simp add: case_prod_beta Let_def)
qed simp

lemma process_version:
  "process_loop (daemon_handler envs) evs st = (Returned, st', lg) \<Longrightarrow> d_version (snd st') = d_version (snd st)"
  using run_loop_invariant [OF process_runs, of "daemon_handler envs" evs st st' lg] by (simp add: answering_daemon serve_version)

text \<open>
  C4. The daemon stays available: whatever connections the process has accepted since it started
  (hostile clients, peers that were refused, sessions cut anywhere), as long as none of them has
  ended or blocked it, an authenticated client that connects next and sends
  requests of any types but GetProvider, Execute and GetAudit (malformed bodies and unknown types included)
  is served: every request is answered by one frame with its type, in order, and the process
  goes on to accept. The client is only assumed to keep reading, the clock to be a 64-bit number, and, if there is a
  GetCapabilityMatrix among the requests, \<open>stat\<close> to find or not to find the five paths that it may look at, without another error.
\<close>

theorem service_available:
  assumes "daemon_init h k w file = Some d0"
    and "process_loop (daemon_handler envs) evs (0, d0) = (Returned, (n, d), lg)" "list_all fst evs"
    and "\<forall>req\<in>set reqs. legal_request req \<and> hd req \<notin> {0x02, 0x03, 0x0F}"
    and "\<forall>i. - (2 ^ 63) \<le> e_uptime (envs i) \<and> e_uptime (envs i) < 2 ^ 63"
    and "[0x05] \<in> set (map (take 1) reqs) \<longrightarrow> (\<forall>i. stat_works (e_host (envs i)))"
  shows "\<exists>resps d'. length resps = length reqs \<and> map hd resps = map hd reqs \<and>
    (\<forall>cred c. authenticate_peer cred \<and> c_running c = replicate (length reqs) True \<and> calm (c_reads c) \<and>
        arrives (c_reads c) = wire_of reqs \<and> willing (c_writes c) \<and> length (wire_of resps) \<le> accepts (c_writes c) \<longrightarrow>
       process_loop (daemon_handler envs) (evs @ [(True, Accepted cred c)]) (0, d0) =
         (Returned, (n + length reqs, d'), lg @ [(cred, reqs, wire_of resps)]))"
proof -
  have "d_version d = ''0.1.0''" using process_version [OF assms(2)] daemon_init_fields [OF assms(1)] by simp
  then obtain resps d' where r: "run_requests d (timed envs n reqs) = Some (resps, d')" "length resps = length reqs" "map hd resps = map hd reqs"
    using safe_requests_resps [OF _ assms(4-6)] by blast
  have ne: "[] \<notin> set resps" using serve_daemon [OF r(1)] assms(4) by (auto simp: legal_request_def)
  have "process_loop (daemon_handler envs) (evs @ [(True, Accepted cred c)]) (0, d0) =
         (Returned, (n + length reqs, d'), lg @ [(cred, reqs, wire_of resps)])"
    if c: "authenticate_peer cred" "c_running c = replicate (length reqs) True" "calm (c_reads c)"
      "arrives (c_reads c) = wire_of reqs" "willing (c_writes c)" "length (wire_of resps) \<le> accepts (c_writes c)" for cred c
  proof -
    have "client_session (daemon_handler envs) (c_running c) (c_reads c) (c_writes c) (n, d) =
        (Returned, (n + length reqs, d'), reqs, wire_of resps)"
      unfolding c(2) using session_answers [OF c(3,4) _ c(5) serve_all_daemon [OF r(1)] ne c(6)] assms(4) by blast
    from process_served [OF this c(1), of "[]"] show ?thesis using process_append [OF assms(2,3)] by simp
  qed
  then show ?thesis using r(2,3) by blast
qed

text \<open>An app that is refused has connected before a client asks two requests.\<close>

theorem service_available_witness:
  "\<exists>resps d'. length resps = length [[0x05 :: byte], [0xEE]] \<and> map hd resps = map hd [[0x05], [0xEE]] \<and>
    (\<forall>cred c. authenticate_peer cred \<and> c_running c = replicate (length [[0x05 :: byte], [0xEE]]) True \<and> calm (c_reads c) \<and>
        arrives (c_reads c) = wire_of [[0x05], [0xEE]] \<and> willing (c_writes c) \<and> length (wire_of resps) \<le> accepts (c_writes c) \<longrightarrow>
       process_loop (daemon_handler (\<lambda>_. toy_env)) ([(True, Accepted (Some 5000) idle_reader)] @ [(True, Accepted cred c)])
           (0, toy_daemon []) =
         (Returned, (0 + length [[0x05 :: byte], [0xEE]], d'), [(Some 5000, [], [])] @ [(cred, [[0x05], [0xEE]], wire_of resps)]))"
  by (rule service_available [OF toy_daemon_init, where d = "toy_daemon []"])
    (simp_all add: legal_request_def max_frame_def toy_env_def authenticate_peer_def is_allowed_uid_def stat_works_def
      probed_paths_def bare_host_def)

section \<open>The program\<close>

text \<open>
  What \<open>getopt_long\<close> delivers on the command line, option by option; any other option is \<open>OptOther\<close>.
\<close>

datatype main_opt = OptSocket string | OptVersion | OptHelp | OptOther

fun main_options :: "main_opt list \<Rightarrow> string \<Rightarrow> int + string" where
  "main_options [] path = Inr path"
| "main_options (opt # opts) path = (case opt of
      OptSocket arg \<Rightarrow> main_options opts arg
    | OptVersion \<Rightarrow> Inl 0
    | OptHelp \<Rightarrow> Inl 0
    | OptOther \<Rightarrow> Inl 1)"

text \<open>
  \<open>main\<close>: the exit code, the state of the server at the end, and, when the accept loop was entered,
  its result; None when an exception during start-up ends the process.
\<close>

definition daemon_main :: "main_opt list \<Rightarrow> start_sys \<Rightarrow> (nat \<Rightarrow> daemon_env) \<Rightarrow> host \<Rightarrow> rkernel \<Rightarrow> world \<Rightarrow> string \<Rightarrow>
    (bool \<times> accept_ev) list \<Rightarrow>
    (int \<times> server option \<times> ((nat \<times> daemon) \<times> (u32 option \<times> byte list list \<times> byte list) list) option) option" where
  "daemon_main opts calls envs h k w file evs = (case main_options opts ''/dev/astra/astrad.sock'' of
      Inl code \<Rightarrow> Some (code, None, None)
    | Inr path \<Rightarrow> (case daemon_init h k w file of
          None \<Rightarrow> None
        | Some d0 \<Rightarrow>
            (case server_start calls \<lparr>socket_path = path, listen_fd = -1, running = False\<rparr> of
               (ok, s) \<Rightarrow>
                 if \<not> ok then Some (1, Some s, None)
                 else Some (0, Some (snd (server_stop s)),
                   Some (server_run (Some (daemon_step envs)) s evs (0, d0))))))"

text \<open>
  The last \<open>--socket\<close> option wins, unless another option ends the program before; the accept loop
  runs exactly when the server starts on that path, and the socket is closed at the end.
\<close>

lemma main_options_sockets: "main_options (map OptSocket ps) path = Inr (last (path # ps))"
  by (induction ps arbitrary: path) auto

lemma daemon_main_runs:
  assumes "daemon_main opts calls envs h k w file evs = Some (code, srv, Some r)"
  shows "\<exists>path s d0. main_options opts ''/dev/astra/astrad.sock'' = Inr path \<and> code = 0 \<and> srv = Some s \<and> \<not> running s \<and> listen_fd s < 0 \<and>
    length path < 108 \<and> daemon_init h k w file = Some d0 \<and> r = run_loop (Some (daemon_step envs)) evs (0, d0)"
  using assms
  by (auto simp: daemon_main_def server_start_def server_stop_def server_run_def sun_path_size_def
      split: sum.splits if_splits option.splits)

section \<open>The documented examples of the test client\<close>

text \<open>
  The usage text of p4_ipc_client gives the command \<open>id\<close> as the body of an Execute request. The
  daemon wants a JSON object there, so the example is refused as a bad request, in every state.
\<close>

lemma p4_execute_example: "fst (projl (the (execute_gate e d ''id''))) = ''bad_request''"
proof -
  have "jl_parse ''id'' = None" by code_simp
  then show ?thesis by (simp add: execute_gate_def parse_execute_request_def)
qed

end
